(* ===== verification/Prelude.thy ===== *)
theory Prelude
  imports Main "HOL-Library.Word" "HOL-Library.Monad_Syntax"
begin

text \<open>
  Shared vocabulary of the development: machine integers, the memory model (a heap of
  allocated cells, pointers that may be NULL, fixed-size arrays).

  The C code is modelled in the option monad. \<open>None\<close> is the outcome of a call
  that does not return to its caller in a defined way: a NULL or dangling pointer is
  dereferenced, an array is accessed outside its bounds, the process exits, or a loop
  does not end. Blocks are never reused once freed (as in the block-based memory models
  for C), so a dangling pointer is always recognised as such.
\<close>

type_synonym u8 = "8 word"
type_synonym u16 = "16 word"
type_synonym u32 = "32 word"
type_synonym u64 = "64 word"

type_synonym addr = nat
type_synonym ptr = "addr option"
type_synonym 'n memory = "addr \<Rightarrow> 'n option"

named_theorems mem_simps

subsection \<open>Memory\<close>

definition deref :: "'n memory \<Rightarrow> ptr \<Rightarrow> 'n option" where
  "deref h p = (case p of None \<Rightarrow> None | Some a \<Rightarrow> h a)"

definition modify :: "ptr \<Rightarrow> ('n \<Rightarrow> 'n) \<Rightarrow> 'n memory \<Rightarrow> 'n memory option" where
  "modify p f h = (case p of None \<Rightarrow> None | Some a \<Rightarrow>
     (case h a of None \<Rightarrow> None | Some n \<Rightarrow> Some (h(a := Some (f n)))))"

definition release :: "ptr \<Rightarrow> 'n memory \<Rightarrow> 'n memory option" where
  "release p h = (case p of None \<Rightarrow> Some h | Some a \<Rightarrow>
     (if h a = None then None else Some (h(a := None))))"

text \<open>The guarded assignment \<open>if (p != NULL) p->field = v\<close>.\<close>

definition modify_if :: "ptr \<Rightarrow> ('n \<Rightarrow> 'n) \<Rightarrow> 'n memory \<Rightarrow> 'n memory option" where
  "modify_if p f h = (if p = None then Some h else modify p f h)"

definition load :: "'v list \<Rightarrow> nat \<Rightarrow> 'v option" where
  "load xs i = (if i < length xs then Some (xs ! i) else None)"

definition store :: "'v list \<Rightarrow> nat \<Rightarrow> 'v \<Rightarrow> 'v list option" where
  "store xs i v = (if i < length xs then Some (xs[i := v]) else None)"

lemma deref_simps [simp, mem_simps]:
  "deref h None = None" "deref h (Some a) = h a"
  by (simp_all add: deref_def)

lemma modify_simps [simp, mem_simps]:
  "modify None f h = None"
  "h a = None \<Longrightarrow> modify (Some a) f h = None"
  "h a = Some n \<Longrightarrow> modify (Some a) f h = Some (h(a := Some (f n)))"
  by (simp_all add: modify_def)

lemma modify_if_simps [simp, mem_simps]:
  "modify_if None f h = Some h"
  "modify_if (Some a) f h = modify (Some a) f h"
  by (simp_all add: modify_if_def)

lemma release_simps [simp, mem_simps]:
  "release None h = Some h"
  "h a = Some n \<Longrightarrow> release (Some a) h = Some (h(a := None))"
  "h a = None \<Longrightarrow> release (Some a) h = None"
  by (simp_all add: release_def)

lemma load_eq [simp, mem_simps]: "i < length xs \<Longrightarrow> load xs i = Some (xs ! i)"
  by (simp add: load_def)

lemma load_None [simp, mem_simps]: "load xs i = None \<longleftrightarrow> length xs \<le> i"
  by (auto simp: load_def)

lemma store_eq [simp, mem_simps]: "i < length xs \<Longrightarrow> store xs i v = Some (xs[i := v])"
  by (simp add: store_def)

lemma store_None [simp, mem_simps]: "store xs i v = None \<longleftrightarrow> length xs \<le> i"
  by (auto simp: store_def)

end
