(* ===== verification/Opof_Types.thy ===== *)
theory Opof_Types
  imports Prelude
begin

text \<open>
  The types of \<open>include/opof.h\<close>: the enumerations and the structs that the C interfaces of
  the client and of the server exchange.

  A C enumeration is an \<open>int\<close>: a field of an enumeration type can hold any value, and values
  that arrive in a message are cast without a check. So the enumerators are constructors of a
  datatype, \<open>..._code\<close> gives their value, and the fields hold the value, a 32-bit word.
  An enumerator \<open>_X\<close> of the source is called \<open>X\<close>. Functions of the C interface that return
  an \<open>int\<close> status return a 32-bit word as well.
\<close>

subsection \<open>Enumerations\<close>

datatype PROTOCOL_ID_T = HOPOPT | TCP | UDP

fun proto_code :: "PROTOCOL_ID_T \<Rightarrow> u32" where
  "proto_code HOPOPT = 0" | "proto_code TCP = 6" | "proto_code UDP = 17"

datatype IP_VERSION_T = IPV4 | IPV6

fun ipver_code :: "IP_VERSION_T \<Rightarrow> u32" where
  "ipver_code IPV4 = 0" | "ipver_code IPV6 = 1"

datatype ACTION_VALUE_T = DROP | FORWARD | MIRROR | SNOOP

fun action_code :: "ACTION_VALUE_T \<Rightarrow> u32" where
  "action_code DROP = 0" | "action_code FORWARD = 1" | "action_code MIRROR = 2" | "action_code SNOOP = 3"

datatype SESSION_STATE_T = ESTABLISHED | CLOSING_1 | CLOSING_2 | CLOSED | UNKNOWN_STATE

fun state_code :: "SESSION_STATE_T \<Rightarrow> u32" where
  "state_code ESTABLISHED = 0"
| "state_code CLOSING_1 = 1"
| "state_code CLOSING_2 = 2"
| "state_code CLOSED = 3"
| "state_code UNKNOWN_STATE = 4"

datatype SESSION_CLOSE_T = NOT_CLOSED | FINACK | RST | TIMEOUT | UNKNOWN_CLOSE_CODE

fun close_code :: "SESSION_CLOSE_T \<Rightarrow> u32" where
  "close_code NOT_CLOSED = 0"
| "close_code FINACK = 1"
| "close_code RST = 2"
| "close_code TIMEOUT = 3"
| "close_code UNKNOWN_CLOSE_CODE = 4"

datatype SESSION_STATUS_T =
    OK | CANCELLED | UNKNOWN | INVALID_ARGUMENT | DEADLINE_EXCEEDED | NOT_FOUND | ALREADY_EXISTS
  | PERMISSION_DENIED | UNAUTHENTICATED | RESOURCE_EXHAUSTED | FAILED_PRECONDITION | ABORTED
  | OUT_OF_RANGE | UNIMPLEMENTED | INTERNAL | UNAVAILABLE | DATA_LOSS | DO_NOT_USE

fun status_code :: "SESSION_STATUS_T \<Rightarrow> u32" where
  "status_code OK = 0"
| "status_code CANCELLED = 1"
| "status_code UNKNOWN = 2"
| "status_code INVALID_ARGUMENT = 3"
| "status_code DEADLINE_EXCEEDED = 4"
| "status_code NOT_FOUND = 5"
| "status_code ALREADY_EXISTS = 6"
| "status_code PERMISSION_DENIED = 7"
| "status_code UNAUTHENTICATED = 16"
| "status_code RESOURCE_EXHAUSTED = 8"
| "status_code FAILED_PRECONDITION = 9"
| "status_code ABORTED = 10"
| "status_code OUT_OF_RANGE = 11"
| "status_code UNIMPLEMENTED = 12"
| "status_code INTERNAL = 13"
| "status_code UNAVAILABLE = 14"
| "status_code DATA_LOSS = 15"
| "status_code DO_NOT_USE = -1"

datatype ADD_SESSION_STATUS_T =
  SESSION_ACCEPTED | SESSION_REJECTED | SESSION_TABLE_FULL | SESSION_TABLE_UNAVAILABLE | SESSION_ALREADY_EXISTS

fun add_status_code :: "ADD_SESSION_STATUS_T \<Rightarrow> u32" where
  "add_status_code SESSION_ACCEPTED = 0"
| "add_status_code SESSION_REJECTED = 1"
| "add_status_code SESSION_TABLE_FULL = 2"
| "add_status_code SESSION_TABLE_UNAVAILABLE = 3"
| "add_status_code SESSION_ALREADY_EXISTS = 4"

datatype REQUEST_STATUS_T =
    ACCEPTED | REJECTED | REJECTED_SESSION_NONEXISTENT | REJECTED_SESSION_TABLE_FULL
  | REJECTED_SESSION_ALREADY_EXISTS | NO_CLOSED_SESSIONS | REJECTED_INTERNAL_ERROR

fun request_code :: "REQUEST_STATUS_T \<Rightarrow> u32" where
  "request_code ACCEPTED = 0"
| "request_code REJECTED = 1"
| "request_code REJECTED_SESSION_NONEXISTENT = 2"
| "request_code REJECTED_SESSION_TABLE_FULL = 3"
| "request_code REJECTED_SESSION_ALREADY_EXISTS = 4"
| "request_code NO_CLOSED_SESSIONS = 5"
| "request_code REJECTED_INTERNAL_ERROR = 6"

text \<open>Different enumerators have different values.\<close>

lemma proto_code_inject [simp]: "proto_code x = proto_code y \<longleftrightarrow> x = y"
  by (cases x; cases y) simp_all

lemma ipver_code_inject [simp]: "ipver_code x = ipver_code y \<longleftrightarrow> x = y"
  by (cases x; cases y) simp_all

lemma action_code_inject [simp]: "action_code x = action_code y \<longleftrightarrow> x = y"
  by (cases x; cases y) simp_all

lemma state_code_inject [simp]: "state_code x = state_code y \<longleftrightarrow> x = y"
  by (cases x; cases y) simp_all

lemma close_code_inject [simp]: "close_code x = close_code y \<longleftrightarrow> x = y"
  by (cases x; cases y) simp_all

lemma status_code_inject [simp]: "status_code x = status_code y \<longleftrightarrow> x = y"
  by (cases x; cases y) simp_all

lemma request_code_inject [simp]: "request_code x = request_code y \<longleftrightarrow> x = y"
  by (cases x; cases y) simp_all

subsection \<open>Constants and structs\<close>

definition SUCCESS :: u32 where
  "SUCCESS = 0"

definition FAILURE :: u32 where
  "FAILURE = -1"

definition BUFFER_MAX :: nat where
  "BUFFER_MAX = 64"

text \<open>\<open>UINT_MAX\<close> of \<open>limits.h\<close>, compared with a \<open>uint64_t\<close>: the key that asks for the first page.\<close>

definition UINT_MAX :: u64 where
  "UINT_MAX = 4294967295"

text \<open>
  \<open>struct in_addr\<close> is its 32-bit \<open>s_addr\<close>; \<open>struct in6_addr\<close> is an array of 16 bytes.
\<close>

type_synonym in_addr = u32
type_synonym in6_addr = "u8 list"

record sessionRequest_t =
  sessId :: u64
  inlif :: u32
  outlif :: u32
  srcIP :: in_addr
  srcIPV6 :: in6_addr
  dstIP :: in_addr
  dstIPV6 :: in6_addr
  srcPort :: u16
  dstPort :: u16
  proto :: u32            \<comment> \<open>\<open>PROTOCOL_ID_T\<close>\<close>
  ipver :: u32            \<comment> \<open>\<open>IP_VERSION_T\<close>\<close>
  actType :: u32          \<comment> \<open>\<open>ACTION_VALUE_T\<close>\<close>
  nextHop :: in_addr
  nextHopV6 :: in6_addr
  cacheTimeout :: u32

record addSessionErrors =
  err_sessionId :: u64
  err_errorStatus :: u32

record addSessionResponse_t =
  add_requestStatus :: u32   \<comment> \<open>\<open>REQUEST_STATUS_T\<close>\<close>
  sessionErrors :: "addSessionErrors list"
  number_errors :: u32
  add_errorStatus :: u64

record sessionResponse_t =
  rsp_sessionId :: u64
  rsp_inPackets :: u64
  rsp_outPackets :: u64
  rsp_inBytes :: u64
  rsp_outBytes :: u64
  rsp_sessionState :: u32     \<comment> \<open>\<open>SESSION_STATE_T\<close>\<close>
  rsp_sessionCloseCode :: u32 \<comment> \<open>\<open>SESSION_CLOSE_T\<close>\<close>
  rsp_requestStatus :: u32    \<comment> \<open>\<open>REQUEST_STATUS_T\<close>\<close>

record statisticsRequestArgs_t =
  stat_pageSize :: u32
  stat_page :: u32

text \<open>The arrays of a struct have the length of their type.\<close>

definition wf_sessionRequest_t :: "sessionRequest_t \<Rightarrow> bool" where
  "wf_sessionRequest_t r \<longleftrightarrow>
     length (srcIPV6 r) = 16 \<and> length (dstIPV6 r) = 16 \<and> length (nextHopV6 r) = 16"

definition wf_addSessionResponse_t :: "addSessionResponse_t \<Rightarrow> bool" where
  "wf_addSessionResponse_t r \<longleftrightarrow> length (sessionErrors r) = BUFFER_MAX"

end
