(* ===== verification/Convert.thy ===== *)
theory Convert
  imports Opof_Types
begin

text \<open>
  The messages of \<open>protos/openoffload.proto\<close> that the code exchanges, and the conversions of
  \<open>src/opof_util.cc\<close> between them and the C structs.

  A message is the record of its fields (the accessors that \<open>protoc\<close> generates read and write
  one field): 32- and 64-bit integers and enumerations are words, \<open>bytes\<close> are lists of bytes,
  repeated fields are lists. Fields that no code in \<open>src/\<close> touches (time stamps, VLANs,
  per-link actions) are left out. A message that is not set has the default of proto3.
\<close>

subsection \<open>Messages\<close>

record pb_actionParameters =
  pb_actionType :: u32
  pb_actionNextHop :: u32
  pb_actionNextHopV6 :: "u8 list"

record pb_sessionRequest =
  pb_sessionId :: u64
  pb_inLif :: u32
  pb_outLif :: u32
  pb_ipVersion :: u32
  pb_sourceIp :: u32
  pb_sourceIpV6 :: "u8 list"
  pb_sourcePort :: u32
  pb_destinationIp :: u32
  pb_destinationIpV6 :: "u8 list"
  pb_destinationPort :: u32
  pb_protocolId :: u32
  pb_action :: pb_actionParameters
  pb_cacheTimeout :: u32

record pb_sessionResponseError =
  pbe_sessionId :: u64
  pbe_errorStatus :: u32

record pb_addSessionResponse =
  pb_responseError :: "pb_sessionResponseError list"

record pb_sessionResponse =
  pbr_sessionId :: u64
  pbr_inPackets :: u64
  pbr_outPackets :: u64
  pbr_inBytes :: u64
  pbr_outBytes :: u64
  pbr_sessionState :: u32
  pbr_sessionCloseCode :: u32
  pbr_requestStatus :: u32

record pb_sessionResponses =
  pb_sessionInfo :: "pb_sessionResponse list"
  pb_nextkey :: u64

record pb_sessionRequestArgs =
  pb_pageSize :: u32
  pb_page :: u32
  pb_startSession :: u64

definition default_actionParameters :: pb_actionParameters where
  "default_actionParameters = \<lparr>pb_actionType = 0, pb_actionNextHop = 0, pb_actionNextHopV6 = []\<rparr>"

definition default_sessionRequest :: pb_sessionRequest where
  "default_sessionRequest = \<lparr>pb_sessionId = 0, pb_inLif = 0, pb_outLif = 0, pb_ipVersion = 0,
     pb_sourceIp = 0, pb_sourceIpV6 = [], pb_sourcePort = 0, pb_destinationIp = 0,
     pb_destinationIpV6 = [], pb_destinationPort = 0, pb_protocolId = 0,
     pb_action = default_actionParameters, pb_cacheTimeout = 0\<rparr>"

definition default_sessionResponse :: pb_sessionResponse where
  "default_sessionResponse = \<lparr>pbr_sessionId = 0, pbr_inPackets = 0, pbr_outPackets = 0,
     pbr_inBytes = 0, pbr_outBytes = 0, pbr_sessionState = 0, pbr_sessionCloseCode = 0,
     pbr_requestStatus = 0\<rparr>"

definition default_addSessionResponse :: pb_addSessionResponse where
  "default_addSessionResponse = \<lparr>pb_responseError = []\<rparr>"

definition default_sessionResponses :: pb_sessionResponses where
  "default_sessionResponses = \<lparr>pb_sessionInfo = [], pb_nextkey = 0\<rparr>"

definition default_sessionRequestArgs :: pb_sessionRequestArgs where
  "default_sessionRequestArgs = \<lparr>pb_pageSize = 0, pb_page = 0, pb_startSession = 0\<rparr>"

subsection \<open>Requests\<close>

text \<open>
  \<open>convertSessionRequest2cpp\<close> sets the fields of an existing message, which the client reuses
  for all requests of a stream: the address fields of the other IP version keep their values.
\<close>

definition convertSessionRequest2cpp :: "sessionRequest_t \<Rightarrow> pb_sessionRequest \<Rightarrow> pb_sessionRequest" where
  "convertSessionRequest2cpp c request =
     (let action = default_actionParameters;
          request = request\<lparr>pb_sessionId := sessId c, pb_inLif := inlif c, pb_outLif := outlif c,
            pb_ipVersion := ipver c, pb_sourcePort := ucast (srcPort c)\<rparr>;
          request = (if ipver c = ipver_code IPV6 then request\<lparr>pb_sourceIpV6 := srcIPV6 c\<rparr>
                     else request\<lparr>pb_sourceIp := srcIP c\<rparr>);
          request = (if ipver c = ipver_code IPV6 then request\<lparr>pb_destinationIpV6 := dstIPV6 c\<rparr>
                     else request\<lparr>pb_destinationIp := dstIP c\<rparr>);
          request = request\<lparr>pb_destinationPort := ucast (dstPort c), pb_protocolId := proto c\<rparr>;
          action = action\<lparr>pb_actionType := actType c\<rparr>;
          action = (if ipver c = ipver_code IPV6 then action\<lparr>pb_actionNextHopV6 := nextHopV6 c\<rparr>
                    else action\<lparr>pb_actionNextHop := nextHop c\<rparr>)
      in request\<lparr>pb_action := action, pb_cacheTimeout := cacheTimeout c\<rparr>)"

text \<open>
  \<open>char_array.assign(bytes)\<close> and \<open>memcpy(dst, &char_array[0], 16)\<close>: the first 16 bytes; the
  vector is read past its end when there are fewer. That is undefined in C++ and a fault here, although
  \<open>std::vector\<close> commonly keeps the 16 bytes it was made with, so that such a read finds what an earlier
  address left there.
\<close>

definition copy_in6 :: "u8 list \<Rightarrow> in6_addr option" where
  "copy_in6 bytes = (if length bytes < 16 then None else Some (take 16 bytes))"

definition convertSessionRequest2c :: "pb_sessionRequest \<Rightarrow> sessionRequest_t \<Rightarrow> sessionRequest_t option" where
  "convertSessionRequest2c request c = do {
     let c = c\<lparr>sessId := pb_sessionId request, inlif := pb_inLif request,
       outlif := pb_outLif request, ipver := pb_ipVersion request\<rparr>;
     c \<leftarrow> (if ipver c = ipver_code IPV6
          then do { b \<leftarrow> copy_in6 (pb_sourceIpV6 request); Some (c\<lparr>srcIPV6 := b\<rparr>) }
          else Some (c\<lparr>srcIP := pb_sourceIp request\<rparr>));
     c \<leftarrow> (if ipver c = ipver_code IPV6
          then do { b \<leftarrow> copy_in6 (pb_destinationIpV6 request); Some (c\<lparr>dstIPV6 := b\<rparr>) }
          else Some (c\<lparr>dstIP := pb_destinationIp request\<rparr>));
     let c = c\<lparr>srcPort := ucast (pb_sourcePort request), dstPort := ucast (pb_destinationPort request),
       proto := pb_protocolId request\<rparr>;
     let action = pb_action request;
     let c = c\<lparr>actType := pb_actionType action, cacheTimeout := pb_cacheTimeout request\<rparr>;
     (if ipver c = ipver_code IPV6
      then do { b \<leftarrow> copy_in6 (pb_actionNextHopV6 action); Some (c\<lparr>nextHopV6 := b\<rparr>) }
      else Some (c\<lparr>nextHop := pb_actionNextHop action\<rparr>)) }"

subsection \<open>Responses\<close>

text \<open>
  The loop of \<open>convertAddSessionResponse2c\<close> copies the errors into the array
  \<open>sessionErrors\<close> of the struct, whose length it does not check.
\<close>

fun copy_errors :: "nat \<Rightarrow> pb_sessionResponseError list \<Rightarrow> addSessionErrors list \<Rightarrow> addSessionErrors list option" where
  "copy_errors i [] errs = Some errs"
| "copy_errors i (e # es) errs = do {
     errs \<leftarrow> store errs i \<lparr>err_sessionId = pbe_sessionId e, err_errorStatus = pbe_errorStatus e\<rparr>;
     copy_errors (i + 1) es errs }"

definition convertAddSessionResponse2c ::
  "addSessionResponse_t \<Rightarrow> pb_addSessionResponse \<Rightarrow> addSessionResponse_t option" where
  "convertAddSessionResponse2c c response =
     (if 0 < length (pb_responseError response)
      then do {
        let c = c\<lparr>number_errors := of_nat (length (pb_responseError response))\<rparr>;
        errs \<leftarrow> copy_errors 0 (pb_responseError response) (sessionErrors c);
        Some (c\<lparr>sessionErrors := errs\<rparr>) }
      else Some (c\<lparr>number_errors := 0\<rparr>))"

definition convertSessionResponse2c :: "pb_sessionResponse \<Rightarrow> sessionResponse_t \<Rightarrow> sessionResponse_t" where
  "convertSessionResponse2c m c = c\<lparr>
     rsp_sessionId := pbr_sessionId m,
     rsp_requestStatus := pbr_requestStatus m,
     rsp_sessionState := pbr_sessionState m,
     rsp_sessionCloseCode := pbr_sessionCloseCode m,
     rsp_inPackets := pbr_inPackets m,
     rsp_outPackets := pbr_outPackets m,
     rsp_inBytes := pbr_inBytes m,
     rsp_outBytes := pbr_outBytes m\<rparr>"

definition convertSessionResponse2cpp :: "pb_sessionResponse \<Rightarrow> sessionResponse_t \<Rightarrow> pb_sessionResponse" where
  "convertSessionResponse2cpp m c = m\<lparr>
     pbr_sessionId := rsp_sessionId c,
     pbr_requestStatus := rsp_requestStatus c,
     pbr_sessionState := rsp_sessionState c,
     pbr_sessionCloseCode := rsp_sessionCloseCode c,
     pbr_inPackets := rsp_inPackets c,
     pbr_outPackets := rsp_outPackets c,
     pbr_inBytes := rsp_inBytes c,
     pbr_outBytes := rsp_outBytes c\<rparr>"

subsection \<open>Round trips\<close>

definition received :: "sessionRequest_t \<Rightarrow> sessionRequest_t \<Rightarrow> sessionRequest_t" where
  "received c c0 =
     (if ipver c = ipver_code IPV6
      then c\<lparr>srcIP := srcIP c0, dstIP := dstIP c0, nextHop := nextHop c0\<rparr>
      else c\<lparr>srcIPV6 := srcIPV6 c0, dstIPV6 := dstIPV6 c0, nextHopV6 := nextHopV6 c0\<rparr>)"

lemma ucast_port [simp]: "(ucast (ucast p :: u32) :: u16) = (p :: u16)"
  by (rule bit_word_eqI) (auto simp: bit_unsigned_iff)

lemma request_roundtrip:
  "wf_sessionRequest_t c \<Longrightarrow>
   convertSessionRequest2c (convertSessionRequest2cpp c m) c0 = Some (received c c0)"
  by (cases "ipver c = ipver_code IPV6")
    (auto simp: convertSessionRequest2c_def convertSessionRequest2cpp_def received_def copy_in6_def
      wf_sessionRequest_t_def Let_def)

lemma response_roundtrip: "convertSessionResponse2c (convertSessionResponse2cpp m c) c0 = c"
  by (simp add: convertSessionResponse2c_def convertSessionResponse2cpp_def)

lemma copy_errors_ok:
  "i + length es \<le> length errs \<Longrightarrow> \<exists>errs'. copy_errors i es errs = Some errs' \<and> length errs' = length errs \<and>
     take i errs' = take i errs \<and>
     take (length es) (drop i errs') = map (\<lambda>e. \<lparr>err_sessionId = pbe_sessionId e, err_errorStatus = pbe_errorStatus e\<rparr>) es \<and>
     drop (i + length es) errs' = drop (i + length es) errs"
proof (induction es arbitrary: i errs)
  case (Cons e es)
  let ?x = "\<lparr>err_sessionId = pbe_sessionId e, err_errorStatus = pbe_errorStatus e\<rparr>"
  have i: "i < length errs" "Suc i + length es \<le> length (errs[i := ?x])" using Cons.prems by simp_all
  obtain errs' where e: "copy_errors (Suc i) es (errs[i := ?x]) = Some errs'" and l: "length errs' = length (errs[i := ?x])"
    and t: "take (Suc i) errs' = take (Suc i) (errs[i := ?x])"
    and m: "take (length es) (drop (Suc i) errs') = map (\<lambda>e. \<lparr>err_sessionId = pbe_sessionId e, err_errorStatus = pbe_errorStatus e\<rparr>) es"
    and d: "drop (Suc i + length es) errs' = drop (Suc i + length es) (errs[i := ?x])"
    using Cons.IH [OF i(2)] by blast
  have nth: "errs' ! i = ?x" using arg_cong [OF t, of "\<lambda>xs. xs ! i"] i(1) by simp
  have "take i errs' = take i errs" using arg_cong [OF t, of "take i"] by (simp add: min_def)
  moreover have "drop i errs' = ?x # drop (Suc i) errs'" using Cons_nth_drop_Suc [of i errs'] nth i(1) l by simp
  ultimately show ?case using e l m d i(1) by simp
qed simp

lemma copy_errors_overrun: "i \<le> length errs \<Longrightarrow> length errs < i + length es \<Longrightarrow> copy_errors i es errs = None"
proof (induction es arbitrary: i errs)
  case (Cons e es)
  then show ?case by (cases "i < length errs") (simp_all add: store_def)
qed simp

subsection \<open>Properties\<close>

text \<open>
  C31: a request that the client converts to a message and the server converts
  back is the same request in all fields but the addresses of the other IP version, which
  keep what was in the server's struct before; what was in the client's reused message before
  does not matter.
\<close>

theorem sessionRequest_roundtrip:
  assumes "wf_sessionRequest_t c"
  shows "convertSessionRequest2c (convertSessionRequest2cpp c m) c0 = Some (received c c0)"
  using assms by (rule request_roundtrip)

text \<open>
  A session response survives the conversion to a message and back in all
  fields, whatever the message and the struct held before.
\<close>

theorem sessionResponse_roundtrip:
  "convertSessionResponse2c (convertSessionResponse2cpp m c) c0 = c"
  by (rule response_roundtrip)

text \<open>
  C35: the errors of an add response are copied in order when there are at
  most \<open>BUFFER_MAX\<close>; with more, the copy writes past the array of the struct.
\<close>

theorem addSessionResponse_bounds:
  assumes "wf_addSessionResponse_t c"
  shows "if length (pb_responseError m) \<le> BUFFER_MAX
    then \<exists>c'. convertAddSessionResponse2c c m = Some c' \<and> wf_addSessionResponse_t c' \<and>
      number_errors c' = of_nat (length (pb_responseError m)) \<and>
      take (length (pb_responseError m)) (sessionErrors c') =
        map (\<lambda>e. \<lparr>err_sessionId = pbe_sessionId e, err_errorStatus = pbe_errorStatus e\<rparr>) (pb_responseError m)
    else convertAddSessionResponse2c c m = None"
proof (cases "length (pb_responseError m) \<le> BUFFER_MAX")
  case True
  then obtain errs where "copy_errors 0 (pb_responseError m) (sessionErrors c) = Some errs"
    "length errs = length (sessionErrors c)"
    "take (length (pb_responseError m)) errs =
      map (\<lambda>e. \<lparr>err_sessionId = pbe_sessionId e, err_errorStatus = pbe_errorStatus e\<rparr>) (pb_responseError m)"
    using copy_errors_ok [of 0 "pb_responseError m" "sessionErrors c"] assms
    by (auto simp: wf_addSessionResponse_t_def)
  then show ?thesis
    using True assms by (auto simp: convertAddSessionResponse2c_def wf_addSessionResponse_t_def)
next
  case False
  then show ?thesis
    using copy_errors_overrun [of 0 "sessionErrors c" "pb_responseError m"] assms
    by (auto simp: convertAddSessionResponse2c_def wf_addSessionResponse_t_def)
qed

definition ex_request_t :: sessionRequest_t where
  "ex_request_t = \<lparr>sessId = 9, inlif = 1, outlif = 2, srcIP = 7, srcIPV6 = replicate 16 3,
     dstIP = 8, dstIPV6 = replicate 16 4, srcPort = 80, dstPort = 45678,
     proto = proto_code TCP, ipver = ipver_code IPV6, actType = action_code FORWARD,
     nextHop = 5, nextHopV6 = replicate 16 6, cacheTimeout = 15\<rparr>"

lemma sessionRequest_roundtrip_witness:
  "convertSessionRequest2c (convertSessionRequest2cpp ex_request_t default_sessionRequest)
     (ex_request_t\<lparr>srcIP := 1, srcIPV6 := []\<rparr>) = Some (ex_request_t\<lparr>srcIP := 1\<rparr>)"
  by (subst sessionRequest_roundtrip) (simp_all add: wf_sessionRequest_t_def received_def ex_request_t_def)

lemma addSessionResponse_bounds_witness:
  "\<exists>c'. convertAddSessionResponse2c
      \<lparr>add_requestStatus = 0, sessionErrors = replicate 64 \<lparr>err_sessionId = 0, err_errorStatus = 0\<rparr>,
       number_errors = 0, add_errorStatus = 0\<rparr>
      \<lparr>pb_responseError = [\<lparr>pbe_sessionId = 7, pbe_errorStatus = 6\<rparr>]\<rparr> = Some c' \<and> number_errors c' = 1"
  using addSessionResponse_bounds [of "\<lparr>add_requestStatus = 0,
      sessionErrors = replicate 64 \<lparr>err_sessionId = 0, err_errorStatus = 0\<rparr>, number_errors = 0, add_errorStatus = 0\<rparr>"
      "\<lparr>pb_responseError = [\<lparr>pbe_sessionId = 7, pbe_errorStatus = 6\<rparr>]\<rparr>"]
  by (auto simp: wf_addSessionResponse_t_def BUFFER_MAX_def)

end
