(* ===== verification/Session_Server.thy ===== *)
theory Session_Server
  imports Convert
begin

text \<open>
  The gRPC service of the server, \<open>src/opof_session_server.cc\<close>: one handler per call of the
  protocol. A handler takes the function of the C server interface it calls
  (\<open>include/opof_serverlib.h\<close>, implemented by the offload device) as its first argument, with
  the state \<open>'s\<close> of the device passed through. \<open>None\<close> is a fault.

  What a C++ variable holds before it is first assigned is an argument of the handler.
  \<open>context->IsCancelled()\<close> is a boolean, or a sequence of booleans where it is called
  repeatedly. A stream of messages to read is a list, and what is written to a stream is a list.
\<close>

subsection \<open>Status of a call\<close>

text \<open>\<open>grpc::Status\<close>: a code, with the values of \<open>SESSION_STATUS_T\<close>, and a message.\<close>

record Status =
  error_code :: SESSION_STATUS_T
  error_message :: string

definition Status_OK :: Status where
  "Status_OK = \<lparr>error_code = OK, error_message = ''''\<rparr>"

definition Status_cancelled :: Status where
  "Status_cancelled =
     \<lparr>error_code = CANCELLED, error_message = ''Deadline exceeded or Client cancelled, abandoning.''\<rparr>"

subsection \<open>addSession\<close>

text \<open>The loop over the stream of requests; \<open>i\<close> counts the calls of \<open>IsCancelled\<close>.\<close>

fun addSession_loop ::
  "(sessionRequest_t \<Rightarrow> 's \<Rightarrow> (u32 \<times> 's) option) \<Rightarrow> (nat \<Rightarrow> bool) \<Rightarrow> nat \<Rightarrow> pb_sessionRequest list \<Rightarrow>
   sessionRequest_t \<Rightarrow> pb_addSessionResponse \<Rightarrow> 's \<Rightarrow> (Status \<times> pb_addSessionResponse \<times> 's) option" where
  "addSession_loop add_server cancelled i [] request_c response s = Some (Status_OK, response, s)"
| "addSession_loop add_server cancelled i (request # reader) request_c response s = do {
     request_c \<leftarrow> convertSessionRequest2c request request_c;
     if cancelled i then Some (Status_cancelled, response, s)
     else do {
       (status, s) \<leftarrow> add_server request_c s;
       let response =
         (if status \<noteq> status_code OK
          then response\<lparr>pb_responseError := pb_responseError response @
                 [\<lparr>pbe_sessionId = pb_sessionId request, pbe_errorStatus = status\<rparr>]\<rparr>
          else response);
       addSession_loop add_server cancelled (i + 1) reader request_c response s } }"

definition addSession ::
  "(sessionRequest_t \<Rightarrow> 's \<Rightarrow> (u32 \<times> 's) option) \<Rightarrow> (nat \<Rightarrow> bool) \<Rightarrow> sessionRequest_t \<Rightarrow>
   pb_sessionRequest list \<Rightarrow> pb_addSessionResponse \<Rightarrow> 's \<Rightarrow>
   (Status \<times> pb_addSessionResponse \<times> 's) option" where
  "addSession add_server cancelled request_c reader response s =
     addSession_loop add_server cancelled 0 reader request_c (response\<lparr>pb_responseError := []\<rparr>) s"

subsection \<open>getSession and deleteSession\<close>

definition getSession ::
  "(u64 \<Rightarrow> sessionResponse_t \<Rightarrow> 's \<Rightarrow> (u32 \<times> sessionResponse_t \<times> 's) option) \<Rightarrow> bool \<Rightarrow> sessionResponse_t \<Rightarrow>
   u64 \<Rightarrow> pb_sessionResponse \<Rightarrow> 's \<Rightarrow> (Status \<times> pb_sessionResponse \<times> 's) option" where
  "getSession get_server cancelled response_c sid response s =
     (if cancelled then Some (Status_cancelled, response, s)
      else do {
        (status, response_c, s) \<leftarrow> get_server sid response_c s;
        if status = status_code OK
        then Some (Status_OK, convertSessionResponse2cpp response response_c, s)
        else if status = status_code NOT_FOUND
        then Some (\<lparr>error_code = NOT_FOUND, error_message = ''Get Session Not Found''\<rparr>, response, s)
        else Some (\<lparr>error_code = UNKNOWN, error_message = ''Internal Open Offload Server Error''\<rparr>, response, s) })"

definition deleteSession ::
  "(u64 \<Rightarrow> sessionResponse_t \<Rightarrow> 's \<Rightarrow> (u32 \<times> sessionResponse_t \<times> 's) option) \<Rightarrow> bool \<Rightarrow> sessionResponse_t \<Rightarrow>
   u64 \<Rightarrow> pb_sessionResponse \<Rightarrow> 's \<Rightarrow> (Status \<times> pb_sessionResponse \<times> 's) option" where
  "deleteSession del_server cancelled response_c sid response s =
     (if cancelled then Some (Status_cancelled, response, s)
      else do {
        (status, response_c, s) \<leftarrow> del_server sid response_c s;
        if status = status_code OK
        then Some (Status_OK, convertSessionResponse2cpp response response_c, s)
        else if status = status_code NOT_FOUND
        then Some (\<lparr>error_code = NOT_FOUND, error_message = ''Delete Session Not Found''\<rparr>, response, s)
        else Some (\<lparr>error_code = UNKNOWN, error_message = ''Internal Open Offload Server Error''\<rparr>, response, s) })"

subsection \<open>getAllSessions\<close>

text \<open>The message added for one element of the array \<open>allSessions\<close>.\<close>

definition sessionInfo_of :: "sessionResponse_t \<Rightarrow> pb_sessionResponse" where
  "sessionInfo_of c = default_sessionResponse\<lparr>
     pbr_sessionId := rsp_sessionId c,
     pbr_sessionState := rsp_sessionState c,
     pbr_inPackets := rsp_inPackets c,
     pbr_outPackets := rsp_outPackets c,
     pbr_inBytes := rsp_inBytes c,
     pbr_outBytes := rsp_outBytes c,
     pbr_sessionCloseCode := rsp_sessionCloseCode c,
     pbr_requestStatus := rsp_requestStatus c\<rparr>"

fun add_sessionInfos :: "sessionResponse_t list \<Rightarrow> nat list \<Rightarrow> pb_sessionResponses \<Rightarrow> pb_sessionResponses option" where
  "add_sessionInfos allSessions [] responses = Some responses"
| "add_sessionInfos allSessions (i # is) responses = do {
     c \<leftarrow> load allSessions i;
     add_sessionInfos allSessions is
       (responses\<lparr>pb_sessionInfo := pb_sessionInfo responses @ [sessionInfo_of c]\<rparr>) }"

text \<open>
  The page size of the request is not read: the page has \<open>BUFFER_MAX\<close> elements, in structs
  allocated for the call with the contents \<open>uninit\<close>.
\<close>

definition getAllSessions ::
  "(int \<Rightarrow> u64 \<Rightarrow> int \<Rightarrow> sessionResponse_t list \<Rightarrow> 's \<Rightarrow> (nat \<times> u64 \<times> sessionResponse_t list \<times> 's) option) \<Rightarrow>
   bool \<Rightarrow> (nat \<Rightarrow> sessionResponse_t) \<Rightarrow> pb_sessionRequestArgs \<Rightarrow> pb_sessionResponses \<Rightarrow> 's \<Rightarrow>
   (Status \<times> pb_sessionResponses \<times> 's) option" where
  "getAllSessions all_server cancelled uninit request responses s =
     (if cancelled then Some (Status_cancelled, responses, s)
      else do {
        let nresponses = BUFFER_MAX;
        let pageCount = 0;
        let start_session = pb_startSession request;
        let allSessions = map uninit [0..<nresponses];
        (sessionCount, start_session, allSessions, s) \<leftarrow>
          all_server (int nresponses) start_session pageCount allSessions s;
        let responses = responses\<lparr>pb_nextkey := start_session\<rparr>;
        responses \<leftarrow> add_sessionInfos allSessions [0..<sessionCount] responses;
        Some (Status_OK, responses, s) })"

subsection \<open>getClosedSessions\<close>

text \<open>
  The loop that writes the responses: the message \<open>response\<close> is reused, and all of its fields
  are set each time. The request status is set to \<open>_ACCEPTED\<close>.
\<close>

definition closed_message :: "sessionResponse_t \<Rightarrow> pb_sessionResponse \<Rightarrow> pb_sessionResponse" where
  "closed_message c response = response\<lparr>
     pbr_sessionId := rsp_sessionId c,
     pbr_sessionState := rsp_sessionState c,
     pbr_inPackets := rsp_inPackets c,
     pbr_outPackets := rsp_outPackets c,
     pbr_inBytes := rsp_inBytes c,
     pbr_outBytes := rsp_outBytes c,
     pbr_sessionCloseCode := rsp_sessionCloseCode c,
     pbr_requestStatus := request_code ACCEPTED\<rparr>"

fun write_closed :: "sessionResponse_t list \<Rightarrow> nat list \<Rightarrow> pb_sessionResponse \<Rightarrow> pb_sessionResponse list option" where
  "write_closed closedSessions [] response = Some []"
| "write_closed closedSessions (i # is) response = do {
     c \<leftarrow> load closedSessions i;
     let response = closed_message c response;
     written \<leftarrow> write_closed closedSessions is response;
     Some (response # written) }"

definition getClosedSessions ::
  "(statisticsRequestArgs_t \<Rightarrow> sessionResponse_t list \<Rightarrow> 's \<Rightarrow> (nat \<times> sessionResponse_t list \<times> 's) option) \<Rightarrow>
   bool \<Rightarrow> (nat \<Rightarrow> sessionResponse_t) \<Rightarrow> u32 \<Rightarrow> pb_sessionRequestArgs \<Rightarrow> 's \<Rightarrow>
   (Status \<times> pb_sessionResponse list \<times> 's) option" where
  "getClosedSessions closed_server cancelled uninit page request s =
     (if cancelled then Some (Status_cancelled, [], s)
      else do {
        let request_c = \<lparr>stat_pageSize = pb_pageSize request, stat_page = page\<rparr>;
        let closedSessions = map uninit [0..<BUFFER_MAX];
        (sessionCount, closedSessions, s) \<leftarrow> closed_server request_c closedSessions s;
        if sessionCount = 0
        then Some (\<lparr>error_code = NOT_FOUND, error_message = ''No Closed Sessions''\<rparr>, [], s)
        else do {
          written \<leftarrow> write_closed closedSessions [0..<sessionCount] default_sessionResponse;
          Some (Status_OK, written, s) } })"

end
