(* ===== verification/C_Strings.thy ===== *)
theory C_Strings
  imports Prelude
begin

text \<open>
  What the program uses of the C library for strings: buffers of characters and the strings in
  them, \<open>strncpy\<close>, \<open>snprintf\<close> into a buffer, \<open>strtoul\<close>, and the conversions \<open>%d\<close>, \<open>%lu\<close> and
  \<open>std::to_string\<close>. A buffer is the list of its bytes, of which none need have been assigned.
\<close>

subsection \<open>Buffers\<close>

definition NUL :: char where
  "NUL = CHR 0x00"

definition NL :: string where
  "NL = [CHR 0x0A]"

definition TAB :: string where
  "TAB = [CHR 0x09]"

text \<open>The string that starts at the first byte; a buffer without a NUL is read past its end.\<close>

definition c_string :: "char list \<Rightarrow> string option" where
  "c_string buf = (if NUL \<in> set buf then Some (takeWhile (\<lambda>c. c \<noteq> NUL) buf) else None)"

definition write_chars :: "char list \<Rightarrow> nat \<Rightarrow> string \<Rightarrow> char list option" where
  "write_chars buf i s = (if i + length s \<le> length buf then Some (take i buf @ s @ drop (i + length s) buf) else None)"

text \<open>\<open>strncpy\<close> writes exactly \<open>n\<close> bytes: the string, without a NUL when it is too long, or filled up with NULs.\<close>

definition strncpy :: "char list \<Rightarrow> string \<Rightarrow> nat \<Rightarrow> char list option" where
  "strncpy dst src n = write_chars dst 0 (take n (src @ replicate n NUL))"

text \<open>\<open>strcpy\<close> of a string, and \<open>snprintf(buf + i, n, ...)\<close> of the text \<open>s\<close>, for a size \<open>n > 0\<close>.\<close>

definition strcpy :: "char list \<Rightarrow> string \<Rightarrow> char list option" where
  "strcpy dst src = write_chars dst 0 (src @ [NUL])"

definition snprintf_at :: "char list \<Rightarrow> nat \<Rightarrow> nat \<Rightarrow> string \<Rightarrow> char list option" where
  "snprintf_at buf i n s = write_chars buf i (take (n - 1) s @ [NUL])"

text \<open>A string has no NUL in it.\<close>

definition is_string :: "string \<Rightarrow> bool" where
  "is_string s \<longleftrightarrow> NUL \<notin> set s"

lemma is_string_simps [simp]:
  "is_string []" "is_string (c # s) \<longleftrightarrow> c \<noteq> NUL \<and> is_string s"
  "is_string (s @ t) \<longleftrightarrow> is_string s \<and> is_string t"
  by (auto simp: is_string_def)

lemma is_string_take: "is_string s \<Longrightarrow> is_string (take n s)"
  by (auto simp: is_string_def dest: in_set_takeD)

lemma c_string_append [simp]: "is_string s \<Longrightarrow> c_string (s @ NUL # rest) = Some s"
  by (auto simp: c_string_def is_string_def takeWhile_append)

lemma c_string_is_string: "c_string buf = Some s \<Longrightarrow> is_string s"
  by (auto simp: c_string_def is_string_def split: if_splits dest: set_takeWhileD)

lemma c_stringE:
  assumes "c_string buf = Some s"
  obtains rest where "buf = s @ NUL # rest" and "is_string s"
proof -
  have "NUL \<in> set buf" and s: "s = takeWhile (\<lambda>c. c \<noteq> NUL) buf"
    using assms by (auto simp: c_string_def split: if_splits)
  then have ne: "dropWhile (\<lambda>c. c \<noteq> NUL) buf \<noteq> []" by (simp add: dropWhile_eq_Nil_conv)
  then have "hd (dropWhile (\<lambda>c. c \<noteq> NUL) buf) = NUL" using hd_dropWhile by blast
  then have "buf = s @ NUL # tl (dropWhile (\<lambda>c. c \<noteq> NUL) buf)"
    using ne s by (metis list.collapse takeWhile_dropWhile_id)
  then show thesis using that c_string_is_string [OF assms] by blast
qed

lemma write_chars_length: "write_chars buf i s = Some buf' \<Longrightarrow> length buf' = length buf"
  by (auto simp: write_chars_def split: if_splits)

text \<open>A string shorter than the bound is copied with its NUL; a longer one fills the first \<open>n\<close> bytes.\<close>

lemma strncpy_fits:
  assumes "is_string s" and "length s < n" and "n \<le> length dst"
  shows "\<exists>dst'. strncpy dst s n = Some dst' \<and> c_string dst' = Some s \<and> length dst' = length dst"
proof -
  have "take n (s @ replicate n NUL) = s @ replicate (n - length s) NUL"
    using assms(2) by (simp add: min_def)
  moreover have "replicate (n - length s) NUL = NUL # replicate (n - length s - 1) NUL"
    using assms(2) by (cases "n - length s") auto
  ultimately show ?thesis using assms by (simp add: strncpy_def write_chars_def)
qed

lemma strncpy_long:
  assumes "n \<le> length s" and "n \<le> length dst"
  shows "strncpy dst s n = Some (take n s @ drop n dst)"
  using assms by (simp add: strncpy_def write_chars_def)

subsection \<open>Numbers\<close>

text \<open>The decimal digits of a number, as \<open>std::to_string\<close> and \<open>%lu\<close> write them.\<close>

fun decimal :: "nat \<Rightarrow> string" where
  "decimal n = (if n < 10 then [char_of (48 + n)] else decimal (n div 10) @ [char_of (48 + n mod 10)])"

declare decimal.simps [simp del]

definition show_int :: "int \<Rightarrow> string" where
  "show_int i = (if i < 0 then ''-'' @ decimal (nat (- i)) else decimal (nat i))"

text \<open>A field of at least \<open>w\<close> characters, as in \<open>%12lu\<close>.\<close>

definition pad :: "nat \<Rightarrow> string \<Rightarrow> string" where
  "pad w s = replicate (w - length s) CHR '' '' @ s"

definition is_digit :: "char \<Rightarrow> bool" where
  "is_digit c \<longleftrightarrow> 48 \<le> (of_char c :: nat) \<and> (of_char c :: nat) \<le> 57"

definition is_space :: "char \<Rightarrow> bool" where
  "is_space c \<longleftrightarrow> (of_char c :: nat) = 32 \<or> 9 \<le> (of_char c :: nat) \<and> (of_char c :: nat) \<le> 13"

definition digits_value :: "string \<Rightarrow> nat" where
  "digits_value ds = foldl (\<lambda>n c. 10 * n + (of_char c - 48)) 0 ds"

text \<open>
  \<open>strtoul(s, &end, 10)\<close>: leading white space, a sign, digits; a value that does not fit is
  \<open>ULONG_MAX\<close>, and a minus sign negates modulo \<open>2^64\<close>.
\<close>

definition strtoul :: "string \<Rightarrow> u64" where
  "strtoul s =
     (let s = dropWhile is_space s;
          (neg, s) = (case s of c # t \<Rightarrow> if c = CHR ''-'' then (True, t) else if c = CHR ''+'' then (False, t) else (False, s)
                      | [] \<Rightarrow> (False, s));
          v = digits_value (takeWhile is_digit s)
      in if 2 ^ 64 \<le> v then - 1 else if neg then - of_nat v else of_nat v)"

lemma digits_value_append: "digits_value (ds @ [c]) = 10 * digits_value ds + (of_char c - 48)"
  by (simp add: digits_value_def)

lemma of_char_digit: "n < 10 \<Longrightarrow> (of_char (char_of (48 + n)) :: nat) = 48 + n"
  by simp

lemma decimal_digits: "(\<forall>c\<in>set (decimal n). is_digit c) \<and> decimal n \<noteq> [] \<and> digits_value (decimal n) = n"
proof (induction n rule: decimal.induct)
  case (1 n)
  show ?case
  proof (cases "n < 10")
    case True
    then show ?thesis using of_char_digit [of n]
      by (subst (1 2 3) decimal.simps) (simp add: is_digit_def digits_value_def)
  next
    case False
    have d: "n mod 10 < 10" by simp
    show ?thesis using False 1 of_char_digit [OF d]
      by (subst (1 2 3) decimal.simps) (simp add: is_digit_def digits_value_append)
  qed
qed

lemma digit_not_special: "is_digit c \<Longrightarrow> \<not> is_space c \<and> c \<noteq> CHR ''-'' \<and> c \<noteq> CHR ''+'' \<and> c \<noteq> NUL"
  by (auto simp: is_digit_def is_space_def NUL_def)

lemma decimal_string: "is_string (decimal n)"
  using decimal_digits [of n] digit_not_special unfolding is_string_def by blast

text \<open>Reading back a number that was written.\<close>

lemma strtoul_decimal:
  assumes "n < 2 ^ 64"
  shows "strtoul (decimal n) = of_nat n"
proof -
  obtain c ds where s: "decimal n = c # ds" using decimal_digits [of n] by (cases "decimal n") auto
  have c: "\<not> is_space c" "c \<noteq> CHR ''-''" "c \<noteq> CHR ''+''"
    using decimal_digits [of n] digit_not_special [of c] unfolding s by auto
  have tw: "takeWhile is_digit ds = ds" using decimal_digits [of n] unfolding s by (simp add: takeWhile_eq_all_conv)
  show ?thesis
    using c assms decimal_digits [of n] unfolding strtoul_def s by (simp add: Let_def tw)
qed

end
