(* ===== verification/Session_Client.thy ===== *)
theory Session_Client
  imports Session_Server C_Strings
begin

text \<open>
  The client library: the class \<open>SessionTableClient\<close> of \<open>src/opof_session_client.cc\<close> and its C
  wrappers in \<open>src/opof_clientlib.cc\<close>. The gRPC stub, generated code, is a parameter: a record of
  the functions that perform the calls, over a state \<open>'w\<close> of the world behind the connection.
  Each takes the deadline of the call (in milliseconds from now) first; a streamed request is
  the list of the messages written, a streamed response the list of the messages read.
\<close>

record 'w stub =
  stub_addSession :: "u32 \<Rightarrow> pb_sessionRequest list \<Rightarrow> 'w \<Rightarrow> (Status \<times> pb_addSessionResponse \<times> 'w) option"
  stub_getSession :: "u32 \<Rightarrow> u64 \<Rightarrow> 'w \<Rightarrow> (Status \<times> pb_sessionResponse \<times> 'w) option"
  stub_deleteSession :: "u32 \<Rightarrow> u64 \<Rightarrow> 'w \<Rightarrow> (Status \<times> pb_sessionResponse \<times> 'w) option"
  stub_getClosedSessions :: "u32 \<Rightarrow> pb_sessionRequestArgs \<Rightarrow> 'w \<Rightarrow> (Status \<times> pb_sessionResponse list \<times> 'w) option"
  stub_getAllSessions :: "u32 \<Rightarrow> pb_sessionRequestArgs \<Rightarrow> 'w \<Rightarrow> (Status \<times> pb_sessionResponses \<times> 'w) option"

text \<open>The state of the client side: the global deadline and the world behind the stub.\<close>

record 'w client =
  g_deadline :: u32
  world :: 'w

definition initial_deadline :: u32 where
  "initial_deadline = 100"

definition opof_get_deadline :: "'w client \<Rightarrow> u32" where
  "opof_get_deadline st = g_deadline st"

definition opof_set_deadline :: "u32 \<Rightarrow> 'w client \<Rightarrow> u32 \<times> 'w client" where
  "opof_set_deadline deadline st = (let st = st\<lparr>g_deadline := deadline\<rparr> in (g_deadline st, st))"

subsection \<open>SessionTableClient\<close>

text \<open>
  The loop of \<open>addSessionClient\<close> over the indices of the requests. One message \<open>request\<close> is set
  and written again and again.
\<close>

fun write_requests :: "sessionRequest_t list \<Rightarrow> nat list \<Rightarrow> pb_sessionRequest \<Rightarrow> pb_sessionRequest list option" where
  "write_requests s [] request = Some []"
| "write_requests s (i # is) request = do {
     request_c \<leftarrow> load s i;
     let request = convertSessionRequest2cpp request_c request;
     written \<leftarrow> write_requests s is request;
     Some (request # written) }"

definition addSessionClient ::
  "'w stub \<Rightarrow> int \<Rightarrow> sessionRequest_t list \<Rightarrow> addSessionResponse_t \<Rightarrow> 'w client \<Rightarrow>
   (u32 \<times> addSessionResponse_t \<times> 'w client) option" where
  "addSessionClient stub sz s resp st = do {
     written \<leftarrow> write_requests s [0..<nat sz] default_sessionRequest;
     (status, response, w) \<leftarrow> stub_addSession stub (opof_get_deadline st) written (world st);
     resp \<leftarrow> convertAddSessionResponse2c resp response;
     Some (status_code (error_code status), resp, st\<lparr>world := w\<rparr>) }"

text \<open>
  \<open>sid.set_sessionid(sessionid)\<close> converts the \<open>int\<close> argument to 64 bits with its sign.
\<close>

definition getSessionClient ::
  "'w stub \<Rightarrow> 32 word \<Rightarrow> sessionResponse_t \<Rightarrow> 'w client \<Rightarrow> (u32 \<times> sessionResponse_t \<times> 'w client) option" where
  "getSessionClient stub sessionid resp st = do {
     let sid = (scast sessionid :: u64);
     (status, response, w) \<leftarrow> stub_getSession stub (opof_get_deadline st) sid (world st);
     let resp = convertSessionResponse2c response resp;
     Some (status_code (error_code status), resp, st\<lparr>world := w\<rparr>) }"

definition deleteSessionClient ::
  "'w stub \<Rightarrow> 32 word \<Rightarrow> sessionResponse_t \<Rightarrow> 'w client \<Rightarrow> (u32 \<times> sessionResponse_t \<times> 'w client) option" where
  "deleteSessionClient stub sessionid resp st = do {
     let sid = (scast sessionid :: u64);
     (status, response, w) \<leftarrow> stub_deleteSession stub (opof_get_deadline st) sid (world st);
     let resp = convertSessionResponse2c response resp;
     Some (status_code (error_code status), resp, st\<lparr>world := w\<rparr>) }"

text \<open>
  The loop that reads the stream of closed sessions: it stops at the end of the stream only, so
  the array has to be large enough.
\<close>

fun read_closed :: "pb_sessionResponse list \<Rightarrow> nat \<Rightarrow> sessionResponse_t list \<Rightarrow> (nat \<times> sessionResponse_t list) option" where
  "read_closed [] sessionCount responses = Some (sessionCount, responses)"
| "read_closed (m # ms) sessionCount responses = do {
     c \<leftarrow> load responses sessionCount;
     responses \<leftarrow> store responses sessionCount (convertSessionResponse2c m c);
     read_closed ms (sessionCount + 1) responses }"

definition getClosedSessions_client ::
  "'w stub \<Rightarrow> statisticsRequestArgs_t \<Rightarrow> sessionResponse_t list \<Rightarrow> 'w client \<Rightarrow>
   (u32 \<times> nat \<times> sessionResponse_t list \<times> 'w client) option" where
  "getClosedSessions_client stub args responses st = do {
     let request = default_sessionRequestArgs\<lparr>pb_pageSize := stat_pageSize args\<rparr>;
     (status, ms, w) \<leftarrow> stub_getClosedSessions stub (opof_get_deadline st) request (world st);
     (sessionCount, responses) \<leftarrow> read_closed ms 0 responses;
     Some (status_code (error_code status), sessionCount, responses, st\<lparr>world := w\<rparr>) }"

fun read_infos :: "pb_sessionResponse list \<Rightarrow> nat list \<Rightarrow> sessionResponse_t list \<Rightarrow> sessionResponse_t list option" where
  "read_infos ms [] responses = Some responses"
| "read_infos ms (i # is) responses = do {
     m \<leftarrow> load ms i;
     c \<leftarrow> load responses i;
     responses \<leftarrow> store responses i (convertSessionResponse2c m c);
     read_infos ms is responses }"

text \<open>
  \<open>getAllSessions\<close> returns the status, the next key, the number of sessions and the array. The
  number is written to \<open>session_count\<close>, for which the wrapper passes \<open>sessionCount\<close> twice.
\<close>

definition getAllSessions_client ::
  "'w stub \<Rightarrow> int \<Rightarrow> u64 \<Rightarrow> sessionResponse_t list \<Rightarrow> 'w client \<Rightarrow>
   (u32 \<times> u64 \<times> nat \<times> sessionResponse_t list \<times> 'w client) option" where
  "getAllSessions_client stub pageSize session_start_id responses st = do {
     let request = default_sessionRequestArgs\<lparr>pb_pageSize := of_int pageSize,
       pb_startSession := session_start_id\<rparr>;
     (status, response, w) \<leftarrow> stub_getAllSessions stub (opof_get_deadline st) request (world st);
     let array_size = length (pb_sessionInfo response);
     let session_start_id = pb_nextkey response;
     responses \<leftarrow> read_infos (pb_sessionInfo response) [0..<array_size] responses;
     Some (status_code (error_code status), session_start_id, array_size, responses, st\<lparr>world := w\<rparr>) }"

subsection \<open>The C interface\<close>

record 'w sessionTable_t =
  obj :: "'w stub"

text \<open>
  \<open>new_client\<close> stands for creating the channel to an address, with TLS when it is given a
  certificate, and the client object on it; without TLS (\<open>ssl\<close> false, the macro \<open>SSL\<close> not
  defined) the certificate is not used.
\<close>

definition opof_create_sessionTable ::
  "(string \<Rightarrow> string option \<Rightarrow> 'w stub) \<Rightarrow> bool \<Rightarrow> string \<Rightarrow> u32 \<Rightarrow> string \<Rightarrow> 'w sessionTable_t" where
  "opof_create_sessionTable new_client ssl host port public_key =
     (let address = host @ '':'' @ decimal (unat port)
      in \<lparr>obj = new_client address (if ssl then Some public_key else None)\<rparr>)"

definition opof_add_session ::
  "int \<Rightarrow> 'w sessionTable_t \<Rightarrow> sessionRequest_t list \<Rightarrow> addSessionResponse_t \<Rightarrow> 'w client \<Rightarrow>
   (u32 \<times> addSessionResponse_t \<times> 'w client) option" where
  "opof_add_session sz sessionHandle req resp st = addSessionClient (obj sessionHandle) sz req resp st"

text \<open>The session id, an \<open>unsigned long\<close>, is passed to an \<open>int\<close> parameter.\<close>

definition opof_get_session ::
  "'w sessionTable_t \<Rightarrow> u64 \<Rightarrow> sessionResponse_t \<Rightarrow> 'w client \<Rightarrow> (u32 \<times> sessionResponse_t \<times> 'w client) option" where
  "opof_get_session sessionHandle session resp st =
     getSessionClient (obj sessionHandle) (ucast session) resp st"

definition opof_del_session ::
  "'w sessionTable_t \<Rightarrow> u64 \<Rightarrow> sessionResponse_t \<Rightarrow> 'w client \<Rightarrow> (u32 \<times> sessionResponse_t \<times> 'w client) option" where
  "opof_del_session sessionHandle sid resp st =
     deleteSessionClient (obj sessionHandle) (ucast sid) resp st"

record 'w streamArgs_t =
  handle :: "'w sessionTable_t"
  str_pageSize :: u32

definition opof_get_closed_sessions ::
  "'w streamArgs_t \<Rightarrow> sessionResponse_t list \<Rightarrow> 'w client \<Rightarrow>
   (u32 \<times> nat \<times> sessionResponse_t list \<times> 'w client) option" where
  "opof_get_closed_sessions args responses st =
     (let sessionArgs = \<lparr>stat_pageSize = str_pageSize args, stat_page = 0\<rparr>;
          sessionHandle = handle args
      in getClosedSessions_client (obj sessionHandle) sessionArgs responses st)"

definition opof_get_all_sessions ::
  "'w sessionTable_t \<Rightarrow> u64 \<Rightarrow> int \<Rightarrow> sessionResponse_t list \<Rightarrow> 'w client \<Rightarrow>
   (u32 \<times> u64 \<times> nat \<times> sessionResponse_t list \<times> 'w client) option" where
  "opof_get_all_sessions sessionHandle startSession pageSize responses st =
     getAllSessions_client (obj sessionHandle) pageSize startSession responses st"

end
