(* ===== verification/Inet.thy ===== *)
theory Inet
  imports C_Strings Opof_Types
begin

text \<open>
  What the program uses of \<open>arpa/inet.h\<close>: \<open>ntohs\<close>, \<open>inet_ntop\<close> and \<open>inet_pton\<close> for both address
  families, on a little-endian machine. A \<open>struct in_addr\<close> is a 32-bit number whose first byte is
  the least significant, a \<open>struct in6_addr\<close> the list of its 16 bytes.
\<close>

unbundle bit_operations_syntax

definition ntohs :: "u16 \<Rightarrow> u16" where
  "ntohs w = push_bit 8 w OR drop_bit 8 w"

subsection \<open>Addresses of IP version 4\<close>

text \<open>The four bytes of an address, first byte first, and the address of four bytes.\<close>

definition octet :: "in_addr \<Rightarrow> nat \<Rightarrow> nat" where
  "octet a i = unat a div 256 ^ i mod 256"

definition in_addr_of :: "nat \<Rightarrow> nat \<Rightarrow> nat \<Rightarrow> nat \<Rightarrow> in_addr" where
  "in_addr_of a b c d = of_nat (a + b * 256 + c * 256 ^ 2 + d * 256 ^ 3)"

definition inet_ntop4 :: "in_addr \<Rightarrow> string" where
  "inet_ntop4 a = decimal (octet a 0) @ ''.'' @ decimal (octet a 1) @ ''.'' @ decimal (octet a 2) @ ''.'' @ decimal (octet a 3)"

text \<open>The fields of a text that a character separates; there is always at least one.\<close>

fun fields :: "char \<Rightarrow> string \<Rightarrow> string list" where
  "fields sep [] = [[]]"
| "fields sep (c # s) = (if c = sep then [] # fields sep s
     else (case fields sep s of [] \<Rightarrow> [[c]] | f # fs \<Rightarrow> (c # f) # fs))"

text \<open>A byte in decimal: digits without a leading zero, up to 255.\<close>

definition octet_of :: "string \<Rightarrow> nat option" where
  "octet_of s =
     (if s \<noteq> [] \<and> list_all is_digit s \<and> (hd s = CHR ''0'' \<longrightarrow> tl s = []) \<and> digits_value s \<le> 255
      then Some (digits_value s) else None)"

definition inet_pton4 :: "string \<Rightarrow> in_addr option" where
  "inet_pton4 s = (case map octet_of (fields CHR ''.'' s) of
     [Some a, Some b, Some c, Some d] \<Rightarrow> Some (in_addr_of a b c d) | _ \<Rightarrow> None)"

subsection \<open>Addresses of IP version 6\<close>

text \<open>The eight groups of an address, and the bytes of a list of groups.\<close>

definition in6_groups :: "in6_addr \<Rightarrow> nat list" where
  "in6_groups b = map (\<lambda>i. unat (b ! (2 * i)) * 256 + unat (b ! (2 * i + 1))) [0..<8]"

definition in6_addr_of :: "nat list \<Rightarrow> in6_addr" where
  "in6_addr_of groups = concat (map (\<lambda>g. [of_nat (g div 256), of_nat (g mod 256)]) groups)"

definition hex_digit :: "nat \<Rightarrow> char" where
  "hex_digit d = (if d < 10 then char_of (48 + d) else char_of (87 + d))"

fun hex :: "nat \<Rightarrow> string" where
  "hex n = (if n < 16 then [hex_digit n] else hex (n div 16) @ [hex_digit (n mod 16)])"

declare hex.simps [simp del]

text \<open>
  The first longest run of at least two zero groups is written as a double colon; the last two
  groups of an IPv4-compatible or IPv4-mapped address in dotted form.
\<close>

definition zero_run :: "nat list \<Rightarrow> nat \<Rightarrow> nat" where
  "zero_run gs i = length (takeWhile (\<lambda>g. g = 0) (drop i gs))"

definition best_run :: "nat list \<Rightarrow> nat" where
  "best_run gs = foldl (\<lambda>best i. if zero_run gs best < zero_run gs i then i else best) 0 [0..<8]"

definition inet_ntop6 :: "in6_addr \<Rightarrow> string" where
  "inet_ntop6 b =
     (let gs = in6_groups b;
          base = best_run gs;
          len = (if zero_run gs base < 2 then 0 else zero_run gs base);
          dotted = (base = 0 \<and> (len = 6 \<or> len = 5 \<and> gs ! 5 = 0xffff));
          last_group = (if dotted then 6 else 8);
          text = (\<lambda>i. if base \<le> i \<and> i < base + len then (if i = base then '':'' else [])
                    else (if i \<noteq> 0 then '':'' else []) @ hex (gs ! i))
      in concat (map text [0..<last_group]) @
         (if dotted then '':'' @ inet_ntop4 (in_addr_of (unat (b ! 12)) (unat (b ! 13)) (unat (b ! 14)) (unat (b ! 15))) else []) @
         (if len \<noteq> 0 \<and> base + len = 8 then '':'' else []))"

definition hex_value :: "char \<Rightarrow> nat option" where
  "hex_value c =
     (let n = of_char c
      in if 48 \<le> n \<and> n \<le> 57 then Some (n - 48)
         else if 97 \<le> n \<and> n \<le> 102 then Some (n - 87)
         else if 65 \<le> n \<and> n \<le> 70 then Some (n - 55) else None)"

text \<open>A group has one to four digits.\<close>

definition group_of :: "string \<Rightarrow> nat option" where
  "group_of s =
     (if s \<noteq> [] \<and> length s \<le> 4 \<and> list_all (\<lambda>c. hex_value c \<noteq> None) s
      then Some (foldl (\<lambda>n c. n * 16 + the (hex_value c)) 0 s) else None)"

text \<open>Groups separated by colons, of which the last may be an address in dotted form.\<close>

fun groups_of :: "string list \<Rightarrow> nat list option" where
  "groups_of [] = Some []"
| "groups_of [f] = (case group_of f of Some g \<Rightarrow> Some [g]
     | None \<Rightarrow> (case inet_pton4 f of None \<Rightarrow> None
        | Some a \<Rightarrow> Some [octet a 0 * 256 + octet a 1, octet a 2 * 256 + octet a 3]))"
| "groups_of (f # fs) = do { g \<leftarrow> group_of f; gs \<leftarrow> groups_of fs; Some (g # gs) }"

text \<open>The texts before and after the first double colon.\<close>

fun split_colons :: "string \<Rightarrow> (string \<times> string) option" where
  "split_colons (c # d # s) = (if c = CHR '':'' \<and> d = CHR '':'' then Some ([], s)
     else (case split_colons (d # s) of None \<Rightarrow> None | Some (a, b) \<Rightarrow> Some (c # a, b)))"
| "split_colons _ = None"

definition inet_pton6 :: "string \<Rightarrow> in6_addr option" where
  "inet_pton6 s =
     (let part = (\<lambda>s. if s = [] then Some [] else groups_of (fields CHR '':'' s)) in
      case split_colons s of
        None \<Rightarrow> do { gs \<leftarrow> groups_of (fields CHR '':'' s); if length gs = 8 then Some (in6_addr_of gs) else None }
      | Some (a, b) \<Rightarrow> do {
          gs \<leftarrow> (if CHR ''.'' \<in> set a then None else part a);
          hs \<leftarrow> part b;
          if length gs + length hs < 8
          then Some (in6_addr_of (gs @ replicate (8 - length gs - length hs) 0 @ hs)) else None })"

lemma inet_pton6_length: "inet_pton6 s = Some a \<Longrightarrow> length a = 16"
  by (auto simp: inet_pton6_def in6_addr_of_def length_concat comp_def sum_list_triv sum_list_replicate Let_def
    split: option.splits Option.bind_splits if_splits)

subsection \<open>Reading back an address of version 4\<close>

lemma fields_last [simp]: "sep \<notin> set s \<Longrightarrow> fields sep s = [s]"
  by (induction s) auto

lemma fields_append [simp]: "sep \<notin> set s \<Longrightarrow> fields sep (s @ sep # t) = s # fields sep t"
  by (induction s) auto

lemma decimal_no_leading_zero: "0 < n \<Longrightarrow> hd (decimal n) \<noteq> CHR ''0''"
proof (induction n rule: decimal.induct)
  case (1 n)
  show ?case
  proof (cases "n < 10")
    case True
    have "(of_char (char_of (48 + n)) :: nat) \<noteq> of_char CHR ''0''" using 1(2) of_char_digit [OF True] by simp
    then have "char_of (48 + n) \<noteq> CHR ''0''" by metis
    then show ?thesis using True by (subst decimal.simps) simp
  next
    case False
    then show ?thesis using 1 decimal_digits [of "n div 10"] by (subst decimal.simps) (simp add: hd_append)
  qed
qed

lemma decimal_not_sep: "\<not> is_digit sep \<Longrightarrow> sep \<notin> set (decimal n)"
  using decimal_digits [of n] by blast

lemma octet_of_decimal: "n \<le> 255 \<Longrightarrow> octet_of (decimal n) = Some n"
proof -
  assume n: "n \<le> 255"
  have "hd (decimal n) = CHR ''0'' \<longrightarrow> tl (decimal n) = []"
    using decimal_no_leading_zero [of n] by (cases "n = 0") (simp_all add: decimal.simps [of 0])
  then show ?thesis using n decimal_digits [of n] by (simp add: octet_of_def list_all_iff)
qed

lemma in_addr_of_octets: "in_addr_of (octet a 0) (octet a 1) (octet a 2) (octet a 3) = a"
proof -
  define n where "n = unat a"
  define p where "p = n div 256"
  define q where "q = p div 256"
  define r where "r = q div 256"
  have "n < 2 ^ 32" unfolding n_def using unsigned_less [of a] by simp
  then have r: "r < 256" unfolding r_def q_def p_def by (simp add: div_less_iff_less_mult)
  have "n = 256 * p + n mod 256" "p = 256 * q + p mod 256" "q = 256 * r + q mod 256"
    by (simp_all add: p_def q_def r_def)
  moreover have "n div 256 ^ 2 = q" "n div 256 ^ 3 = r"
    by (simp_all add: p_def q_def r_def flip: div_mult2_eq)
  ultimately have "n mod 256 + p mod 256 * 256 + q mod 256 * 256 ^ 2 + r mod 256 * 256 ^ 3 = n" using r by simp
  then have "octet a 0 + octet a 1 * 256 + octet a 2 * 256 ^ 2 + octet a 3 * 256 ^ 3 = unat a"
    unfolding octet_def n_def [symmetric] using \<open>n div 256 ^ 2 = q\<close> \<open>n div 256 ^ 3 = r\<close> r by (simp add: p_def)
  then show ?thesis by (simp add: in_addr_of_def)
qed

text \<open>Every address of version 4 is read back from its text.\<close>

lemma inet_pton4_ntop4 [simp]: "inet_pton4 (inet_ntop4 a) = Some a"
proof -
  have dot: "CHR ''.'' \<notin> set (decimal n)" for n
    by (rule decimal_not_sep) (simp add: is_digit_def)
  have "octet a i \<le> 255" for i by (simp add: octet_def)
  moreover have "fields CHR ''.'' (inet_ntop4 a) =
      [decimal (octet a 0), decimal (octet a 1), decimal (octet a 2), decimal (octet a 3)]"
    by (simp add: inet_ntop4_def dot)
  ultimately show ?thesis by (simp add: inet_pton4_def octet_of_decimal in_addr_of_octets del: One_nat_def)
qed

end
