(* ===== verification/Test_Util.thy ===== *)
theory Test_Util
  imports Inet
begin

text \<open>
  The helpers of \<open>src/opof_test_util.c\<close> that the client tests use: the requests they send and the
  names of status codes. (Its \<open>range\<close> is in \<open>Rand_Range\<close>, \<open>get_key\<close> in \<open>Programs\<close>, the printing in \<open>Display\<close>.)
\<close>

subsection \<open>Requests\<close>

text \<open>
  The addresses are what \<open>inet_pton\<close> returns for the constant texts (lemmas \<open>request_addresses\<close>
  and \<open>request6_addresses\<close> below). The struct for index \<open>i\<close> is allocated with the contents \<open>uninit i\<close>. A negative size, converted
  to \<open>unsigned long\<close>, would make the loop write past the array.
\<close>

definition createSessionRequest ::
  "(nat \<Rightarrow> sessionRequest_t) \<Rightarrow> 32 word \<Rightarrow> u64 \<Rightarrow> sessionRequest_t list option" where
  "createSessionRequest uninit sz start_sessionId =
     (if sint sz < 0 then None
      else Some (map (\<lambda>i. (uninit i)\<lparr>
        sessId := of_nat i + start_sessionId,
        inlif := 1,
        outlif := 2,
        srcIP := in_addr_of 10 0 1 1,
        dstIP := in_addr_of 10 1 0 1,
        srcPort := 80,
        dstPort := 45678,
        proto := proto_code TCP,
        ipver := ipver_code IPV4,
        nextHop := in_addr_of 192 168 0 1,
        actType := action_code FORWARD,
        cacheTimeout := 15\<rparr>) [0..<nat (sint sz)]))"

definition createSessionRequest6 ::
  "(nat \<Rightarrow> sessionRequest_t) \<Rightarrow> 32 word \<Rightarrow> u64 \<Rightarrow> sessionRequest_t list option" where
  "createSessionRequest6 uninit sz start_sessionId =
     (if sint sz < 0 then None
      else Some (map (\<lambda>i. (uninit i)\<lparr>
        sessId := of_nat i + start_sessionId,
        inlif := 1,
        outlif := 2,
        srcIPV6 := in6_addr_of [0x3FFE, 0, 0, 1, 0x0200, 0xF8FF, 0xFE75, 0x50DF],
        dstIPV6 := in6_addr_of [2, 0, 0, 0, 0, 0xFFFF, 0xFE76, 0x50DE],
        srcPort := 80,
        dstPort := 45678,
        proto := proto_code TCP,
        ipver := ipver_code IPV6,
        nextHopV6 := in6_addr_of [1, 0, 0, 0, 0, 0xFFFF, 0x0204, 0x0160],
        actType := action_code FORWARD,
        cacheTimeout := 15\<rparr>) [0..<nat (sint sz)]))"

subsection \<open>Names of codes\<close>

definition getAddResponseError :: "u32 \<Rightarrow> string" where
  "getAddResponseError errorCode =
     (if errorCode = 0 then ''_OK''
      else if errorCode = 2 then ''_UNKNOWN''
      else if errorCode = 6 then '' _ALREADY_EXISTS''
      else if errorCode = 8 then ''_RESOURCE_EXHAUSTED''
      else ''INVALID ERROR CODE'')"

definition getStatusCode :: "u32 \<Rightarrow> string" where
  "getStatusCode errorCode =
     (if errorCode = 0 then ''_OK''
      else if errorCode = 1 then ''_CANCELLED''
      else if errorCode = 2 then ''_UNKNOWN''
      else if errorCode = 3 then ''_INVALID_ARGUMENT''
      else if errorCode = 4 then ''_DEADLINE_EXCEEDED''
      else if errorCode = 5 then ''_NOT_FOUND''
      else if errorCode = 6 then ''_ALREADY_EXISTS''
      else if errorCode = 7 then ''_PERMISSION_DENIED''
      else if errorCode = 8 then ''_RESOURCE_EXHAUSTED''
      else if errorCode = 9 then ''_FAILED_PRECONDITION''
      else if errorCode = 10 then ''_ABORTED''
      else if errorCode = 11 then ''_OUT_OF_RANGE''
      else if errorCode = 12 then ''_UNIMPLEMENTED''
      else if errorCode = 13 then ''_INTERNAL''
      else if errorCode = 14 then ''_UNAVAILABLE''
      else if errorCode = 15 then ''_DATA_LOSS''
      else if errorCode = 16 then ''_UNAUTHENTICATED''
      else ''INVALID ERROR CODE'')"

subsection \<open>Lemmas\<close>

lemma request_addresses:
  "inet_pton4 ''10.0.1.1'' = Some (in_addr_of 10 0 1 1)" "inet_pton4 ''10.1.0.1'' = Some (in_addr_of 10 1 0 1)"
  "inet_pton4 ''192.168.0.1'' = Some (in_addr_of 192 168 0 1)"
  by (simp_all add: inet_pton4_def octet_of_def is_digit_def digits_value_def)

lemma request6_addresses:
  "inet_pton6 ''3FFE:0000:0000:0001:0200:F8FF:FE75:50DF'' = Some (in6_addr_of [0x3FFE, 0, 0, 1, 0x0200, 0xF8FF, 0xFE75, 0x50DF])"
  "inet_pton6 ''0002:0000:0000:0000:0000:FFFF:FE76:50DE'' = Some (in6_addr_of [2, 0, 0, 0, 0, 0xFFFF, 0xFE76, 0x50DE])"
  "inet_pton6 ''1:0:0:0:0:FFFF:0204:0160'' = Some (in6_addr_of [1, 0, 0, 0, 0, 0xFFFF, 0x0204, 0x0160])"
  by (simp_all add: inet_pton6_def group_of_def hex_value_def)

lemma createSessionRequest_ids:
  assumes "0 \<le> sint sz"
  obtains rs where "createSessionRequest u sz k = Some rs" and "length rs = nat (sint sz)"
    and "map sessId rs = map (\<lambda>i. of_nat i + k) [0..<nat (sint sz)]"
    and "\<forall>r\<in>set rs. ipver r = ipver_code IPV4"
  using assms that by (simp add: createSessionRequest_def comp_def)

lemma createSessionRequest6_ids:
  assumes "0 \<le> sint sz"
  obtains rs where "createSessionRequest6 u sz k = Some rs" and "length rs = nat (sint sz)"
    and "map sessId rs = map (\<lambda>i. of_nat i + k) [0..<nat (sint sz)]"
    and "\<forall>r\<in>set rs. length (srcIPV6 r) = 16 \<and> length (dstIPV6 r) = 16 \<and> length (nextHopV6 r) = 16"
  using assms that by (simp add: createSessionRequest6_def comp_def in6_addr_of_def)

text \<open>\<open>getStatusCode\<close> gives every status but the placeholder a name of its own.\<close>

lemma getStatusCode_injective:
  assumes "x \<noteq> DO_NOT_USE" and "y \<noteq> DO_NOT_USE"
    and "getStatusCode (status_code x) = getStatusCode (status_code y)"
  shows "x = y"
  using assms by (cases x; cases y) (simp_all add: getStatusCode_def)

end
