(* ===== verification/Run_Tests.thy ===== *)
theory Run_Tests
  imports Session_Client Test_Util
begin

text \<open>
  The client's test programs, \<open>src/opof_run_tests.c\<close>: they drive the client interface in loops,
  so they show how it is meant to be used. Loops that depend on the server's answers may not
  end; they are partial functions, \<open>None\<close> also when they do not end. \<open>int\<close> variables are
  32-bit words read with their sign; \<open>exit\<close> is \<open>None\<close>. Printing and the clock are left out.

  The fixed environment of a program run: how clients are created, \<open>sleep\<close>, what killing and
  starting the server process does to the world, and what memory holds before it is assigned.
  The state is that of the client with the retry settings.
\<close>

record 'w env =
  new_client :: "string \<Rightarrow> string option \<Rightarrow> 'w stub"
  ssl :: bool
  sleep :: "int \<Rightarrow> 'w \<Rightarrow> 'w"
  kill_server :: "'w \<Rightarrow> 'w"
  start_server :: "'w \<Rightarrow> 'w"
  uninit_request :: "nat \<Rightarrow> sessionRequest_t"
  uninit_add :: addSessionResponse_t
  uninit_rsp :: "nat \<Rightarrow> sessionResponse_t"

record 'w tester =
  conn :: "'w client"
  g_retryInterval :: int
  g_retryAttempts :: int

definition setRetryInterval :: "int \<Rightarrow> 'w tester \<Rightarrow> int \<times> 'w tester" where
  "setRetryInterval interval st = (let st = st\<lparr>g_retryInterval := interval\<rparr> in (g_retryInterval st, st))"

definition setRetryAttempts :: "int \<Rightarrow> 'w tester \<Rightarrow> int \<times> 'w tester" where
  "setRetryAttempts attempts st = (let st = st\<lparr>g_retryAttempts := attempts\<rparr> in (g_retryAttempts st, st))"

definition getRetryInterval :: "'w tester \<Rightarrow> int" where
  "getRetryInterval st = g_retryInterval st"

definition getRetryAttempts :: "'w tester \<Rightarrow> int" where
  "getRetryAttempts st = g_retryAttempts st"

definition sleep_world :: "'w env \<Rightarrow> int \<Rightarrow> 'w client \<Rightarrow> 'w client" where
  "sleep_world env interval c = c\<lparr>world := sleep env interval (world c)\<rparr>"

definition responses_init :: "'w env \<Rightarrow> sessionResponse_t list" where
  "responses_init env = map (uninit_rsp env) [0..<BUFFER_MAX]"

subsection \<open>Calls that are retried\<close>

text \<open>
  A call returns a status and a result, over the result of the previous one. When the status is
  14 (\<open>UNAVAILABLE\<close>) it is repeated, after a pause, at most \<open>n\<close> times.
\<close>

fun retry_loop ::
  "nat \<Rightarrow> ('s \<Rightarrow> 's) \<Rightarrow> ('r \<Rightarrow> 's \<Rightarrow> (u32 \<times> 'r \<times> 's) option) \<Rightarrow> u32 \<Rightarrow> 'r \<Rightarrow> 's \<Rightarrow> (u32 \<times> 'r \<times> 's) option" where
  "retry_loop 0 pause call status r s = Some (status, r, s)"
| "retry_loop (Suc n) pause call status r s = do {
     (status, r, s) \<leftarrow> call r (pause s);
     if status \<noteq> 14 then Some (status, r, s) else retry_loop n pause call status r s }"

definition with_retry ::
  "'w env \<Rightarrow> 'w tester \<Rightarrow> ('r \<Rightarrow> 'w client \<Rightarrow> (u32 \<times> 'r \<times> 'w client) option) \<Rightarrow> 'r \<Rightarrow> 'w client \<Rightarrow>
   (u32 \<times> 'r \<times> 'w client) option" where
  "with_retry env st call r c = do {
     (status, r, c) \<leftarrow> call r c;
     if status = 14
     then retry_loop (nat (getRetryAttempts st)) (sleep_world env (getRetryInterval st)) call status r c
     else Some (status, r, c) }"

subsection \<open>Deleting all sessions\<close>

text \<open>The calls in the form that is retried.\<close>

definition get_all_call ::
  "'w sessionTable_t \<Rightarrow> int \<Rightarrow> u64 \<times> nat \<times> sessionResponse_t list \<Rightarrow> 'w client \<Rightarrow>
   (u32 \<times> (u64 \<times> nat \<times> sessionResponse_t list) \<times> 'w client) option" where
  "get_all_call hnd pageSize = (\<lambda>(sessionStart, nsessions, responses) c. do {
     (status, sessionStart, nsessions, responses, c) \<leftarrow>
       opof_get_all_sessions hnd sessionStart pageSize responses c;
     Some (status, (sessionStart, nsessions, responses), c) })"

definition del_call ::
  "'w sessionTable_t \<Rightarrow> 32 word \<Rightarrow> sessionResponse_t \<Rightarrow> 'w client \<Rightarrow> (u32 \<times> sessionResponse_t \<times> 'w client) option" where
  "del_call hnd sessionId resp c = opof_del_session hnd (scast sessionId) resp c"

text \<open>The inner loop deletes the sessions \<open>is\<close> of the page; an id is stored in an \<open>int\<close>.\<close>

fun delete_page ::
  "'w env \<Rightarrow> 'w tester \<Rightarrow> 'w sessionTable_t \<Rightarrow> sessionResponse_t list \<Rightarrow> nat list \<Rightarrow> u32 \<Rightarrow> sessionResponse_t \<Rightarrow>
   'w client \<Rightarrow> (u32 \<times> sessionResponse_t \<times> 'w client) option" where
  "delete_page env st hnd responses [] status resp c = Some (status, resp, c)"
| "delete_page env st hnd responses (i # is) status resp c = do {
     response \<leftarrow> load responses i;
     let sessionId = (ucast (rsp_sessionId response) :: 32 word);
     (status, resp, c) \<leftarrow> with_retry env st (del_call hnd sessionId) resp c;
     delete_page env st hnd responses is status resp c }"

partial_function (option) delete_all_loop ::
  "'w env \<Rightarrow> 'w tester \<Rightarrow> 'w sessionTable_t \<Rightarrow> int \<Rightarrow> u64 \<times> nat \<times> sessionResponse_t list \<Rightarrow> u32 \<Rightarrow>
   sessionResponse_t \<Rightarrow> 'w client \<Rightarrow> (u32 \<times> 'w client) option" where
  "delete_all_loop env st hnd pageSize r status resp c =
     (case r of (sessionStart, nsessions, responses) \<Rightarrow>
       if nsessions = 0 then Some (status, c)
       else do {
         (status, r, c) \<leftarrow> with_retry env st (get_all_call hnd pageSize) (sessionStart, nsessions, responses) c;
         let (sessionStart, nsessions, responses) = r;
         (status, resp, c) \<leftarrow> delete_page env st hnd responses [0..<nsessions] status resp c;
         delete_all_loop env st hnd pageSize (sessionStart, nsessions, responses) status resp c })"

definition opof_delete_all_sessions ::
  "'w env \<Rightarrow> 'w sessionTable_t \<Rightarrow> int \<Rightarrow> 'w tester \<Rightarrow> (u32 \<times> 'w tester) option" where
  "opof_delete_all_sessions env hnd pageSize st = do {
     (status, c) \<leftarrow> delete_all_loop env st hnd pageSize
       (UINT_MAX, 1, responses_init env) SUCCESS (uninit_rsp env 0) (conn st);
     Some (status, st\<lparr>conn := c\<rparr>) }"

subsection \<open>The loops of the tests\<close>

text \<open>
  The loop that adds \<open>max_sessions\<close> sessions in batches of \<open>pageSize\<close>, with the ids from
  \<open>sessionId\<close> on. \<open>mk\<close> makes the requests of a batch and \<open>add\<close> sends them; \<open>failed\<close> is the test's
  check of the status. The result is whether a batch failed, and the response of the last one.
\<close>

partial_function (option) add_loop ::
  "(32 word \<Rightarrow> u64 \<Rightarrow> sessionRequest_t list option) \<Rightarrow> (u32 \<Rightarrow> bool) \<Rightarrow>
   (int \<Rightarrow> sessionRequest_t list \<Rightarrow> addSessionResponse_t \<Rightarrow> 'c \<Rightarrow> (u32 \<times> addSessionResponse_t \<times> 'c) option) \<Rightarrow>
   u32 \<Rightarrow> 32 word \<Rightarrow> 32 word \<Rightarrow> addSessionResponse_t \<Rightarrow> 'c \<Rightarrow> (bool \<times> addSessionResponse_t \<times> 'c) option" where
  "add_loop mk failed add pageSize max_sessions sessionId addResp c =
     (if sint max_sessions \<le> 0 then Some (False, addResp, c)
      else do {
        let sessionCount = max_sessions - pageSize;
        let bufferSize = (if sint sessionCount < 0 then max_sessions else pageSize);
        request \<leftarrow> mk bufferSize (scast sessionId);
        (status, addResp, c) \<leftarrow> add (sint bufferSize) request addResp c;
        if failed status then Some (True, addResp, c)
        else add_loop mk failed add pageSize sessionCount (sessionId + bufferSize) addResp c })"

text \<open>The batch is sent by one call of the client library, in all tests but 9 and 10.\<close>

definition add_call_plain ::
  "'w sessionTable_t \<Rightarrow> int \<Rightarrow> sessionRequest_t list \<Rightarrow> addSessionResponse_t \<Rightarrow> 'w client \<Rightarrow>
   (u32 \<times> addSessionResponse_t \<times> 'w client) option" where
  "add_call_plain hnd sz request addResp c = opof_add_session sz hnd request addResp c"

text \<open>
  The loop that asks for closed sessions until there are none, with the function \<open>get\<close>. \<open>failed\<close>
  is the check of the status when there were some; test 1 has one, the others have none.
\<close>

partial_function (option) closed_until_none ::
  "(u32 \<Rightarrow> bool) \<Rightarrow> (sessionResponse_t list \<Rightarrow> 'c \<Rightarrow> (u32 \<times> nat \<times> sessionResponse_t list \<times> 'c) option) \<Rightarrow>
   nat \<Rightarrow> sessionResponse_t list \<Rightarrow> 'c \<Rightarrow> (bool \<times> 'c) option" where
  "closed_until_none failed get closed_sessions responses c =
     (if closed_sessions = 0 then Some (False, c)
      else do {
        (status, closed_sessions, responses, c) \<leftarrow> get responses c;
        if 0 < closed_sessions \<and> failed status then Some (True, c)
        else closed_until_none failed get closed_sessions responses c })"

subsection \<open>The tests\<close>

definition opof_test1 ::
  "'w env \<Rightarrow> string \<Rightarrow> 32 word \<Rightarrow> u32 \<Rightarrow> u16 \<Rightarrow> string \<Rightarrow> 'w tester \<Rightarrow> (u32 \<times> 'w tester) option" where
  "opof_test1 env address max_sessions pageSize port cert st = do {
     let handl = opof_create_sessionTable (new_client env) (ssl env) address (ucast port) cert;
     let args = \<lparr>handle = handl, str_pageSize = pageSize\<rparr>;
     (status, st) \<leftarrow> opof_delete_all_sessions env handl (sint pageSize) st;
     if status = FAILURE then Some (FAILURE, st)
     else do {
       (failed, addResp, c) \<leftarrow> add_loop (createSessionRequest (uninit_request env)) (\<lambda>status. status \<noteq> status_code OK)
         (add_call_plain handl) pageSize max_sessions 0 (uninit_add env) (conn st);
       if failed then Some (FAILURE, st\<lparr>conn := c\<rparr>)
       else do {
         (failed, c) \<leftarrow> closed_until_none (\<lambda>status. status = status_code NOT_FOUND) (opof_get_closed_sessions args) 1 (responses_init env) c;
         Some (if failed then FAILURE else SUCCESS, st\<lparr>conn := c\<rparr>) } } }"

text \<open>The listing loop of test 2: the id of the last response of the page is the next key.\<close>

fun last_id :: "sessionResponse_t list \<Rightarrow> nat list \<Rightarrow> u64 \<Rightarrow> u64 option" where
  "last_id responses [] sessionStart = Some sessionStart"
| "last_id responses (i # is) sessionStart = do {
     response \<leftarrow> load responses i;
     last_id responses is (rsp_sessionId response) }"

partial_function (option) list_until_none ::
  "'w sessionTable_t \<Rightarrow> int \<Rightarrow> u64 \<Rightarrow> nat \<Rightarrow> sessionResponse_t list \<Rightarrow> u64 list \<Rightarrow> 'w client \<Rightarrow>
   (u64 list \<times> 'w client) option" where
  "list_until_none hnd pageSize sessionStart nsessions responses seen c =
     (if nsessions = 0 then Some (seen, c)
      else do {
        (status, sessionStart, nsessions, responses, c) \<leftarrow>
          opof_get_all_sessions hnd sessionStart pageSize responses c;
        sessionStart \<leftarrow> last_id responses [0..<nsessions] sessionStart;
        list_until_none hnd pageSize sessionStart nsessions responses
          (seen @ map rsp_sessionId (take nsessions responses)) c })"

text \<open>
  Test 2 prints what it lists; \<open>seen\<close> is the list of the ids it prints, in order, which is part
  of the result here.
\<close>

definition opof_test2 ::
  "'w env \<Rightarrow> string \<Rightarrow> 32 word \<Rightarrow> u32 \<Rightarrow> u16 \<Rightarrow> string \<Rightarrow> 'w tester \<Rightarrow> (u32 \<times> u64 list \<times> 'w tester) option" where
  "opof_test2 env address max_sessions pageSize port cert st = do {
     let handl = opof_create_sessionTable (new_client env) (ssl env) address (ucast port) cert;
     (status, st) \<leftarrow> opof_delete_all_sessions env handl (sint pageSize) st;
     if status = FAILURE then Some (FAILURE, [], st)
     else do {
       (failed, addResp, c) \<leftarrow> add_loop (createSessionRequest (uninit_request env)) (\<lambda>status. status \<noteq> status_code OK)
         (add_call_plain handl) pageSize max_sessions 0 (uninit_add env) (conn st);
       if failed then Some (FAILURE, [], st\<lparr>conn := c\<rparr>)
       else do {
         (seen, c) \<leftarrow> list_until_none handl (sint pageSize) UINT_MAX 1 (responses_init env) [] c;
         Some (SUCCESS, seen, st\<lparr>conn := c\<rparr>) } } }"

text \<open>
  Tests 3 and 4 get and delete each of the sessions; a status of \<open>FAILURE\<close> ends the program.
\<close>

fun each_session ::
  "(u64 \<Rightarrow> sessionResponse_t \<Rightarrow> 'w client \<Rightarrow> (u32 \<times> sessionResponse_t \<times> 'w client) option) \<Rightarrow> nat list \<Rightarrow>
   sessionResponse_t \<Rightarrow> 'w client \<Rightarrow> 'w client option" where
  "each_session call [] resp c = Some c"
| "each_session call (i # is) resp c = do {
     (status, resp, c) \<leftarrow> call (of_nat i) resp c;
     if status = FAILURE then None else each_session call is resp c }"

definition opof_test3 ::
  "'w env \<Rightarrow> string \<Rightarrow> 32 word \<Rightarrow> u32 \<Rightarrow> u16 \<Rightarrow> string \<Rightarrow> 'w tester \<Rightarrow> (u32 \<times> 'w tester) option" where
  "opof_test3 env address max_sessions pageSize port cert st = do {
     let handl = opof_create_sessionTable (new_client env) (ssl env) address (ucast port) cert;
     (status, st) \<leftarrow> opof_delete_all_sessions env handl (sint pageSize) st;
     if status = FAILURE then Some (FAILURE, st)
     else do {
       let total_sessions = max_sessions;
       (failed, addResp, c) \<leftarrow> add_loop (createSessionRequest (uninit_request env)) (\<lambda>status. status = FAILURE)
         (add_call_plain handl) pageSize max_sessions 0 (uninit_add env) (conn st);
       if failed then Some (FAILURE, st\<lparr>conn := c\<rparr>)
       else do {
         c \<leftarrow> each_session (opof_get_session handl) [0..<nat (sint total_sessions)] (uninit_rsp env 0) c;
         Some (SUCCESS, st\<lparr>conn := c\<rparr>) } } }"

definition opof_test4 ::
  "'w env \<Rightarrow> string \<Rightarrow> 32 word \<Rightarrow> u32 \<Rightarrow> u16 \<Rightarrow> string \<Rightarrow> 'w tester \<Rightarrow> (u32 \<times> 'w tester) option" where
  "opof_test4 env address max_sessions pageSize port cert st = do {
     let handl = opof_create_sessionTable (new_client env) (ssl env) address (ucast port) cert;
     (status, st) \<leftarrow> opof_delete_all_sessions env handl (sint pageSize) st;
     if status = FAILURE then Some (FAILURE, st)
     else do {
       let total_sessions = max_sessions;
       (failed, addResp, c) \<leftarrow> add_loop (createSessionRequest (uninit_request env)) (\<lambda>status. status = FAILURE)
         (add_call_plain handl) pageSize max_sessions 0 (uninit_add env) (conn st);
       if failed then Some (FAILURE, st\<lparr>conn := c\<rparr>)
       else do {
         c \<leftarrow> each_session (opof_del_session handl) [0..<nat (sint total_sessions)] (uninit_rsp env 0) c;
         Some (SUCCESS, st\<lparr>conn := c\<rparr>) } } }"

definition opof_test5 ::
  "'w env \<Rightarrow> string \<Rightarrow> 32 word \<Rightarrow> u32 \<Rightarrow> u16 \<Rightarrow> string \<Rightarrow> 'w tester \<Rightarrow> (u32 \<times> 'w tester) option" where
  "opof_test5 env address max_sessions pageSize port cert st = do {
     let handl = opof_create_sessionTable (new_client env) (ssl env) address (ucast port) cert;
     let args = \<lparr>handle = handl, str_pageSize = pageSize\<rparr>;
     (status, st) \<leftarrow> opof_delete_all_sessions env handl (sint pageSize) st;
     if status = FAILURE then Some (FAILURE, st)
     else do {
       (failed, addResp, c) \<leftarrow> add_loop (createSessionRequest (uninit_request env)) (\<lambda>status. status = FAILURE)
         (add_call_plain handl) pageSize max_sessions 0 (uninit_add env) (conn st);
       if failed then Some (FAILURE, st\<lparr>conn := c\<rparr>)
       else do {
         (failed, c) \<leftarrow> closed_until_none (\<lambda>status. False) (opof_get_closed_sessions args) 1 (responses_init env) c;
         Some (SUCCESS, st\<lparr>conn := c\<rparr>) } } }"

text \<open>Test 6 adds the same sessions twice.\<close>

definition opof_test6 ::
  "'w env \<Rightarrow> string \<Rightarrow> 32 word \<Rightarrow> u32 \<Rightarrow> u16 \<Rightarrow> string \<Rightarrow> 'w tester \<Rightarrow> (u32 \<times> 'w tester) option" where
  "opof_test6 env address max_sessions pageSize port cert st = do {
     let handl = opof_create_sessionTable (new_client env) (ssl env) address (ucast port) cert;
     let args = \<lparr>handle = handl, str_pageSize = pageSize\<rparr>;
     let total_sessions = max_sessions;
     (status, st) \<leftarrow> opof_delete_all_sessions env handl (sint pageSize) st;
     if status = FAILURE then Some (FAILURE, st)
     else do {
       (failed, addResp, c) \<leftarrow> add_loop (createSessionRequest (uninit_request env)) (\<lambda>status. status \<noteq> status_code OK)
         (add_call_plain handl) pageSize max_sessions 0 (uninit_add env) (conn st);
       if failed then Some (FAILURE, st\<lparr>conn := c\<rparr>)
       else do {
         let max_sessions = total_sessions;
         (failed, addResp, c) \<leftarrow> add_loop (createSessionRequest (uninit_request env)) (\<lambda>status. status \<noteq> status_code OK)
           (add_call_plain handl) pageSize max_sessions 0 addResp c;
         if failed then Some (FAILURE, st\<lparr>conn := c\<rparr>)
         else do {
           (failed, c) \<leftarrow> closed_until_none (\<lambda>status. False) (opof_get_closed_sessions args) 1 (responses_init env) c;
           Some (SUCCESS, st\<lparr>conn := c\<rparr>) } } } }"

text \<open>Test 7 gets and deletes a session that does not exist.\<close>

definition opof_test7 ::
  "'w env \<Rightarrow> string \<Rightarrow> 32 word \<Rightarrow> u32 \<Rightarrow> u16 \<Rightarrow> string \<Rightarrow> 'w tester \<Rightarrow> (u32 \<times> 'w tester) option" where
  "opof_test7 env address max_sessions pageSize port cert st = do {
     let handl = opof_create_sessionTable (new_client env) (ssl env) address (ucast port) cert;
     (status, st) \<leftarrow> opof_delete_all_sessions env handl (sint pageSize) st;
     if status = FAILURE then Some (FAILURE, st)
     else do {
       let total_sessions = max_sessions;
       (failed, addResp, c) \<leftarrow> add_loop (createSessionRequest (uninit_request env)) (\<lambda>status. status = FAILURE)
         (add_call_plain handl) pageSize max_sessions 0 (uninit_add env) (conn st);
       if failed then Some (FAILURE, st\<lparr>conn := c\<rparr>)
       else do {
         (status, resp, c) \<leftarrow> opof_get_session handl (scast (total_sessions + 1)) (uninit_rsp env 0) c;
         (status, resp, c) \<leftarrow> opof_del_session handl (scast (total_sessions + 1)) resp c;
         if status = FAILURE then None else Some (SUCCESS, st\<lparr>conn := c\<rparr>) } } }"

text \<open>Test 8 closes the connection and opens a new one before it asks for the closed sessions.\<close>

definition opof_test8 ::
  "'w env \<Rightarrow> string \<Rightarrow> 32 word \<Rightarrow> u32 \<Rightarrow> u16 \<Rightarrow> string \<Rightarrow> 'w tester \<Rightarrow> (u32 \<times> 'w tester) option" where
  "opof_test8 env address max_sessions pageSize port cert st = do {
     let handl = opof_create_sessionTable (new_client env) (ssl env) address (ucast port) cert;
     (status, st) \<leftarrow> opof_delete_all_sessions env handl (sint pageSize) st;
     if status = FAILURE then Some (FAILURE, st)
     else do {
       (failed, addResp, c) \<leftarrow> add_loop (createSessionRequest (uninit_request env)) (\<lambda>status. status \<noteq> status_code OK)
         (add_call_plain handl) pageSize max_sessions 0 (uninit_add env) (conn st);
       if failed then Some (FAILURE, st\<lparr>conn := c\<rparr>)
       else do {
         let handl = opof_create_sessionTable (new_client env) (ssl env) address (ucast port) cert;
         let args = \<lparr>handle = handl, str_pageSize = pageSize\<rparr>;
         (failed, c) \<leftarrow> closed_until_none (\<lambda>status. False) (opof_get_closed_sessions args) 1 (responses_init env) c;
         Some (SUCCESS, st\<lparr>conn := c\<rparr>) } } }"

text \<open>
  Test 9 kills the server and sends each batch until the server, which it restarts, accepts it;
  then it opens a new connection.
\<close>

definition add_call_restart ::
  "'w env \<Rightarrow> 'w tester \<Rightarrow> 'w sessionTable_t \<Rightarrow> int \<Rightarrow> sessionRequest_t list \<Rightarrow> addSessionResponse_t \<Rightarrow> 'w client \<Rightarrow>
   (u32 \<times> addSessionResponse_t \<times> 'w client) option" where
  "add_call_restart env st hnd sz request addResp c = do {
     (status, addResp, c) \<leftarrow> opof_add_session sz hnd request addResp c;
     if status = 14
     then retry_loop (nat (getRetryAttempts st))
       (\<lambda>c. let c = sleep_world env (getRetryInterval st) c in c\<lparr>world := start_server env (world c)\<rparr>)
       (opof_add_session sz hnd request) status addResp c
     else Some (status, addResp, c) }"

definition opof_test9 ::
  "'w env \<Rightarrow> string \<Rightarrow> 32 word \<Rightarrow> u32 \<Rightarrow> u16 \<Rightarrow> string \<Rightarrow> 'w tester \<Rightarrow> (u32 \<times> 'w tester) option" where
  "opof_test9 env address max_sessions pageSize port cert st = do {
     let handl = opof_create_sessionTable (new_client env) (ssl env) address (ucast port) cert;
     (status, st) \<leftarrow> opof_delete_all_sessions env handl (sint pageSize) st;
     if status = FAILURE then Some (FAILURE, st)
     else do {
       let c = (conn st)\<lparr>world := kill_server env (world (conn st))\<rparr>;
       (failed, addResp, c) \<leftarrow> add_loop (createSessionRequest (uninit_request env)) (\<lambda>status. status \<noteq> status_code OK)
         (add_call_restart env st handl) pageSize max_sessions 0 (uninit_add env) c;
       if failed then Some (FAILURE, st\<lparr>conn := c\<rparr>)
       else do {
         let handl = opof_create_sessionTable (new_client env) (ssl env) address (ucast port) cert;
         let args = \<lparr>handle = handl, str_pageSize = pageSize\<rparr>;
         (failed, c) \<leftarrow> closed_until_none (\<lambda>status. False) (opof_get_closed_sessions args) 1 (responses_init env) c;
         Some (SUCCESS, st\<lparr>conn := c\<rparr>) } } }"

text \<open>
  Test 10 works with a deadline of one millisecond, and makes a call that exceeds it once more
  with one of four seconds, which stays set.
\<close>

definition add_call_deadline ::
  "'w sessionTable_t \<Rightarrow> int \<Rightarrow> sessionRequest_t list \<Rightarrow> addSessionResponse_t \<Rightarrow> 'w client \<Rightarrow>
   (u32 \<times> addSessionResponse_t \<times> 'w client) option" where
  "add_call_deadline hnd sz request addResp c = do {
     (status, addResp, c) \<leftarrow> opof_add_session sz hnd request addResp c;
     if status = 4 then opof_add_session sz hnd request addResp (snd (opof_set_deadline 4000 c))
     else Some (status, addResp, c) }"

definition closed_call_deadline ::
  "'w streamArgs_t \<Rightarrow> sessionResponse_t list \<Rightarrow> 'w client \<Rightarrow>
   (u32 \<times> nat \<times> sessionResponse_t list \<times> 'w client) option" where
  "closed_call_deadline args responses c = do {
     (status, closed_sessions, responses, c) \<leftarrow> opof_get_closed_sessions args responses c;
     if status = 4 then opof_get_closed_sessions args responses (snd (opof_set_deadline 4000 c))
     else Some (status, closed_sessions, responses, c) }"

definition opof_test10 ::
  "'w env \<Rightarrow> string \<Rightarrow> 32 word \<Rightarrow> u32 \<Rightarrow> u16 \<Rightarrow> string \<Rightarrow> 'w tester \<Rightarrow> (u32 \<times> 'w tester) option" where
  "opof_test10 env address max_sessions pageSize port cert st = do {
     let handl = opof_create_sessionTable (new_client env) (ssl env) address (ucast port) cert;
     let args = \<lparr>handle = handl, str_pageSize = pageSize\<rparr>;
     (status, st) \<leftarrow> opof_delete_all_sessions env handl (sint pageSize) st;
     if status = FAILURE then Some (FAILURE, st)
     else do {
       let c = snd (opof_set_deadline 1 (conn st));
       (failed, addResp, c) \<leftarrow> add_loop (createSessionRequest (uninit_request env)) (\<lambda>status. status \<noteq> status_code OK)
         (add_call_deadline handl) pageSize max_sessions 0 (uninit_add env) c;
       if failed then Some (FAILURE, st\<lparr>conn := c\<rparr>)
       else do {
         let c = snd (opof_set_deadline 1 c);
         (failed, c) \<leftarrow> closed_until_none (\<lambda>status. False) (closed_call_deadline args) 1 (responses_init env) c;
         Some (SUCCESS, st\<lparr>conn := c\<rparr>) } } }"

text \<open>Test 11 is test 1 with IPv6 sessions, and without the check of the status.\<close>

definition opof_test11 ::
  "'w env \<Rightarrow> string \<Rightarrow> 32 word \<Rightarrow> u32 \<Rightarrow> u16 \<Rightarrow> string \<Rightarrow> 'w tester \<Rightarrow> (u32 \<times> 'w tester) option" where
  "opof_test11 env address max_sessions pageSize port cert st = do {
     let handl = opof_create_sessionTable (new_client env) (ssl env) address (ucast port) cert;
     let args = \<lparr>handle = handl, str_pageSize = pageSize\<rparr>;
     (status, st) \<leftarrow> opof_delete_all_sessions env handl (sint pageSize) st;
     if status = FAILURE then Some (FAILURE, st)
     else do {
       (failed, addResp, c) \<leftarrow> add_loop (createSessionRequest6 (uninit_request env)) (\<lambda>status. status \<noteq> status_code OK)
         (add_call_plain handl) pageSize max_sessions 0 (uninit_add env) (conn st);
       if failed then Some (FAILURE, st\<lparr>conn := c\<rparr>)
       else do {
         (failed, c) \<leftarrow> closed_until_none (\<lambda>status. False) (opof_get_closed_sessions args) 1 (responses_init env) c;
         Some (SUCCESS, st\<lparr>conn := c\<rparr>) } } }"

subsection \<open>The full test suite\<close>

text \<open>Running tests one after the other until one does not succeed.\<close>

fun run_suite :: "('s \<Rightarrow> (u32 \<times> 's) option) list \<Rightarrow> 's \<Rightarrow> (u32 \<times> 's) option" where
  "run_suite [] st = Some (SUCCESS, st)"
| "run_suite (t # ts) st = do {
     (status, st) \<leftarrow> t st;
     if status = SUCCESS then run_suite ts st else Some (FAILURE, st) }"

text \<open>The suite is four rounds of tests, each with a number of sessions: the title, the number, the tests.\<close>

type_synonym suite_round = "string \<times> nat \<times> nat list"

definition small_buffer_tests :: suite_round where
  "small_buffer_tests = (''Small Buffer Tests'', 19, [1, 2, 3, 4])"

definition medium_buffer_tests :: suite_round where
  "medium_buffer_tests = (''Medium Buffer Tests'', 72, [1, 2, 3, 4, 5, 6, 7, 8, 11])"

definition large_buffer_tests :: suite_round where
  "large_buffer_tests = (''Large Buffer Tests'', 384, [1, 2, 3, 4, 5, 6, 7, 8, 11])"

definition cache_overflow_tests :: suite_round where
  "cache_overflow_tests = (''Cache Overflow Tests'', 1019, [1, 2, 3, 4, 5, 6, 7, 8, 11])"

definition suite_rounds :: "suite_round list" where
  "suite_rounds = [small_buffer_tests, medium_buffer_tests, large_buffer_tests, cache_overflow_tests]"

definition suite_test ::
  "'w env \<Rightarrow> string \<Rightarrow> u16 \<Rightarrow> string \<Rightarrow> nat \<Rightarrow> nat \<Rightarrow> 'w tester \<Rightarrow> (u32 \<times> 'w tester) option" where
  "suite_test env address port cert max_sessions i =
     (let pageSize = of_nat BUFFER_MAX; n = of_nat max_sessions in
      if i = 1 then opof_test1 env address n pageSize port cert
      else if i = 2 then (\<lambda>st. do {
        (status, _, st) \<leftarrow> opof_test2 env address n pageSize port cert st; Some (status, st) })
      else if i = 3 then opof_test3 env address n pageSize port cert
      else if i = 4 then opof_test4 env address n pageSize port cert
      else if i = 5 then opof_test5 env address n pageSize port cert
      else if i = 6 then opof_test6 env address n pageSize port cert
      else if i = 7 then opof_test7 env address n pageSize port cert
      else if i = 8 then opof_test8 env address n pageSize port cert
      else opof_test11 env address n pageSize port cert)"

definition opof_fullTestSuite ::
  "'w env \<Rightarrow> string \<Rightarrow> u16 \<Rightarrow> string \<Rightarrow> 'w tester \<Rightarrow> (u32 \<times> 'w tester) option" where
  "opof_fullTestSuite env address port cert =
     run_suite (concat (map (\<lambda>(_, n, is). map (suite_test env address port cert n) is) suite_rounds))"

subsection \<open>Running one test\<close>

text \<open>
  The status of a test is only printed: a known test id gives \<open>SUCCESS\<close> whatever the test
  returned. Test 5 is called with no sessions.
\<close>

definition opof_run_tests ::
  "'w env \<Rightarrow> string \<Rightarrow> 32 word \<Rightarrow> u32 \<Rightarrow> u16 \<Rightarrow> string \<Rightarrow> int \<Rightarrow> 'w tester \<Rightarrow> (u32 \<times> 'w tester) option" where
  "opof_run_tests env address max_sessions pageSize port cert testid st =
     (let run = (\<lambda>test. do { (status, st) \<leftarrow> test st; Some (SUCCESS, st) }) in
      if testid = -1 then run (opof_fullTestSuite env address port cert)
      else if testid = 1 then run (opof_test1 env address max_sessions pageSize port cert)
      else if testid = 2 then run (\<lambda>st. do {
        (status, seen, st) \<leftarrow> opof_test2 env address max_sessions pageSize port cert st; Some (status, st) })
      else if testid = 3 then run (opof_test3 env address max_sessions pageSize port cert)
      else if testid = 4 then run (opof_test4 env address max_sessions pageSize port cert)
      else if testid = 5 then run (opof_test5 env address 0 pageSize port cert)
      else if testid = 6 then run (opof_test6 env address max_sessions pageSize port cert)
      else if testid = 7 then run (opof_test7 env address max_sessions pageSize port cert)
      else if testid = 8 then run (opof_test8 env address max_sessions pageSize port cert)
      else if testid = 9 then run (opof_test9 env address max_sessions pageSize port cert)
      else if testid = 10 then run (opof_test10 env address max_sessions pageSize port cert)
      else if testid = 11 then run (opof_test11 env address max_sessions pageSize port cert)
      else Some (FAILURE, st))"

end
