(* ===== verification/Programs.thy ===== *)
theory Programs
  imports Run_Tests
begin

text \<open>
  The two programs: the test client (\<open>src/opof_client_main.c\<close>) and the server
  (\<open>src/opof_server_main.c\<close>, \<open>src/opof_server.cc\<close>), with \<open>get_key\<close> of \<open>src/opof_test_util.c\<close>. They are
  modelled without the macro \<open>FORK\<close>. Printing, \<open>syslog\<close> and the installation of the signal handler
  are left out.

  Here the command line is the sequence of the results of \<open>getopt_long\<close>: each option character with
  the value of \<open>optarg\<close>, \<open>None\<close> for a null pointer, which \<open>strtoul\<close> and \<open>strncpy\<close> fault on.
  \<open>Command_Line\<close> has \<open>getopt_long\<close> itself, from the words of the command line.
  The exit of the process is \<open>Inl\<close> of its status.
\<close>

subsection \<open>Files\<close>

text \<open>What the programs find: the contents of the files that can be opened, and the log directory.\<close>

record sys =
  files :: "string \<Rightarrow> string option"
  log_dir_exists :: bool
  mkdir_ok :: bool

definition CERT_FILE :: string where
  "CERT_FILE = ''ssl/server.crt''"

definition KEY_FILE :: string where
  "KEY_FILE = ''ssl/server.key''"

text \<open>
  \<open>fread\<close> returns how many of the 2047 bytes it was asked for there are, never -1; so the only
  failure is a file that cannot be opened.
\<close>

definition get_key :: "(string \<Rightarrow> string option) \<Rightarrow> string \<Rightarrow> char list \<Rightarrow> (u32 \<times> char list) option" where
  "get_key fs filename key = (case fs filename of
     None \<Rightarrow> Some (FAILURE, key)
   | Some content \<Rightarrow> do {
       let status = min 2047 (length content);
       key \<leftarrow> write_chars key 0 (take status content);
       key \<leftarrow> store key status NUL;
       Some (of_nat (status + 1), key) })"

subsection \<open>Options\<close>

text \<open>The loop over the options, with the switch \<open>f\<close> of the program.\<close>

fun getopt_loop :: "(char \<Rightarrow> string option \<Rightarrow> 'o \<Rightarrow> (int + 'o) option) \<Rightarrow> (char \<times> string option) list \<Rightarrow> 'o \<Rightarrow>
   (int + 'o) option" where
  "getopt_loop f [] opts = Some (Inr opts)"
| "getopt_loop f ((c, optarg) # args) opts = do {
     r \<leftarrow> f c optarg opts;
     case r of Inl status \<Rightarrow> Some (Inl status) | Inr opts \<Rightarrow> getopt_loop f args opts }"

text \<open>The locals of the client that options set; the address and the configuration are buffers.\<close>

record client_opts =
  co_address :: "char list"
  co_test_config :: "char list"
  co_test_number :: "32 word"
  co_port :: u16
  co_number :: "32 word"
  co_pageSize :: u32
  co_fullTestSuite :: bool
  co_verbose :: bool

definition FILENAME_MAX :: nat where
  "FILENAME_MAX = 4096"

text \<open>The initial values, over the contents the two buffers have before.\<close>

definition client_defaults :: "char list \<Rightarrow> char list \<Rightarrow> client_opts option" where
  "client_defaults address test_config = do {
     address \<leftarrow> strncpy address ''localhost'' (length ''localhost'' + 1);
     test_config \<leftarrow> store test_config 0 NUL;
     Some \<lparr>co_address = address, co_test_config = test_config, co_test_number = 1, co_port = 3443,
       co_number = 1, co_pageSize = of_nat BUFFER_MAX, co_fullTestSuite = False, co_verbose = False\<rparr> }"

definition client_option :: "char \<Rightarrow> string option \<Rightarrow> client_opts \<Rightarrow> (int + client_opts) option" where
  "client_option c optarg opts =
     (if c = CHR ''v'' then Some (Inr (opts\<lparr>co_verbose := True\<rparr>))
      else if c = CHR ''p'' then do {
        s \<leftarrow> optarg;
        Some (Inr (opts\<lparr>co_port := ucast (strtoul s)\<rparr>)) }
      else if c = CHR ''a'' then do {
        s \<leftarrow> optarg;
        address \<leftarrow> strncpy (co_address opts) s 63;
        Some (Inr (opts\<lparr>co_address := address\<rparr>)) }
      else if c = CHR ''n'' then do {
        s \<leftarrow> optarg;
        Some (Inr (opts\<lparr>co_number := ucast (strtoul s)\<rparr>)) }
      else if c = CHR ''b'' then do {
        s \<leftarrow> optarg;
        Some (Inr (opts\<lparr>co_pageSize := ucast (strtoul s)\<rparr>)) }
      else if c = CHR ''f'' then Some (Inr (opts\<lparr>co_fullTestSuite := True\<rparr>))
      else if c = CHR ''c'' then do {
        s \<leftarrow> optarg;
        test_config \<leftarrow> strncpy (co_test_config opts) s (FILENAME_MAX - 1);
        Some (Inr (opts\<lparr>co_test_config := test_config\<rparr>)) }
      else if c = CHR ''t'' then do {
        s \<leftarrow> optarg;
        Some (Inr (opts\<lparr>co_test_number := ucast (strtoul s)\<rparr>)) }
      else if c = CHR ''l'' then Some (Inl 1)
      else if c = CHR ''h'' then Some (Inl 1)
      else Some (Inr opts))"

record server_opts =
  so_address :: "char list"
  so_port :: u16

definition server_defaults :: "char list \<Rightarrow> server_opts option" where
  "server_defaults address = do {
     address \<leftarrow> strncpy address ''localhost'' (length ''localhost'' + 1);
     Some \<lparr>so_address = address, so_port = 3443\<rparr> }"

definition server_option :: "char \<Rightarrow> string option \<Rightarrow> server_opts \<Rightarrow> (int + server_opts) option" where
  "server_option c optarg opts =
     (if c = CHR ''v'' then Some (Inl 0)
      else if c = CHR ''p'' then do {
        s \<leftarrow> optarg;
        Some (Inr (opts\<lparr>so_port := ucast (strtoul s)\<rparr>)) }
      else if c = CHR ''a'' then do {
        s \<leftarrow> optarg;
        address \<leftarrow> strncpy (so_address opts) s 63;
        Some (Inr (opts\<lparr>so_address := address\<rparr>)) }
      else if c = CHR ''h'' then Some (Inl 1)
      else Some (Inr opts))"

subsection \<open>The server\<close>

text \<open>What the server is built with: the address it listens on and, with TLS, key and certificate.\<close>

record server_config =
  listen_address :: string
  credentials :: "(string \<times> string) option"

definition opof_server :: "bool \<Rightarrow> string \<Rightarrow> u16 \<Rightarrow> string \<Rightarrow> string \<Rightarrow> server_config" where
  "opof_server with_ssl address port cert key =
     (let cppaddress = address;
          creds = (if with_ssl then Some (key, cert) else None);
          cppaddress = cppaddress @ '':'';
          cppaddress = cppaddress @ decimal (unat port)
      in \<lparr>listen_address = cppaddress, credentials = creds\<rparr>)"

text \<open>
  \<open>main\<close> of the server from the options to the start of the server: the exit status, or the server it
  runs. The buffers \<open>cert\<close> and \<open>key\<close> are not read when there is no TLS.
\<close>

definition server_start :: "sys \<Rightarrow> bool \<Rightarrow> server_opts \<Rightarrow> char list \<Rightarrow> char list \<Rightarrow> (int + server_config) option" where
  "server_start sys with_ssl opts cert key =
     (if \<not> log_dir_exists sys \<and> \<not> mkdir_ok sys then Some (Inl 1)
      else if with_ssl then do {
        (status, cert) \<leftarrow> get_key (files sys) CERT_FILE cert;
        if status = FAILURE then Some (Inl (-1))
        else do {
          (status, key) \<leftarrow> get_key (files sys) KEY_FILE key;
          if status = FAILURE then Some (Inl (-1))
          else do {
            host \<leftarrow> c_string (so_address opts);
            cert \<leftarrow> c_string cert;
            key \<leftarrow> c_string key;
            Some (Inr (opof_server True host (so_port opts) cert key)) } } }
      else do {
        host \<leftarrow> c_string (so_address opts);
        Some (Inr (opof_server False host (so_port opts) [] [])) })"

definition server_main ::
  "sys \<Rightarrow> bool \<Rightarrow> (char \<times> string option) list \<Rightarrow> char list \<Rightarrow> char list \<Rightarrow> char list \<Rightarrow> (int + server_config) option" where
  "server_main sys with_ssl args address cert key = do {
     opts \<leftarrow> server_defaults address;
     r \<leftarrow> getopt_loop server_option args opts;
     case r of
       Inl status \<Rightarrow> Some (Inl status)
     | Inr opts \<Rightarrow> server_start sys with_ssl opts cert key }"

subsection \<open>The client\<close>

text \<open>
  \<open>main\<close> of the client: the exit status and the state of client and server at the end. Without TLS
  the buffer \<open>cert\<close> is not read.
\<close>

definition client_run :: "sys \<Rightarrow> 'w env \<Rightarrow> client_opts \<Rightarrow> char list \<Rightarrow> 'w tester \<Rightarrow> (int \<times> 'w tester) option" where
  "client_run sys env opts cert st =
     (if \<not> log_dir_exists sys \<and> \<not> mkdir_ok sys then Some (1, st)
      else do {
        (status, cert) \<leftarrow> (if ssl env then get_key (files sys) CERT_FILE cert else Some (SUCCESS, cert));
        if status \<noteq> FAILURE
        then do {
          host \<leftarrow> c_string (co_address opts);
          cert \<leftarrow> (if ssl env then c_string cert else Some []);
          (_, st) \<leftarrow> opof_run_tests env host (co_number opts) (co_pageSize opts) (co_port opts) cert
            (if co_fullTestSuite opts then - 1 else sint (co_test_number opts)) st;
          Some (1, st) }
        else Some (-1, st) })"

definition client_main ::
  "sys \<Rightarrow> 'w env \<Rightarrow> (char \<times> string option) list \<Rightarrow> char list \<Rightarrow> char list \<Rightarrow> char list \<Rightarrow> 'w tester \<Rightarrow>
   (int \<times> 'w tester) option" where
  "client_main sys env args address test_config cert st = do {
     opts \<leftarrow> client_defaults address test_config;
     r \<leftarrow> getopt_loop client_option args opts;
     case r of
       Inl status \<Rightarrow> Some (status, st)
     | Inr opts \<Rightarrow> client_run sys env opts cert st }"

end
