(* ===== verification/Rand_Range.thy ===== *)
theory Rand_Range
  imports Prelude
begin

text \<open>
  \<open>range\<close> of \<open>src/opof_test_util.c\<close>, which makes up the statistics of the test server, over
  \<open>rand()\<close>. The generator is the sequence of values that the calls of \<open>rand()\<close> return, each
  between 0 and \<open>RAND_MAX\<close> (2147483647), and how many have been drawn.
\<close>

record rng =
  sequence :: "nat \<Rightarrow> 31 word"
  drawn :: nat

definition rand :: "rng \<Rightarrow> int \<times> rng" where
  "rand g = (uint (sequence g (drawn g)), g\<lparr>drawn := drawn g + 1\<rparr>)"

text \<open>
  The value of a computation in C's \<open>int\<close>: undefined when it overflows. The remainder of a
  non-negative number truncates to the remainder by the absolute value of the divisor.
\<close>

definition c_int :: "int \<Rightarrow> int option" where
  "c_int x = (if - (2 ^ 31) \<le> x \<and> x < 2 ^ 31 then Some x else None)"

definition range_rand :: "int \<Rightarrow> int \<Rightarrow> rng \<Rightarrow> (int \<times> rng) option" where
  "range_rand lower upper g = do {
     let (x, g) = rand g;
     d \<leftarrow> c_int (upper - lower);
     m \<leftarrow> c_int (d + 1);
     if m = 0 then None
     else do {
       v \<leftarrow> c_int (x mod \<bar>m\<bar> + lower);
       Some (v, g) } }"

text \<open>For the ranges the server uses, the result exists and lies in the range.\<close>

definition draw :: "int \<Rightarrow> int \<Rightarrow> rng \<Rightarrow> int" where
  "draw lower upper g = fst (rand g) mod (upper - lower + 1) + lower"

lemma range_rand_ok:
  assumes "0 \<le> lower" "lower \<le> upper" "upper < 2 ^ 31 - 1"
  shows "range_rand lower upper g = Some (draw lower upper g, g\<lparr>drawn := drawn g + 1\<rparr>)"
    and "lower \<le> draw lower upper g" and "draw lower upper g \<le> upper"
proof -
  let ?m = "upper - lower + 1"
  have pos: "0 < ?m" using assms by simp
  have b: "0 \<le> fst (rand g) mod ?m" "fst (rand g) mod ?m \<le> upper - lower"
    using pos pos_mod_bound [OF pos, of "fst (rand g)"] by simp_all
  show "lower \<le> draw lower upper g" "draw lower upper g \<le> upper"
    using b by (simp_all add: draw_def)
  have c: "c_int (fst (rand g) mod ?m + lower) = Some (draw lower upper g)"
    unfolding c_int_def draw_def using b assms by (intro if_P conjI) linarith+
  have "c_int (upper - lower) = Some (upper - lower)" "c_int ?m = Some ?m" "\<bar>?m\<bar> = ?m" "?m \<noteq> 0"
    using assms by (simp_all add: c_int_def)
  moreover have "rand g = (fst (rand g), g\<lparr>drawn := drawn g + 1\<rparr>)"
    by (simp add: rand_def)
  ultimately show "range_rand lower upper g = Some (draw lower upper g, g\<lparr>drawn := drawn g + 1\<rparr>)"
    using c unfolding range_rand_def by (simp add: case_prod_beta Let_def) (metis snd_conv)
qed

end
