(* ===== verification/Hash_Jen.thy ===== *)
theory Hash_Jen
  imports Prelude
begin

text \<open>
  The hash function of uthash (\<open>include/uthash.h\<close>): the bytes of a key in memory,
  Bob Jenkins' mixing step \<open>HASH_JEN_MIX\<close>, the function \<open>HASH_JEN\<close> over a byte
  string, \<open>HASH_VALUE\<close> (which is \<open>HASH_FCN = HASH_JEN\<close> as no \<open>HASH_FUNCTION\<close>
  is configured) and \<open>HASH_TO_BKT\<close>, the bucket of a hash value.
\<close>

unbundle bit_operations_syntax

subsection \<open>Keys as bytes\<close>

text \<open>
  \<open>record_key_t\<close> holds one \<open>unsigned long\<close>. The hash and \<open>memcmp\<close> see its eight
  bytes, least significant first (the build targets x86-64).
\<close>

definition sizeof_record_key_t :: nat where
  "sizeof_record_key_t = 8"

definition key_bytes :: "u64 \<Rightarrow> u8 list" where
  "key_bytes k = map (\<lambda>i. ucast (drop_bit (8 * i) k)) [0..<sizeof_record_key_t]"

lemma length_key_bytes [simp]: "length (key_bytes k) = 8"
  by (simp add: key_bytes_def sizeof_record_key_t_def)

lemma key_bytes_inject [simp]: "key_bytes j = key_bytes k \<longleftrightarrow> j = k"
proof
  assume eq: "key_bytes j = key_bytes k"
  show "j = k"
  proof (rule bit_word_eqI)
    fix n :: nat
    assume n: "n < LENGTH(64)"
    have div: "n div 8 < 8" using n by simp
    have "key_bytes j ! (n div 8) = key_bytes k ! (n div 8)" using eq by simp
    then have b: "(ucast (drop_bit (8 * (n div 8)) j) :: u8) = ucast (drop_bit (8 * (n div 8)) k)"
      using n div by (simp add: key_bytes_def sizeof_record_key_t_def)
    have "bit (ucast (drop_bit (8 * (n div 8)) j) :: u8) (n mod 8) =
          bit (ucast (drop_bit (8 * (n div 8)) k) :: u8) (n mod 8)"
      using b by simp
    then show "bit j n = bit k n"
      by (simp add: bit_unsigned_iff bit_drop_bit_eq mult.commute)
  qed
qed simp

subsection \<open>The mixing step\<close>

text \<open>
  \<open>HASH_JEN_MIX\<close> repeats three kinds of statement with different shift amounts, in the
  state \<open>(a, b, c)\<close>: \<open>a -= b; a -= c; a ^= (c >> s)\<close>, then the same for \<open>b\<close>, with
  a left shift of \<open>a\<close>, then for \<open>c\<close>, with a right shift of \<open>b\<close>.
\<close>

fun mix_a :: "nat \<Rightarrow> u32 \<times> u32 \<times> u32 \<Rightarrow> u32 \<times> u32 \<times> u32" where
  "mix_a s (a, b, c) = ((a - b - c) XOR drop_bit s c, b, c)"

fun mix_b :: "nat \<Rightarrow> u32 \<times> u32 \<times> u32 \<Rightarrow> u32 \<times> u32 \<times> u32" where
  "mix_b s (a, b, c) = (a, (b - c - a) XOR push_bit s a, c)"

fun mix_c :: "nat \<Rightarrow> u32 \<times> u32 \<times> u32 \<Rightarrow> u32 \<times> u32 \<times> u32" where
  "mix_c s (a, b, c) = (a, b, (c - a - b) XOR drop_bit s b)"

definition HASH_JEN_MIX :: "u32 \<times> u32 \<times> u32 \<Rightarrow> u32 \<times> u32 \<times> u32" where
  "HASH_JEN_MIX abc =
     mix_c 15 (mix_b 10 (mix_a 3
    (mix_c 5 (mix_b 16 (mix_a 12
    (mix_c 13 (mix_b 8 (mix_a 13 abc))))))))"

subsection \<open>The hash of a byte string\<close>

definition byte_at :: "u8 list \<Rightarrow> nat \<Rightarrow> nat \<Rightarrow> u32" where
  "byte_at key n s = push_bit s (ucast (key ! n))"

definition word_at :: "u8 list \<Rightarrow> nat \<Rightarrow> u32" where
  "word_at key n = byte_at key n 0 + byte_at key (n + 1) 8 + byte_at key (n + 2) 16 + byte_at key (n + 3) 24"

text \<open>
  The main loop: while \<open>_hj_k >= 12\<close>, three words are added and mixed, and \<open>_hj_key\<close>
  moves on. The remaining length \<open>_hj_k\<close> is the length of the remaining string. The
  state is \<open>(_hj_i, _hj_j, hashv)\<close>.
\<close>

function jen_loop :: "u8 list \<Rightarrow> u32 \<times> u32 \<times> u32 \<Rightarrow> u8 list \<times> (u32 \<times> u32 \<times> u32)" where
  "jen_loop key (i, j, hashv) =
     (if 12 \<le> length key
      then jen_loop (drop 12 key)
             (HASH_JEN_MIX (i + word_at key 0, j + word_at key 4, hashv + word_at key 8))
      else (key, (i, j, hashv)))"
  by pat_completeness auto
termination
  by (relation "measure (\<lambda>(key, st). length key)") auto

declare jen_loop.simps [simp del]

text \<open>
  The final \<open>switch\<close> falls through from case \<open>_hj_k\<close> down to case 1, so the statement
  of case \<open>m\<close> runs exactly when \<open>m\<close> is at most the remaining length.
\<close>

definition jen_tail :: "u8 list \<Rightarrow> u32 \<times> u32 \<times> u32 \<Rightarrow> u32 \<times> u32 \<times> u32" where
  "jen_tail key = (\<lambda>(i, j, hashv).
     let k = length key;
         hashv = (if 11 \<le> k then hashv + byte_at key 10 24 else hashv);
         hashv = (if 10 \<le> k then hashv + byte_at key 9 16 else hashv);
         hashv = (if 9 \<le> k then hashv + byte_at key 8 8 else hashv);
         j = (if 8 \<le> k then j + byte_at key 7 24 else j);
         j = (if 7 \<le> k then j + byte_at key 6 16 else j);
         j = (if 6 \<le> k then j + byte_at key 5 8 else j);
         j = (if 5 \<le> k then j + byte_at key 4 0 else j);
         i = (if 4 \<le> k then i + byte_at key 3 24 else i);
         i = (if 3 \<le> k then i + byte_at key 2 16 else i);
         i = (if 2 \<le> k then i + byte_at key 1 8 else i);
         i = (if 1 \<le> k then i + byte_at key 0 0 else i)
     in (i, j, hashv))"

definition HASH_JEN :: "u8 list \<Rightarrow> u32" where
  "HASH_JEN key =
     (case jen_loop key (0x9e3779b9, 0x9e3779b9, 0xfeedbeef) of (rest, (i, j, hashv)) \<Rightarrow>
        snd (snd (HASH_JEN_MIX (jen_tail rest (i, j, hashv + of_nat (length key))))))"

definition HASH_VALUE :: "u64 \<Rightarrow> u32" where
  "HASH_VALUE k = HASH_JEN (key_bytes k)"

text \<open>
  The bytes the loop leaves are a suffix of the key shorter than a block, so every index
  the \<open>switch\<close> reads is inside the key.
\<close>

lemma jen_loop_rest:
  "\<exists>pre. key = pre @ fst (jen_loop key st) \<and> length (fst (jen_loop key st)) = length key mod 12"
proof (induction key st rule: jen_loop.induct)
  case (1 key i j hashv)
  show ?case
  proof (cases "12 \<le> length key")
    case True
    let ?st = "HASH_JEN_MIX (i + word_at key 0, j + word_at key 4, hashv + word_at key 8)"
    obtain pre where "drop 12 key = pre @ fst (jen_loop (drop 12 key) ?st)"
      and l: "length (fst (jen_loop (drop 12 key) ?st)) = length (drop 12 key) mod 12"
      using 1 [OF True] by blast
    then have "key = (take 12 key @ pre) @ fst (jen_loop (drop 12 key) ?st)"
      by (metis append.assoc append_take_drop_id)
    moreover have "(length key - 12) mod 12 = length key mod 12"
      using True by (simp add: le_mod_geq)
    moreover have "jen_loop key (i, j, hashv) = jen_loop (drop 12 key) ?st"
      using True by (subst jen_loop.simps) simp
    ultimately show ?thesis
      using True l by (intro exI [of _ "take 12 key @ pre"]) simp
  next
    case False
    then show ?thesis by (simp add: jen_loop.simps)
  qed
qed

text \<open>
  On the keys of the session table (eight bytes) the loop body never runs: the hash is one
  mixing step of the two halves of the key.
\<close>

lemma HASH_VALUE_eq:
  "HASH_VALUE k = snd (snd (HASH_JEN_MIX
     (jen_tail (key_bytes k) (0x9e3779b9, 0x9e3779b9, 0xfeedbeef + 8))))"
  by (simp add: HASH_VALUE_def HASH_JEN_def jen_loop.simps)

text \<open>The equations that evaluate the hash of a concrete key with the simplifier.\<close>

lemmas hash_eval = HASH_VALUE_eq HASH_JEN_MIX_def jen_tail_def byte_at_def key_bytes_def
  sizeof_record_key_t_def upt_rec nth_Cons'

subsection \<open>Buckets\<close>

definition HASH_TO_BKT :: "u32 \<Rightarrow> nat \<Rightarrow> nat" where
  "HASH_TO_BKT hashv num_bkts = unat (hashv AND (of_nat num_bkts - 1))"

text \<open>The bucket index is inside the bucket array, whatever the number of buckets is.\<close>

lemma HASH_TO_BKT_less [simp]:
  assumes "0 < n"
  shows "HASH_TO_BKT hashv n < n"
proof -
  have le: "HASH_TO_BKT hashv n \<le> unat (of_nat n - 1 :: u32)"
    unfolding HASH_TO_BKT_def by (rule word_and_le1 [THEN word_le_nat_alt [THEN iffD1]])
  show ?thesis
  proof (cases "(of_nat n :: u32) = 0")
    case True
    then have "2 ^ 32 dvd n" by (simp add: word_of_nat_eq_0_iff)
    then have "2 ^ 32 \<le> n" using assms by (rule dvd_imp_le)
    moreover have "HASH_TO_BKT hashv n < 2 ^ 32"
      unfolding HASH_TO_BKT_def by (rule order_less_le_trans [OF unsigned_less]) simp
    ultimately show ?thesis by linarith
  next
    case False
    then have "unat (of_nat n - 1 :: u32) < unat (of_nat n :: u32)"
      by (metis word_less_nat_alt word_less_sub1 unat_minus_one diff_less unat_gt_0 zero_less_one)
    also have "\<dots> \<le> n" by (simp add: unat_of_nat)
    finally show ?thesis using le by linarith
  qed
qed

end
