(* ===== verification/Linked.thy ===== *)
theory Linked
  imports Prelude
begin

text \<open>
  Doubly linked lists on the heap: segments of linked cells (\<open>dseg\<close>), and the interface
  \<open>dlist\<close> of a record type with a backward and a forward pointer. uthash threads two such
  lists through each element, the app order and the chain of its bucket; both are
  interpretations of \<open>dlist\<close> and share its proofs of pushing, appending and unlinking.
\<close>

subsection \<open>Doubly linked segments\<close>

text \<open>
  \<open>links\<close> gives, for each address, the backward and the forward pointer of the cell
  there. \<open>dseg l b p xs e q\<close>: starting at pointer \<open>p\<close>, with \<open>b\<close> the backward
  pointer of its first cell, the cells \<open>xs\<close> are linked in this order; \<open>e\<close> is the
  last cell (or \<open>b\<close> when there is none) and \<open>q\<close> the forward pointer that leaves it.
\<close>

type_synonym links = "addr \<Rightarrow> (ptr \<times> ptr) option"

fun dseg :: "links \<Rightarrow> ptr \<Rightarrow> ptr \<Rightarrow> addr list \<Rightarrow> ptr \<Rightarrow> ptr \<Rightarrow> bool" where
  "dseg l b p [] e q \<longleftrightarrow> e = b \<and> q = p"
| "dseg l b p (a # as) e q \<longleftrightarrow>
     p = Some a \<and> (\<exists>nx. l a = Some (b, nx) \<and> dseg l (Some a) nx as e q)"

lemma in_set_tlD: "c \<in> set (List.tl ys) \<Longrightarrow> c \<in> set ys"
  by (cases ys) auto

lemma dseg_append:
  "dseg l b p (xs @ ys) e q \<longleftrightarrow> (\<exists>m r. dseg l b p xs m r \<and> dseg l m r ys e q)"
  by (induction xs arbitrary: b p) auto

lemma dseg_cong:
  "(\<And>a. a \<in> set xs \<Longrightarrow> l' a = l a) \<Longrightarrow> dseg l' b p xs e q \<longleftrightarrow> dseg l b p xs e q"
  by (induction xs arbitrary: b p) auto

lemma dseg_last: "dseg l b p xs e q \<Longrightarrow> e = (if xs = [] then b else Some (last xs))"
  by (induction xs arbitrary: b p) auto

lemma dseg_first: "dseg l b p xs e q \<Longrightarrow> p = (if xs = [] then q else Some (hd xs))"
  by (cases xs) auto

lemma dseg_dom: "dseg l b p xs e q \<Longrightarrow> a \<in> set xs \<Longrightarrow> l a \<noteq> None"
  by (induction xs arbitrary: b p) auto

text \<open>The links of a cell inside a segment are its neighbours.\<close>

lemma dseg_mid:
  assumes "dseg l b p (xs @ a # ys) e q"
  shows "l a = Some (if xs = [] then b else Some (last xs), if ys = [] then q else Some (hd ys))"
proof -
  obtain m r where "dseg l b p xs m r" and "dseg l m r (a # ys) e q"
    using assms by (auto simp: dseg_append)
  then show ?thesis
    using dseg_last [of l b p xs m r] by (cases ys) auto
qed

text \<open>Changing only the forward pointer of the last cell changes where the segment leads.\<close>

lemma dseg_relink_last:
  assumes "dseg l b p (xs @ [a]) e q" and "a \<notin> set xs"
    and "l' a = map_option (\<lambda>(pv, nx). (pv, q')) (l a)"
    and "\<And>c. c \<in> set xs \<Longrightarrow> l' c = l c"
  shows "dseg l' b p (xs @ [a]) e q'"
proof -
  obtain m r where "dseg l b p xs m r" and "dseg l m r [a] e q"
    using assms(1) by (auto simp: dseg_append)
  moreover from this(1) have "dseg l' b p xs m r"
    using assms(4) dseg_cong by metis
  ultimately show ?thesis
    using assms(3) by (auto simp: dseg_append)
qed

text \<open>Changing only the backward pointer of the first cell.\<close>

lemma dseg_relink_first:
  assumes "dseg l b p (a # ys) e q" and "a \<notin> set ys"
    and "l' a = map_option (\<lambda>(pv, nx). (b', nx)) (l a)"
    and "\<And>c. c \<in> set ys \<Longrightarrow> l' c = l c"
  shows "dseg l' b' p (a # ys) e q"
proof -
  obtain nx where "p = Some a" "l a = Some (b, nx)" and ys: "dseg l (Some a) nx ys e q"
    using assms(1) by auto
  moreover have "dseg l' (Some a) nx ys e q"
    using ys assms(4) dseg_cong by metis
  ultimately show ?thesis
    using assms(3) by auto
qed

text \<open>Pushing a cell in front of a list.\<close>

lemma dseg_push:
  assumes "dseg l None p xs e None" and "a \<notin> set xs" and "distinct xs"
    and "l' a = Some (None, p)"
    and "\<And>c. c \<in> set xs \<Longrightarrow> Some c = p \<Longrightarrow> l' c = map_option (\<lambda>(pv, nx). (Some a, nx)) (l c)"
    and "\<And>c. c \<in> set xs \<Longrightarrow> Some c \<noteq> p \<Longrightarrow> l' c = l c"
  shows "\<exists>e'. dseg l' None (Some a) (a # xs) e' None"
proof (cases xs)
  case Nil
  then show ?thesis using assms by auto
next
  case (Cons c cs)
  then have pc: "p = Some c" using assms(1) by simp
  have "dseg l' (Some a) p (c # cs) e None"
  proof (rule dseg_relink_first [where l = l and b = None])
    show "dseg l None p (c # cs) e None" using assms(1) Cons by simp
    show "c \<notin> set cs" using assms(3) Cons by simp
    show "l' c = map_option (\<lambda>(pv, nx). (Some a, nx)) (l c)" using assms(5) [of c] pc Cons by simp
    show "\<And>d. d \<in> set cs \<Longrightarrow> l' d = l d"
    proof -
      fix d assume "d \<in> set cs"
      then have "Some d \<noteq> p" using pc assms(3) Cons by auto
      with \<open>d \<in> set cs\<close> show "l' d = l d" using assms(6) Cons by simp
    qed
  qed
  then show ?thesis using assms(4) Cons by auto
qed

text \<open>Appending a cell at the end of a list.\<close>

lemma dseg_snoc:
  assumes "dseg l None p (xs @ [c]) (Some c) None" and "c \<notin> set xs" and "a \<notin> set (xs @ [c])"
    and "l' a = Some (Some c, None)"
    and "l' c = map_option (\<lambda>(pv, nx). (pv, Some a)) (l c)"
    and "\<And>d. d \<in> set xs \<Longrightarrow> l' d = l d"
  shows "dseg l' None p ((xs @ [c]) @ [a]) (Some a) None"
proof -
  have "dseg l' None p (xs @ [c]) (Some c) (Some a)"
    by (rule dseg_relink_last [OF assms(1,2)]) (use assms in auto)
  then show ?thesis
    using assms(4) by (subst dseg_append) auto
qed

text \<open>Unlinking a cell: the cell before it and the cell after it are joined.\<close>

lemma dseg_unlink:
  assumes seg: "dseg l None p (xs @ a # ys) e None" and dist: "distinct (xs @ a # ys)"
    and pv: "xs \<noteq> [] \<Longrightarrow> l' (last xs) =
        map_option (\<lambda>(v, nx). (v, if ys = [] then None else Some (hd ys))) (l (last xs))"
    and nx: "ys \<noteq> [] \<Longrightarrow> l' (hd ys) =
        map_option (\<lambda>(v, nx). (if xs = [] then None else Some (last xs), nx)) (l (hd ys))"
    and same: "\<And>c. c \<in> set (butlast xs) \<union> set (tl ys) \<Longrightarrow> l' c = l c"
  shows "dseg l' None (if xs = [] then (if ys = [] then None else Some (hd ys)) else p) (xs @ ys)
           (if ys = [] then (if xs = [] then None else Some (last xs)) else e) None"
proof -
  let ?m = "if xs = [] then None else Some (last xs)"
  let ?r = "if ys = [] then None else Some (hd ys)"
  obtain m r where xs: "dseg l None p xs m r" and ays: "dseg l m r (a # ys) e None"
    using seg by (auto simp: dseg_append)
  have m: "m = ?m" using dseg_last [OF xs] by simp
  obtain r' where r': "dseg l (Some a) r' ys e None"
    using ays by auto
  have rr: "r' = ?r" using dseg_first [OF r'] by simp
  have xs': "dseg l' None (if xs = [] then ?r else p) xs ?m ?r"
  proof (cases "xs = []")
    case True
    then show ?thesis by simp
  next
    case False
    then have eq: "xs = butlast xs @ [last xs]" by simp
    have d: "distinct (butlast xs @ [last xs])"
      using dist False by simp
    have "dseg l' None p (butlast xs @ [last xs]) m ?r"
    proof (rule dseg_relink_last)
      show "dseg l None p (butlast xs @ [last xs]) m r" using xs False by simp
      show "last xs \<notin> set (butlast xs)" using d by simp
      show "l' (last xs) = map_option (\<lambda>(pv, nx). (pv, ?r)) (l (last xs))" using pv [OF False] .
      show "\<And>c. c \<in> set (butlast xs) \<Longrightarrow> l' c = l c" using same by blast
    qed
    then show ?thesis using False m by simp
  qed
  have ys': "dseg l' ?m ?r ys (if ys = [] then ?m else e) None"
  proof (cases ys)
    case Nil
    then show ?thesis by simp
  next
    case (Cons c cs)
    have "dseg l' ?m r' (c # cs) e None"
    proof (rule dseg_relink_first)
      show "dseg l (Some a) r' (c # cs) e None" using r' Cons by simp
      show "c \<notin> set cs" using dist Cons by simp
      show "l' c = map_option (\<lambda>(pv, nx). (?m, nx)) (l c)" using nx Cons by simp
      show "\<And>d. d \<in> set cs \<Longrightarrow> l' d = l d" using same Cons by simp
    qed
    then show ?thesis using rr Cons by simp
  qed
  show ?thesis
    unfolding dseg_append using xs' ys' by blast
qed

subsection \<open>Cells with two pointers\<close>

definition links_of :: "('n \<Rightarrow> ptr) \<Rightarrow> ('n \<Rightarrow> ptr) \<Rightarrow> 'n memory \<Rightarrow> links" where
  "links_of pv nx h a = map_option (\<lambda>n. (pv n, nx n)) (h a)"

lemma links_of_Some [simp]: "h a = Some n \<Longrightarrow> links_of pv nx h a = Some (pv n, nx n)"
  by (simp add: links_of_def)

lemma links_of_iff: "links_of pv nx h a = Some (b, r) \<longleftrightarrow> (\<exists>n. h a = Some n \<and> pv n = b \<and> nx n = r)"
  by (auto simp: links_of_def)

lemma dseg_alloc: "dseg (links_of pv nx h) b p xs e q \<Longrightarrow> a \<in> set xs \<Longrightarrow> \<exists>n. h a = Some n"
  using dseg_dom [of "links_of pv nx h"] by (fastforce simp: links_of_def)

locale dlist =
  fixes pv nx :: "'n \<Rightarrow> ptr" and set_pv set_nx :: "ptr \<Rightarrow> 'n \<Rightarrow> 'n"
  assumes pv_set_pv: "pv (set_pv p n) = p"
    and nx_set_pv: "nx (set_pv p n) = nx n"
    and pv_set_nx: "pv (set_nx p n) = pv n"
    and nx_set_nx: "nx (set_nx p n) = p"
begin

lemmas laws = pv_set_pv nx_set_pv pv_set_nx nx_set_nx

lemma push:
  assumes seg: "dseg (links_of pv nx h) None p xs e None" and d: "distinct xs" "a \<notin> set xs"
    and n: "pv n = None" "nx n = p"
  shows "\<exists>h' e'. modify_if p (set_pv (Some a)) (h(a := Some n)) = Some h' \<and>
    dseg (links_of pv nx h') None (Some a) (a # xs) e' None \<and>
    (\<forall>c. c \<notin> set xs \<longrightarrow> h' c = (h(a := Some n)) c)"
proof (cases xs)
  case Nil
  then show ?thesis using seg n by (auto simp: links_of_def)
next
  case (Cons c cs)
  then have p: "p = Some c" using seg by simp
  obtain m where m: "h c = Some m" using dseg_alloc [OF seg, of c] Cons by auto
  define h' where "h' = h(a := Some n, c := Some (set_pv (Some a) m))"
  have ca: "c \<noteq> a" using d Cons by auto
  have run: "modify_if p (set_pv (Some a)) (h(a := Some n)) = Some h'"
    using p m ca by (simp add: h'_def)
  have "\<exists>e'. dseg (links_of pv nx h') None (Some a) (a # xs) e' None"
    by (rule dseg_push [OF seg d(2,1)]) (use p m n ca d in \<open>auto simp: h'_def links_of_def laws\<close>)
  moreover have "\<forall>b. b \<notin> set xs \<longrightarrow> h' b = (h(a := Some n)) b"
    using Cons by (simp add: h'_def)
  ultimately show ?thesis using run by blast
qed

lemma snoc:
  assumes seg: "dseg (links_of pv nx h) None p xs t None" and d: "distinct xs" "a \<notin> set xs"
    and ne: "xs \<noteq> []" and n: "pv n = t" "nx n = None"
  shows "\<exists>h'. modify t (set_nx (Some a)) (h(a := Some n)) = Some h' \<and>
    dseg (links_of pv nx h') None p (xs @ [a]) (Some a) None \<and>
    (\<forall>c. c \<notin> set xs \<longrightarrow> h' c = (h(a := Some n)) c)"
proof -
  obtain ys c where xs: "xs = ys @ [c]" using ne by (cases xs rule: rev_cases) auto
  have t: "t = Some c" using dseg_last [OF seg] xs by simp
  obtain m where m: "h c = Some m" using dseg_alloc [OF seg, of c] xs by auto
  have ca: "c \<noteq> a" "c \<notin> set ys" using d xs by auto
  define h' where "h' = h(a := Some n, c := Some (set_nx (Some a) m))"
  have run: "modify t (set_nx (Some a)) (h(a := Some n)) = Some h'"
    using t m ca by (simp add: h'_def)
  have "dseg (links_of pv nx h') None p ((ys @ [c]) @ [a]) (Some a) None"
    by (rule dseg_snoc [where l = "links_of pv nx h"])
      (use seg t m n ca d xs in \<open>auto simp: h'_def links_of_def laws\<close>)
  then show ?thesis using run xs by (auto simp: h'_def)
qed

lemma unlink:
  assumes seg: "dseg (links_of pv nx h) None p (xs @ a # ys) e None"
    and d: "distinct (xs @ a # ys)" and n: "h a = Some n"
  shows "pv n = (if xs = [] then None else Some (last xs))"
    and "nx n = (if ys = [] then None else Some (hd ys))"
    and "\<exists>h1 h2. modify_if (pv n) (set_nx (nx n)) h = Some h1 \<and> h1 a = Some n \<and>
      modify_if (nx n) (set_pv (pv n)) h1 = Some h2 \<and> h2 a = Some n \<and>
      dseg (links_of pv nx h2) None (if xs = [] then nx n else p) (xs @ ys)
        (if ys = [] then pv n else e) None \<and>
      (\<forall>c. c \<notin> set (xs @ ys) \<longrightarrow> h2 c = h c)"
proof -
  show pvn: "pv n = (if xs = [] then None else Some (last xs))"
    and nxn: "nx n = (if ys = [] then None else Some (hd ys))"
    using dseg_mid [OF seg] n by simp_all
  have ne: "last xs \<noteq> a" "last xs \<notin> set ys" if "xs \<noteq> []" using that d last_in_set [OF that] by (auto simp: disjoint_iff)
  have ne': "hd ys \<noteq> a" "hd ys \<notin> set xs" if "ys \<noteq> []" using that d hd_in_set [OF that] by (auto simp: disjoint_iff)
  have alloc: "\<exists>m. h c = Some m" if "c \<in> set (xs @ a # ys)" for c using dseg_alloc [OF seg that] .
  define h1 where "h1 c = (if xs \<noteq> [] \<and> c = last xs then map_option (set_nx (nx n)) (h c) else h c)" for c
  define h2 where "h2 c = (if ys \<noteq> [] \<and> c = hd ys then map_option (set_pv (pv n)) (h1 c) else h1 c)" for c
  have r1: "modify_if (pv n) (set_nx (nx n)) h = Some h1"
    using pvn alloc [of "last xs"] by (auto simp: h1_def fun_eq_iff)
  have a1: "h1 a = Some n" using n ne by (auto simp: h1_def)
  have alloc1: "\<exists>m. h1 c = Some m" if "c \<in> set (xs @ a # ys)" for c
    using alloc [OF that] by (auto simp: h1_def)
  have r2: "modify_if (nx n) (set_pv (pv n)) h1 = Some h2"
    using nxn alloc1 [of "hd ys"] by (auto simp: h2_def fun_eq_iff)
  have a2: "h2 a = Some n" using a1 ne' by (auto simp: h2_def)
  have last_notin: "last xs \<notin> set (butlast xs)" if "xs \<noteq> []"
    using that d by (metis append_butlast_last_id distinct_append not_distinct_conv_prefix)
  have hd_notin: "hd ys \<notin> set (tl ys)" if "ys \<noteq> []"
    using that d by (cases ys) auto
  have "dseg (links_of pv nx h2) None (if xs = [] then (if ys = [] then None else Some (hd ys)) else p)
      (xs @ ys) (if ys = [] then (if xs = [] then None else Some (last xs)) else e) None"
  proof (rule dseg_unlink [OF seg d])
    show "links_of pv nx h2 (last xs) = map_option (\<lambda>(v, nx). (v, if ys = [] then None else Some (hd ys)))
        (links_of pv nx h (last xs))" if "xs \<noteq> []"
      using that ne nxn alloc [of "last xs"] by (auto simp: links_of_def h2_def h1_def laws)
    show "links_of pv nx h2 (hd ys) = map_option (\<lambda>(v, nx). (if xs = [] then None else Some (last xs), nx))
        (links_of pv nx h (hd ys))" if "ys \<noteq> []"
      using that ne' pvn alloc [of "hd ys"] by (auto simp: links_of_def h2_def h1_def laws)
    show "links_of pv nx h2 c = links_of pv nx h c" if "c \<in> set (butlast xs) \<union> set (tl ys)" for c
    proof -
      have "\<not> (xs \<noteq> [] \<and> c = last xs)" "\<not> (ys \<noteq> [] \<and> c = hd ys)"
        using that last_notin hd_notin ne ne' in_set_butlastD [of c xs] in_set_tlD [of c ys] by auto
      then show ?thesis by (auto simp: links_of_def h2_def h1_def)
    qed
  qed
  then have seg2: "dseg (links_of pv nx h2) None (if xs = [] then nx n else p) (xs @ ys)
      (if ys = [] then pv n else e) None"
    unfolding pvn nxn by (cases "xs = []"; cases "ys = []") simp_all
  have "h2 c = h c" if "c \<notin> set (xs @ ys)" for c
    using that last_in_set [of xs] hd_in_set [of ys] by (auto simp: h2_def h1_def)
  then show "\<exists>h1 h2. modify_if (pv n) (set_nx (nx n)) h = Some h1 \<and> h1 a = Some n \<and>
      modify_if (nx n) (set_pv (pv n)) h1 = Some h2 \<and> h2 a = Some n \<and>
      dseg (links_of pv nx h2) None (if xs = [] then nx n else p) (xs @ ys)
        (if ys = [] then pv n else e) None \<and>
      (\<forall>c. c \<notin> set (xs @ ys) \<longrightarrow> h2 c = h c)"
    using r1 a1 r2 a2 seg2 by blast
qed

lemma insert_before:
  assumes seg: "dseg (links_of pv nx h) None p (xs @ c # ys) e None" and d: "distinct (xs @ c # ys)" "a \<notin> set (xs @ c # ys)"
    and m: "h c = Some m" and n: "pv n = pv m" "nx n = Some c"
  shows "\<exists>h1 h2. modify_if (pv m) (set_nx (Some a)) (h(a := Some n)) = Some h1 \<and> h1 c = Some m \<and>
    modify (Some c) (set_pv (Some a)) h1 = Some h2 \<and>
    dseg (links_of pv nx h2) None (if xs = [] then Some a else p) (xs @ a # c # ys) e None \<and>
    (\<forall>b. b \<notin> set (xs @ c # ys) \<longrightarrow> h2 b = (h(a := Some n)) b)"
proof -
  let ?l = "links_of pv nx h"
  have pm: "pv m = (if xs = [] then None else Some (last xs))"
    using dseg_mid [OF seg] m by simp
  obtain b r where xs: "dseg ?l None p xs b r" and cys: "dseg ?l b r (c # ys) e None"
    using seg by (auto simp: dseg_append)
  have b: "b = pv m" using cys m by auto
  have ys: "dseg ?l (Some c) (nx m) ys e None" using cys m by auto
  define h1 where "h1 x = (if xs \<noteq> [] \<and> x = last xs then map_option (set_nx (Some a)) (h x) else (h(a := Some n)) x)" for x
  define h2 where "h2 = h1(c := Some (set_pv (Some a) m))"
  have ne: "last xs \<noteq> c" "last xs \<noteq> a" "last xs \<notin> set ys" if "xs \<noteq> []"
    using that d last_in_set [OF that] by (auto simp: disjoint_iff)
  have ca: "c \<noteq> a" using d(2) by auto
  obtain k where k: "h (last xs) = Some k" if "xs \<noteq> []"
    using dseg_alloc [OF seg, of "last xs"] by (cases "xs = []") auto
  have r1: "modify_if (pv m) (set_nx (Some a)) (h(a := Some n)) = Some h1"
    using pm k ne by (auto simp: h1_def fun_eq_iff)
  have c1: "h1 c = Some m" using m ne ca by (auto simp: h1_def)
  have l: "links_of pv nx h2 a = Some (pv m, Some c)" "links_of pv nx h2 c = Some (Some a, nx m)"
    "xs \<noteq> [] \<Longrightarrow> links_of pv nx h2 (last xs) = map_option (\<lambda>(v, r). (v, Some a)) (?l (last xs))"
    "\<And>x. x \<in> set ys \<Longrightarrow> links_of pv nx h2 x = ?l x"
    using ne ca n m k d by (auto simp: h2_def h1_def links_of_def laws)
  have xs': "dseg (links_of pv nx h2) None (if xs = [] then Some a else p) xs b (Some a)"
  proof (cases xs rule: rev_cases)
    case Nil
    then show ?thesis using b pm by simp
  next
    case (snoc zs z)
    have "dseg (links_of pv nx h2) None p (zs @ [z]) b (Some a)"
    proof (rule dseg_relink_last)
      show "dseg ?l None p (zs @ [z]) b r" using xs snoc by simp
      show "z \<notin> set zs" using d snoc by simp
      show "links_of pv nx h2 z = map_option (\<lambda>(pv, nx). (pv, Some a)) (?l z)" using l(3) snoc by simp
      show "links_of pv nx h2 x = ?l x" if "x \<in> set zs" for x
        using that d snoc by (auto simp: h2_def h1_def links_of_def)
    qed
    then show ?thesis using snoc by simp
  qed
  have "dseg (links_of pv nx h2) (Some c) (nx m) ys e None"
    using ys l(4) dseg_cong by metis
  then have "dseg (links_of pv nx h2) b (Some a) (a # c # ys) e None" using l(1,2) b by simp
  then have "dseg (links_of pv nx h2) None (if xs = [] then Some a else p) (xs @ a # c # ys) e None"
    unfolding dseg_append using xs' by blast
  moreover have "\<forall>x. x \<notin> set (xs @ c # ys) \<longrightarrow> h2 x = (h(a := Some n)) x"
    by (auto simp: h2_def h1_def)
  ultimately show ?thesis using r1 c1 by (auto simp: h2_def)
qed

end

end
