(* ===== verification/Uthash.thy ===== *)
theory Uthash
  imports Hash_Jen Linked
begin

text \<open>
  The hash table of \<open>include/uthash.h\<close>, as the macros the server uses: a table of
  buckets, each the head of a doubly linked chain, and across all elements a doubly
  linked list in insertion order ("app order"). Both lists are threaded through the
  \<open>UT_hash_handle\<close> embedded in every element, so this is modelled on a heap of
  elements with their pointers.

  An element is any record that extends \<open>ut_node\<close>, which holds the embedded handle and
  the key it points to (\<open>hh.key\<close> points into the same element). The conversions between
  the address of an element and of its handle (\<open>ELMT_FROM_HH\<close>, \<open>HH_FROM_ELMT\<close>, a fixed
  offset \<open>hho\<close>) are the identity: both are named by the element's address. There is one
  hash in the program; its \<open>UT_hash_table\<close>, which C reaches through the \<open>tbl\<close> pointer
  of every handle, is a field of the state, absent while it is not allocated.
  Counters are natural numbers (\<open>Uthash_Width\<close> has the expansion of the buckets at the width of the counters,
  which agrees below \<open>2^31\<close> buckets and elements); hash values are 32-bit words. An allocation of the table or
  of its buckets succeeds (otherwise \<open>uthash_fatal\<close> ends the process). Bloom filters,
  \<open>HASH_DEBUG\<close> and \<open>HASH_EMIT_KEYS\<close> are not configured in the build.
\<close>

subsection \<open>Data\<close>

record ut_node =
  key :: u64              \<comment> \<open>\<open>record_key_t\<close>: the session id\<close>
  prev :: ptr             \<comment> \<open>previous element in app order\<close>
  nxt :: ptr              \<comment> \<open>\<open>next\<close>: next element in app order\<close>
  hh_prev :: ptr          \<comment> \<open>previous handle in bucket order\<close>
  hh_next :: ptr          \<comment> \<open>next handle in bucket order\<close>
  keylen :: nat
  hashv :: u32

record UT_hash_bucket =
  hh_head :: ptr
  bcount :: nat           \<comment> \<open>\<open>count\<close>\<close>
  expand_mult :: nat

record UT_hash_table =
  buckets :: "UT_hash_bucket list"
  num_buckets :: nat
  log2_num_buckets :: nat
  num_items :: nat
  tail :: ptr
  ideal_chain_maxlen :: nat
  nonideal_items :: nat
  ineff_expands :: nat
  noexpand :: nat

record 'n uthash =
  heap :: "'n memory"
  head :: ptr
  tbl :: "UT_hash_table option"

definition HASH_INITIAL_NUM_BUCKETS :: nat where
  "HASH_INITIAL_NUM_BUCKETS = 32"

definition HASH_INITIAL_NUM_BUCKETS_LOG2 :: nat where
  "HASH_INITIAL_NUM_BUCKETS_LOG2 = 5"

definition HASH_BKT_CAPACITY_THRESH :: nat where
  "HASH_BKT_CAPACITY_THRESH = 10"

definition zero_bucket :: UT_hash_bucket where
  "zero_bucket = \<lparr>hh_head = None, bcount = 0, expand_mult = 0\<rparr>"

subsection \<open>HASH_COUNT\<close>

definition HASH_COUNT :: "'a ut_node_scheme uthash \<Rightarrow> nat option" where
  "HASH_COUNT u =
     (if head u \<noteq> None
      then do { _ \<leftarrow> deref (heap u) (head u); t \<leftarrow> tbl u; Some (num_items t) }
      else Some 0)"

subsection \<open>HASH_FIND\<close>

text \<open>
  \<open>HASH_FIND_IN_BKT\<close>: walk the chain until an element with the same hash, the same key
  length and the same key bytes (\<open>HASH_KEYCMP\<close> is \<open>memcmp\<close>).
\<close>

partial_function (option) HASH_FIND_IN_BKT ::
  "'a ut_node_scheme memory \<Rightarrow> u64 \<Rightarrow> nat \<Rightarrow> u32 \<Rightarrow> ptr \<Rightarrow> ptr option" where
  "HASH_FIND_IN_BKT h k keylen_in hashval out =
     (case out of
        None \<Rightarrow> Some None
      | Some a \<Rightarrow> do {
          n \<leftarrow> h a;
          if hashv n = hashval \<and> keylen n = keylen_in \<and> key_bytes (key n) = key_bytes k
          then Some (Some a)
          else HASH_FIND_IN_BKT h k keylen_in hashval (hh_next n) })"

definition HASH_FIND_BYHASHVALUE :: "'a ut_node_scheme uthash \<Rightarrow> u64 \<Rightarrow> nat \<Rightarrow> u32 \<Rightarrow> ptr option" where
  "HASH_FIND_BYHASHVALUE u k keylen_in hashval =
     (if head u \<noteq> None
      then do {
        _ \<leftarrow> deref (heap u) (head u);
        t \<leftarrow> tbl u;
        b \<leftarrow> load (buckets t) (HASH_TO_BKT hashval (num_buckets t));
        HASH_FIND_IN_BKT (heap u) k keylen_in hashval (hh_head b) }
      else Some None)"

definition HASH_FIND :: "'a ut_node_scheme uthash \<Rightarrow> u64 \<Rightarrow> ptr option" where
  "HASH_FIND u k =
     (if head u \<noteq> None
      then HASH_FIND_BYHASHVALUE u k sizeof_record_key_t (HASH_VALUE k)
      else Some None)"

subsection \<open>HASH_EXPAND_BUCKETS\<close>

text \<open>
  The inner loop moves the elements of one old chain to the new buckets: each is pushed in
  front of its new chain. \<open>nb\<close> is the new bucket array and \<open>nonideal\<close> the counter
  \<open>nonideal_items\<close>.
\<close>

definition count_moved :: "nat \<Rightarrow> UT_hash_bucket \<Rightarrow> UT_hash_bucket \<times> bool" where
  "count_moved ideal b =
     (let b = b\<lparr>bcount := bcount b + 1\<rparr>;
          over = ideal < bcount b
      in (if over \<and> expand_mult b * ideal < bcount b
          then b\<lparr>expand_mult := expand_mult b + 1\<rparr> else b, over))"

partial_function (option) expand_chain ::
  "nat \<Rightarrow> nat \<Rightarrow> ptr \<Rightarrow> UT_hash_bucket list \<Rightarrow> nat \<Rightarrow> 'a ut_node_scheme memory \<Rightarrow>
   (UT_hash_bucket list \<times> nat \<times> 'a ut_node_scheme memory) option" where
  "expand_chain new_num ideal thh nb nonideal h =
     (case thh of
        None \<Rightarrow> Some (nb, nonideal, h)
      | Some a \<Rightarrow> do {
          n \<leftarrow> h a;
          let hh_nxt = hh_next n;
          let bkt = HASH_TO_BKT (hashv n) new_num;
          newbkt \<leftarrow> load nb bkt;
          let (newbkt, over) = count_moved ideal newbkt;
          h \<leftarrow> modify (Some a) (\<lambda>m. m\<lparr>hh_prev := None, hh_next := hh_head newbkt\<rparr>) h;
          h \<leftarrow> modify_if (hh_head newbkt) (\<lambda>m. m\<lparr>hh_prev := Some a\<rparr>) h;
          nb \<leftarrow> store nb bkt (newbkt\<lparr>hh_head := Some a\<rparr>);
          expand_chain new_num ideal hh_nxt nb (if over then nonideal + 1 else nonideal) h })"

text \<open>The outer loop runs over the indices of the old bucket array.\<close>

fun expand_buckets ::
  "nat \<Rightarrow> nat \<Rightarrow> UT_hash_bucket list \<Rightarrow> nat list \<Rightarrow> UT_hash_bucket list \<Rightarrow> nat \<Rightarrow>
   'a ut_node_scheme memory \<Rightarrow>
   (UT_hash_bucket list \<times> nat \<times> 'a ut_node_scheme memory) option" where
  "expand_buckets new_num ideal old [] nb nonideal h = Some (nb, nonideal, h)"
| "expand_buckets new_num ideal old (i # is) nb nonideal h = do {
     b \<leftarrow> load old i;
     (nb, nonideal, h) \<leftarrow> expand_chain new_num ideal (hh_head b) nb nonideal h;
     expand_buckets new_num ideal old is nb nonideal h }"

definition HASH_EXPAND_BUCKETS ::
  "UT_hash_table \<Rightarrow> 'a ut_node_scheme memory \<Rightarrow> (UT_hash_table \<times> 'a ut_node_scheme memory) option" where
  "HASH_EXPAND_BUCKETS t h =
     (let ideal = (num_items t div 2 ^ (log2_num_buckets t + 1)) +
                  (if num_items t AND (num_buckets t * 2 - 1) \<noteq> 0 then 1 else 0);
          nb = replicate (2 * num_buckets t) zero_bucket
      in do {
        (nb, nonideal, h) \<leftarrow>
          expand_buckets (num_buckets t * 2) ideal (buckets t) [0..<num_buckets t] nb 0 h;
        let ineff = (if num_items t div 2 < nonideal then ineff_expands t + 1 else 0);
        Some (t\<lparr>ideal_chain_maxlen := ideal,
                nonideal_items := nonideal,
                num_buckets := num_buckets t * 2,
                log2_num_buckets := log2_num_buckets t + 1,
                buckets := nb,
                ineff_expands := ineff,
                noexpand := (if 1 < ineff then 1 else noexpand t)\<rparr>, h) })"

subsection \<open>HASH_ADD\<close>

definition HASH_ADD_TO_BKT ::
  "nat \<Rightarrow> addr \<Rightarrow> UT_hash_table \<Rightarrow> 'a ut_node_scheme memory \<Rightarrow>
   (UT_hash_table \<times> 'a ut_node_scheme memory) option" where
  "HASH_ADD_TO_BKT bkt a t h = do {
     b \<leftarrow> load (buckets t) bkt;
     let b = b\<lparr>bcount := bcount b + 1\<rparr>;
     h \<leftarrow> modify (Some a) (\<lambda>m. m\<lparr>hh_next := hh_head b, hh_prev := None\<rparr>) h;
     h \<leftarrow> modify_if (hh_head b) (\<lambda>m. m\<lparr>hh_prev := Some a\<rparr>) h;
     let b = b\<lparr>hh_head := Some a\<rparr>;
     bs \<leftarrow> store (buckets t) bkt b;
     let t = t\<lparr>buckets := bs\<rparr>;
     if (expand_mult b + 1) * HASH_BKT_CAPACITY_THRESH \<le> bcount b \<and> noexpand t = 0
     then HASH_EXPAND_BUCKETS t h
     else Some (t, h) }"

definition HASH_MAKE_TABLE :: "addr \<Rightarrow> UT_hash_table" where
  "HASH_MAKE_TABLE a =
     \<lparr>buckets = replicate HASH_INITIAL_NUM_BUCKETS zero_bucket,
      num_buckets = HASH_INITIAL_NUM_BUCKETS,
      log2_num_buckets = HASH_INITIAL_NUM_BUCKETS_LOG2,
      num_items = 0, tail = Some a, ideal_chain_maxlen = 0, nonideal_items = 0,
      ineff_expands = 0, noexpand = 0\<rparr>"

definition HASH_APPEND_LIST ::
  "addr \<Rightarrow> UT_hash_table \<Rightarrow> 'a ut_node_scheme memory \<Rightarrow>
   (UT_hash_table \<times> 'a ut_node_scheme memory) option" where
  "HASH_APPEND_LIST a t h = do {
     h \<leftarrow> modify (Some a) (\<lambda>m. m\<lparr>nxt := None\<rparr>) h;
     h \<leftarrow> modify (Some a) (\<lambda>m. m\<lparr>prev := tail t\<rparr>) h;
     h \<leftarrow> modify (tail t) (\<lambda>m. m\<lparr>nxt := Some a\<rparr>) h;
     Some (t\<lparr>tail := Some a\<rparr>, h) }"

definition HASH_ADD_TO_TABLE ::
  "u32 \<Rightarrow> addr \<Rightarrow> UT_hash_table \<Rightarrow> 'a ut_node_scheme memory \<Rightarrow>
   (UT_hash_table \<times> 'a ut_node_scheme memory) option" where
  "HASH_ADD_TO_TABLE hashval a t h =
     (let t = t\<lparr>num_items := num_items t + 1\<rparr>
      in HASH_ADD_TO_BKT (HASH_TO_BKT hashval (num_buckets t)) a t h)"

definition HASH_ADD_KEYPTR_BYHASHVALUE ::
  "u32 \<Rightarrow> addr \<Rightarrow> 'a ut_node_scheme uthash \<Rightarrow> 'a ut_node_scheme uthash option" where
  "HASH_ADD_KEYPTR_BYHASHVALUE hashval a u = do {
     h \<leftarrow> modify (Some a) (\<lambda>m. m\<lparr>hashv := hashval, keylen := sizeof_record_key_t\<rparr>) (heap u);
     (hd, t, h) \<leftarrow>
       (if head u = None
        then do {
          h \<leftarrow> modify (Some a) (\<lambda>m. m\<lparr>nxt := None, prev := None\<rparr>) h;
          Some (Some a, HASH_MAKE_TABLE a, h) }
        else do {
          _ \<leftarrow> deref h (head u);
          t \<leftarrow> tbl u;
          (t, h) \<leftarrow> HASH_APPEND_LIST a t h;
          Some (head u, t, h) });
     (t, h) \<leftarrow> HASH_ADD_TO_TABLE hashval a t h;
     Some (u\<lparr>heap := h, head := hd, tbl := Some t\<rparr>) }"

text \<open>\<open>HASH_ADD(hh, head, key, sizeof(record_key_t), add)\<close> hashes the key of the new element.\<close>

definition HASH_ADD :: "addr \<Rightarrow> 'a ut_node_scheme uthash \<Rightarrow> 'a ut_node_scheme uthash option" where
  "HASH_ADD a u = do {
     n \<leftarrow> heap u a;
     HASH_ADD_KEYPTR_BYHASHVALUE (HASH_VALUE (key n)) a u }"

subsection \<open>HASH_DELETE\<close>

definition HASH_DEL_IN_BKT ::
  "nat \<Rightarrow> addr \<Rightarrow> UT_hash_table \<Rightarrow> 'a ut_node_scheme memory \<Rightarrow>
   (UT_hash_table \<times> 'a ut_node_scheme memory) option" where
  "HASH_DEL_IN_BKT bkt a t h = do {
     b \<leftarrow> load (buckets t) bkt;
     n \<leftarrow> h a;
     let b = b\<lparr>bcount := bcount b - 1\<rparr>;
     let b = (if hh_head b = Some a then b\<lparr>hh_head := hh_next n\<rparr> else b);
     h \<leftarrow> modify_if (hh_prev n) (\<lambda>m. m\<lparr>hh_next := hh_next n\<rparr>) h;
     n \<leftarrow> h a;
     h \<leftarrow> modify_if (hh_next n) (\<lambda>m. m\<lparr>hh_prev := hh_prev n\<rparr>) h;
     bs \<leftarrow> store (buckets t) bkt b;
     Some (t\<lparr>buckets := bs\<rparr>, h) }"

definition HASH_DELETE :: "addr \<Rightarrow> 'a ut_node_scheme uthash \<Rightarrow> 'a ut_node_scheme uthash option" where
  "HASH_DELETE a u = do {
     n \<leftarrow> heap u a;
     if prev n = None \<and> nxt n = None
     then do {
       _ \<leftarrow> deref (heap u) (head u);
       _ \<leftarrow> tbl u;
       Some (u\<lparr>head := None, tbl := None\<rparr>) }
     else do {
       _ \<leftarrow> deref (heap u) (head u);
       t \<leftarrow> tbl u;
       let t = (if tail t = Some a then t\<lparr>tail := prev n\<rparr> else t);
       h \<leftarrow> modify_if (prev n) (\<lambda>m. m\<lparr>nxt := nxt n\<rparr>) (heap u);
       let hd = (if prev n \<noteq> None then head u else nxt n);
       n \<leftarrow> h a;
       h \<leftarrow> modify_if (nxt n) (\<lambda>m. m\<lparr>prev := prev n\<rparr>) h;
       n \<leftarrow> h a;
       _ \<leftarrow> deref h hd;
       (t, h) \<leftarrow> HASH_DEL_IN_BKT (HASH_TO_BKT (hashv n) (num_buckets t)) a t h;
       Some (u\<lparr>heap := h, head := hd, tbl := Some (t\<lparr>num_items := num_items t - 1\<rparr>)\<rparr>) } }"

end
