(* ===== verification/Uthash_Inv.thy ===== *)
theory Uthash_Inv
  imports Uthash
begin

text \<open>
  The invariant of the hash table and the proof that each macro keeps it and implements an
  operation on the list of elements in app order. \<open>ut_inv u as\<close> says that \<open>as\<close> is
  that list: it is threaded through \<open>prev\<close>/\<open>nxt\<close> from \<open>head\<close> to \<open>tail\<close>; each
  element carries the hash of its key; no two have the same key; and bucket \<open>i\<close> chains
  exactly the elements whose hash falls into \<open>i\<close>, with the right count.
\<close>

subsection \<open>Views of the heap\<close>

text \<open>The two lists threaded through the elements, as instances of \<open>dlist\<close>.\<close>

abbreviation app_links :: "'a ut_node_scheme memory \<Rightarrow> links" where
  "app_links \<equiv> links_of prev nxt"

abbreviation bkt_links :: "'a ut_node_scheme memory \<Rightarrow> links" where
  "bkt_links \<equiv> links_of hh_prev hh_next"

interpretation app_order: dlist prev nxt "\<lambda>p. prev_update (\<lambda>_. p)" "\<lambda>p. nxt_update (\<lambda>_. p)"
  by unfold_locales simp_all

interpretation bucket_order: dlist hh_prev hh_next "\<lambda>p. hh_prev_update (\<lambda>_. p)" "\<lambda>p. hh_next_update (\<lambda>_. p)"
  by unfold_locales simp_all

definition key_at :: "'a ut_node_scheme memory \<Rightarrow> addr \<Rightarrow> u64 option" where
  "key_at h a = map_option key (h a)"

definition bkt_of :: "'a ut_node_scheme memory \<Rightarrow> nat \<Rightarrow> addr \<Rightarrow> nat" where
  "bkt_of h n a = (case h a of None \<Rightarrow> 0 | Some m \<Rightarrow> HASH_TO_BKT (hashv m) n)"

text \<open>What an element holds besides its four links.\<close>

definition core :: "'a ut_node_scheme \<Rightarrow> 'a ut_node_scheme" where
  "core n = n\<lparr>prev := None, nxt := None, hh_prev := None, hh_next := None\<rparr>"

definition same_core :: "'a ut_node_scheme memory \<Rightarrow> 'a ut_node_scheme memory \<Rightarrow> bool" where
  "same_core h h' \<longleftrightarrow> (\<forall>a. map_option core (h' a) = map_option core (h a))"

lemma core_upd [simp]:
  "core (n\<lparr>prev := p\<rparr>) = core n" "core (n\<lparr>nxt := p\<rparr>) = core n"
  "core (n\<lparr>hh_prev := p\<rparr>) = core n" "core (n\<lparr>hh_next := p\<rparr>) = core n"
  by (simp_all add: core_def)

lemma core_sel [simp]:
  "key (core n) = key n" "hashv (core n) = hashv n" "keylen (core n) = keylen n"
  "ut_node.more (core n) = ut_node.more n"
  by (simp_all add: core_def)

lemma core_eqD:
  assumes eq: "core m = core n"
  shows "key m = key n" "hashv m = hashv n" "keylen m = keylen n" "ut_node.more m = ut_node.more n"
proof -
  show "key m = key n" using arg_cong [OF eq, of key] unfolding core_sel .
  show "hashv m = hashv n" using arg_cong [OF eq, of hashv] unfolding core_sel .
  show "keylen m = keylen n" using arg_cong [OF eq, of keylen] unfolding core_sel .
  show "ut_node.more m = ut_node.more n" using arg_cong [OF eq, of ut_node.more] unfolding core_sel .
qed

lemma same_core_refl [simp]: "same_core h h"
  by (simp add: same_core_def)

lemma same_core_trans: "same_core h1 h2 \<Longrightarrow> same_core h2 h3 \<Longrightarrow> same_core h1 h3"
  by (simp add: same_core_def)

lemma same_core_None:
  assumes "same_core h h'"
  shows "h' a = None \<longleftrightarrow> h a = None"
proof -
  have "map_option core (h' a) = map_option core (h a)" using assms by (simp add: same_core_def)
  then show ?thesis by (cases "h a"; cases "h' a") auto
qed

lemma same_core_SomeE:
  assumes "same_core h h'" and "h a = Some n"
  obtains n' where "h' a = Some n'" and "core n' = core n"
proof -
  have "map_option core (h' a) = Some (core n)"
    using assms by (simp add: same_core_def)
  then show ?thesis using that by auto
qed

lemma same_core_cases:
  assumes "same_core h h'"
  obtains "h a = None" "h' a = None"
  | n n' where "h a = Some n" "h' a = Some n'" "core n' = core n"
proof (cases "h a")
  case None
  then show thesis using that(1) same_core_None [OF assms, of a] by simp
next
  case (Some n)
  then show thesis using that(2) by (auto elim: same_core_SomeE [OF assms])
qed

lemma same_core_key_at: "same_core h h' \<Longrightarrow> key_at h' a = key_at h a"
  by (erule same_core_cases [where a = a]) (auto simp: key_at_def dest: core_eqD)

lemma same_core_bkt_of: "same_core h h' \<Longrightarrow> bkt_of h' n a = bkt_of h n a"
  by (erule same_core_cases [where a = a]) (auto simp: bkt_of_def dest: core_eqD)

lemma same_core_upd:
  "h a = Some n \<Longrightarrow> core n' = core n \<Longrightarrow> same_core h (h(a := Some n'))"
  by (simp add: same_core_def)

lemma same_core_modify:
  "modify p f h = Some h' \<Longrightarrow> (\<And>n. core (f n) = core n) \<Longrightarrow> same_core h h'"
  by (auto simp: modify_def intro: same_core_upd split: option.splits)

lemma same_core_modify_if:
  "modify_if p f h = Some h' \<Longrightarrow> (\<And>n. core (f n) = core n) \<Longrightarrow> same_core h h'"
  by (auto simp: modify_if_def intro: same_core_modify split: if_splits)

lemma links_of_modify_if:
  assumes "modify_if p f h = Some h'" and "\<And>n. pv (f n) = pv n" and "\<And>n. nx (f n) = nx n"
  shows "links_of pv nx h' = links_of pv nx h"
proof -
  have "links_of pv nx (h(a := Some (f n))) = links_of pv nx h" if "h a = Some n" for a n
    using that assms(2,3) by (auto simp: links_of_def fun_eq_iff)
  then show ?thesis
    using assms(1) by (cases p) (auto simp: modify_def split: option.splits)
qed

subsection \<open>Buckets\<close>

definition chain_ok :: "'a ut_node_scheme memory \<Rightarrow> UT_hash_bucket \<Rightarrow> addr list \<Rightarrow> bool" where
  "chain_ok h b xs \<longleftrightarrow> distinct xs \<and> bcount b = length xs \<and>
     (\<exists>e. dseg (bkt_links h) None (hh_head b) xs e None)"

text \<open>\<open>bkts h N bs D\<close>: the \<open>N\<close> buckets \<open>bs\<close> chain exactly the elements \<open>D\<close>.\<close>

definition bkts :: "'a ut_node_scheme memory \<Rightarrow> nat \<Rightarrow> UT_hash_bucket list \<Rightarrow> addr set \<Rightarrow> bool" where
  "bkts h N bs D \<longleftrightarrow> length bs = N \<and>
     (\<forall>i<N. \<exists>xs. chain_ok h (bs ! i) xs \<and> set xs = {a \<in> D. bkt_of h N a = i})"

lemma chain_ok_cong:
  "(\<And>a. a \<in> set xs \<Longrightarrow> bkt_links h' a = bkt_links h a) \<Longrightarrow> chain_ok h' b xs \<longleftrightarrow> chain_ok h b xs"
  unfolding chain_ok_def using dseg_cong by metis

lemma bkts_cong:
  assumes "\<And>a. a \<in> D \<Longrightarrow> bkt_links h' a = bkt_links h a"
    and "\<And>a. a \<in> D \<Longrightarrow> bkt_of h' N a = bkt_of h N a"
  shows "bkts h' N bs D \<longleftrightarrow> bkts h N bs D"
proof -
  have eq: "{a \<in> D. bkt_of h' N a = i} = {a \<in> D. bkt_of h N a = i}" for i
    using assms(2) by auto
  have "chain_ok h' (bs ! i) xs \<and> set xs = {a \<in> D. bkt_of h N a = i} \<longleftrightarrow>
        chain_ok h (bs ! i) xs \<and> set xs = {a \<in> D. bkt_of h N a = i}" for i xs
    using chain_ok_cong [of xs h' h "bs ! i"] assms(1) by auto
  then show ?thesis by (simp add: bkts_def eq)
qed

lemma bkts_empty: "bkts h N (replicate N zero_bucket) {}"
  by (auto simp: bkts_def chain_ok_def zero_bucket_def)

lemma bkts_length: "bkts h N bs D \<Longrightarrow> length bs = N"
  by (simp add: bkts_def)

lemma bktsE:
  assumes "bkts h N bs D" and "i < N"
  obtains xs e where "distinct xs" and "bcount (bs ! i) = length xs"
    and "dseg (bkt_links h) None (hh_head (bs ! i)) xs e None"
    and "set xs = {a \<in> D. bkt_of h N a = i}"
  using assms unfolding bkts_def chain_ok_def by blast

text \<open>
  Replacing the chain of one bucket: \<open>h'\<close> differs from \<open>h\<close> only on \<open>xs'\<close> and on the old
  chain, and the other buckets keep theirs.
\<close>

lemma bkts_update:
  assumes B: "bkts h N bs D" and j: "j < N" and sc: "same_core h h'"
    and new: "chain_ok h' b xs'" "set xs' = {c \<in> D'. bkt_of h N c = j}"
    and same: "\<And>c. bkt_of h N c \<noteq> j \<Longrightarrow> c \<in> D' \<longleftrightarrow> c \<in> D"
    and out: "\<And>c. c \<in> D \<Longrightarrow> bkt_of h N c \<noteq> j \<Longrightarrow> h' c = h c"
  shows "bkts h' N (bs[j := b]) D'"
  unfolding bkts_def
proof (intro conjI allI impI)
  show "length (bs[j := b]) = N" using bkts_length [OF B] by simp
  fix i assume i: "i < N"
  show "\<exists>xs. chain_ok h' (bs[j := b] ! i) xs \<and> set xs = {c \<in> D'. bkt_of h' N c = i}"
  proof (cases "i = j")
    case True
    then show ?thesis using new j bkts_length [OF B] by (auto simp: same_core_bkt_of [OF sc])
  next
    case False
    obtain ys where ys: "chain_ok h (bs ! i) ys" "set ys = {c \<in> D. bkt_of h N c = i}"
      using B i unfolding bkts_def by blast
    have "chain_ok h' (bs ! i) ys"
      by (subst chain_ok_cong [where h = h]) (use ys False out in \<open>auto simp: links_of_def\<close>)
    moreover have "set ys = {c \<in> D'. bkt_of h' N c = i}"
      using ys(2) False same by (auto simp: same_core_bkt_of [OF sc])
    ultimately show ?thesis using False by auto
  qed
qed

text \<open>Pushing an element in front of the chain of its bucket.\<close>

lemma bkts_push:
  assumes B: "bkts h N bs D" and a: "a \<notin> D" "h a = Some n"
    and j: "j = bkt_of h N a" "j < N"
    and b': "hh_head b' = Some a" "bcount b' = Suc (bcount (bs ! j))"
  shows "\<exists>h1 h2. modify (Some a) (\<lambda>m. m\<lparr>hh_prev := None, hh_next := hh_head (bs ! j)\<rparr>) h = Some h1 \<and>
      modify_if (hh_head (bs ! j)) (\<lambda>m. m\<lparr>hh_prev := Some a\<rparr>) h1 = Some h2 \<and>
      bkts h2 N (bs[j := b']) (insert a D) \<and> same_core h h2 \<and> app_links h2 = app_links h \<and>
      (\<forall>c. c \<notin> insert a D \<longrightarrow> h2 c = h c)"
proof -
  let ?p = "hh_head (bs ! j)"
  let ?h1 = "h(a := Some (n\<lparr>hh_prev := None, hh_next := ?p\<rparr>))"
  obtain xs e where xs: "distinct xs" "bcount (bs ! j) = length xs"
      "dseg (bkt_links h) None ?p xs e None" "set xs = {c \<in> D. bkt_of h N c = j}"
    using B j(2) by (rule bktsE)
  have axs: "a \<notin> set xs" using xs(4) a(1) by auto
  have r1: "modify (Some a) (\<lambda>m. m\<lparr>hh_prev := None, hh_next := ?p\<rparr>) h = Some ?h1"
    using a(2) by simp
  obtain h2 e' where r2: "modify_if ?p (\<lambda>m. m\<lparr>hh_prev := Some a\<rparr>) ?h1 = Some h2"
    and seg: "dseg (bkt_links h2) None (Some a) (a # xs) e' None"
    and out: "\<forall>c. c \<notin> set xs \<longrightarrow> h2 c = ?h1 c"
    using bucket_order.push [OF xs(3,1) axs, of "n\<lparr>hh_prev := None, hh_next := ?p\<rparr>"] by auto
  have sc: "same_core h h2"
    using same_core_trans [OF same_core_modify [OF r1] same_core_modify_if [OF r2]] by simp
  have app: "app_links h2 = app_links h"
    using links_of_modify_if [OF r2, of prev nxt] a(2) by (auto simp: links_of_def fun_eq_iff)
  have "bkts h2 N (bs[j := b']) (insert a D)"
  proof (rule bkts_update [OF B j(2) sc])
    show "chain_ok h2 b' (a # xs)" using seg b' xs axs by (auto simp: chain_ok_def)
    show "set (a # xs) = {c \<in> insert a D. bkt_of h N c = j}" using xs(4) j by auto
  qed (use out xs(4) j in auto)
  then show ?thesis using r1 r2 sc app out xs(4) by auto
qed

text \<open>Taking an element out of its bucket. The element keeps its own (stale) links.\<close>

lemma HASH_DEL_IN_BKT_ok:
  assumes B: "bkts h (num_buckets t) (buckets t) D" and a: "a \<in> D" "h a = Some n"
    and j: "j = HASH_TO_BKT (hashv n) (num_buckets t)" and pos: "0 < num_buckets t"
  shows "\<exists>t' h'. HASH_DEL_IN_BKT j a t h = Some (t', h') \<and>
    bkts h' (num_buckets t') (buckets t') (D - {a}) \<and> num_buckets t' = num_buckets t \<and>
    num_items t' = num_items t \<and> tail t' = tail t \<and>
    same_core h h' \<and> app_links h' = app_links h \<and> (\<forall>c. c \<notin> D \<longrightarrow> h' c = h c)"
proof -
  let ?N = "num_buckets t" and ?b = "buckets t ! j"
  have j': "j = bkt_of h ?N a" using a(2) j by (simp add: bkt_of_def)
  have lt: "j < ?N" using j pos by simp
  have len: "j < length (buckets t)" using lt bkts_length [OF B] by simp
  obtain xs e where xs: "distinct xs" "bcount ?b = length xs"
      "dseg (bkt_links h) None (hh_head ?b) xs e None" "set xs = {c \<in> D. bkt_of h ?N c = j}"
    using B lt by (rule bktsE)
  then have "a \<in> set xs" using a(1) j' by simp
  then obtain ys zs where split: "xs = ys @ a # zs" by (auto simp: in_set_conv_decomp)
  note seg = xs(3) [unfolded split] and d = xs(1) [unfolded split]
  obtain h1 h2 where r1: "modify_if (hh_prev n) (\<lambda>m. m\<lparr>hh_next := hh_next n\<rparr>) h = Some h1"
    and a1: "h1 a = Some n"
    and r2: "modify_if (hh_next n) (\<lambda>m. m\<lparr>hh_prev := hh_prev n\<rparr>) h1 = Some h2"
    and seg2: "dseg (bkt_links h2) None (if ys = [] then hh_next n else hh_head ?b) (ys @ zs)
                 (if zs = [] then hh_prev n else e) None"
    and out: "\<forall>c. c \<notin> set (ys @ zs) \<longrightarrow> h2 c = h c"
    using bucket_order.unlink(3) [OF seg d a(2)] by blast
  define b where "b = (let b = ?b\<lparr>bcount := bcount ?b - 1\<rparr>
      in if hh_head b = Some a then b\<lparr>hh_head := hh_next n\<rparr> else b)"
  have "hh_head ?b = Some a \<longleftrightarrow> ys = []"
    using dseg_first [OF seg] d by (cases ys) auto
  then have b: "bcount b = length (ys @ zs)" "hh_head b = (if ys = [] then hh_next n else hh_head ?b)"
    using xs(2) split by (auto simp: b_def Let_def)
  have sc: "same_core h h2"
    using same_core_trans [OF same_core_modify_if [OF r1] same_core_modify_if [OF r2]] by simp
  have app: "app_links h2 = app_links h"
    using links_of_modify_if [OF r1, of prev nxt] links_of_modify_if [OF r2, of prev nxt] by simp
  have "bkts h2 ?N ((buckets t)[j := b]) (D - {a})"
  proof (rule bkts_update [OF B lt sc])
    show "chain_ok h2 b (ys @ zs)" using seg2 b d by (auto simp: chain_ok_def)
    show "set (ys @ zs) = {c \<in> D - {a}. bkt_of h ?N c = j}" using xs(4) split d by auto
  qed (use out xs(4) split j' in auto)
  moreover have "HASH_DEL_IN_BKT j a t h = Some (t\<lparr>buckets := (buckets t)[j := b]\<rparr>, h2)"
    using len a(2) r1 a1 r2 by (simp add: HASH_DEL_IN_BKT_def Let_def b_def)
  moreover have "\<forall>c. c \<notin> D \<longrightarrow> h2 c = h c" using out xs(4) split by auto
  ultimately show ?thesis using sc app by auto
qed

subsection \<open>Bucket expansion\<close>

text \<open>
  \<open>h\<close> is the heap where the chain \<open>xs\<close> is still linked as before; the elements \<open>D\<close>
  have moved already. The loop ends, and afterwards \<open>xs\<close> has moved as well.
\<close>

lemma expand_chain_ok:
  assumes "dseg (bkt_links h) b thh xs e None" and "distinct xs" and "set xs \<inter> D = {}"
    and "bkts h N nb D" and "0 < N"
  shows "\<exists>nb' ni' h'. expand_chain N ideal thh nb ni h = Some (nb', ni', h') \<and>
    bkts h' N nb' (D \<union> set xs) \<and> same_core h h' \<and> app_links h' = app_links h \<and>
    (\<forall>c. c \<notin> D \<union> set xs \<longrightarrow> h' c = h c)"
  using assms
proof (induction xs arbitrary: b thh D nb ni h)
  case Nil
  then show ?case by (auto simp: expand_chain.simps)
next
  case (Cons a xs)
  obtain nx where thh: "thh = Some a" and la: "bkt_links h a = Some (b, nx)"
    and seg: "dseg (bkt_links h) (Some a) nx xs e None"
    using Cons.prems(1) by auto
  obtain n where n: "h a = Some n" "hh_next n = nx"
    using la by (auto simp: links_of_def)
  let ?j = "bkt_of h N a"
  have j: "?j = HASH_TO_BKT (hashv n) N" "?j < N"
    using n(1) \<open>0 < N\<close> by (simp_all add: bkt_of_def)
  have len: "?j < length nb" using j(2) bkts_length [OF Cons.prems(4)] by simp
  obtain b1 over where cm: "count_moved ideal (nb ! ?j) = (b1, over)"
    by (cases "count_moved ideal (nb ! ?j)")
  then have hd: "hh_head b1 = hh_head (nb ! ?j)" and cnt: "bcount b1 = Suc (bcount (nb ! ?j))"
    by (auto simp: count_moved_def Let_def)
  have aD: "a \<notin> D" using Cons.prems(3) by auto
  obtain h1 h2 where
      h1: "modify (Some a) (\<lambda>m. m\<lparr>hh_prev := None, hh_next := hh_head b1\<rparr>) h = Some h1"
    and h2: "modify_if (hh_head b1) (\<lambda>m. m\<lparr>hh_prev := Some a\<rparr>) h1 = Some h2"
    and B2: "bkts h2 N (nb[?j := b1\<lparr>hh_head := Some a\<rparr>]) (insert a D)"
    and sc: "same_core h h2" and app: "app_links h2 = app_links h"
    and out: "\<forall>c. c \<notin> insert a D \<longrightarrow> h2 c = h c"
    using bkts_push [OF Cons.prems(4) aD n(1) refl j(2), of "b1\<lparr>hh_head := Some a\<rparr>"] cnt
    unfolding hd by auto
  have seg2: "dseg (bkt_links h2) (Some a) nx xs e None"
  proof (subst dseg_cong [where l = "bkt_links h"])
    fix c assume "c \<in> set xs"
    then have "c \<notin> insert a D" using Cons.prems(2,3) by auto
    then show "bkt_links h2 c = bkt_links h c" using out by (simp add: links_of_def)
  qed (rule seg)
  obtain nb' ni' h' where
      r: "expand_chain N ideal nx (nb[?j := b1\<lparr>hh_head := Some a\<rparr>]) (if over then ni + 1 else ni) h2
          = Some (nb', ni', h')"
    and B': "bkts h' N nb' (insert a D \<union> set xs)" and sc': "same_core h2 h'"
    and app': "app_links h' = app_links h2"
    and out': "\<forall>c. c \<notin> insert a D \<union> set xs \<longrightarrow> h' c = h2 c"
    using Cons.IH [OF seg2 _ _ B2 \<open>0 < N\<close>] Cons.prems(2,3) by fastforce
  have "expand_chain N ideal thh nb ni h = Some (nb', ni', h')"
    using thh n(1) n(2) len cm h1 h2 r unfolding j(1)
    by (subst expand_chain.simps) (simp add: Let_def del: modify_simps)
  moreover have "\<forall>c. c \<notin> D \<union> set (a # xs) \<longrightarrow> h' c = h c"
    using out out' by simp
  ultimately show ?case
    using B' app app' same_core_trans [OF sc sc'] by auto
qed

text \<open>The outer loop moves the chains of the buckets in \<open>is\<close>.\<close>

definition old_chains ::
  "'a ut_node_scheme memory \<Rightarrow> UT_hash_bucket list \<Rightarrow> (nat \<Rightarrow> addr set) \<Rightarrow> nat list \<Rightarrow> bool" where
  "old_chains h old S is \<longleftrightarrow> (\<forall>i\<in>set is. i < length old \<and>
     (\<exists>xs e. distinct xs \<and> set xs = S i \<and> dseg (bkt_links h) None (hh_head (old ! i)) xs e None))"

lemma expand_buckets_ok:
  assumes "old_chains h old S is" and "distinct is" and "0 < N" and "bkts h N nb D"
    and "\<And>i j. i \<in> set is \<Longrightarrow> j \<in> set is \<Longrightarrow> i \<noteq> j \<Longrightarrow> S i \<inter> S j = {}"
    and "\<And>i. i \<in> set is \<Longrightarrow> S i \<inter> D = {}"
  shows "\<exists>nb' ni' h'. expand_buckets N ideal old is nb ni h = Some (nb', ni', h') \<and>
    bkts h' N nb' (D \<union> \<Union> (S ` set is)) \<and> same_core h h' \<and> app_links h' = app_links h \<and>
    (\<forall>c. c \<notin> D \<union> \<Union> (S ` set is) \<longrightarrow> h' c = h c)"
  using assms
proof (induction "is" arbitrary: D nb ni h)
  case Nil
  then show ?case by simp
next
  case (Cons i "is")
  obtain xs e where i: "i < length old" and xs: "distinct xs" "set xs = S i"
    and seg: "dseg (bkt_links h) None (hh_head (old ! i)) xs e None"
    using Cons.prems(1) unfolding old_chains_def by (metis list.set_intros(1))
  have disj: "set xs \<inter> D = {}" using Cons.prems(6) xs(2) by simp
  obtain nb1 ni1 h1 where
      r1: "expand_chain N ideal (hh_head (old ! i)) nb ni h = Some (nb1, ni1, h1)"
    and B1: "bkts h1 N nb1 (D \<union> S i)" and sc1: "same_core h h1"
    and app1: "app_links h1 = app_links h"
    and out1: "\<forall>c. c \<notin> D \<union> S i \<longrightarrow> h1 c = h c"
    using expand_chain_ok [OF seg xs(1) disj Cons.prems(4,3), of ideal ni] unfolding xs(2) by blast
  have away: "c \<notin> D \<union> S i" if "k \<in> set is" "c \<in> S k" for c k
  proof -
    have "k \<noteq> i" using that(1) Cons.prems(2) by auto
    then show ?thesis using that Cons.prems(5) [of k i] Cons.prems(6) [of k] by auto
  qed
  have old1: "old_chains h1 old S is"
    unfolding old_chains_def
  proof (intro ballI conjI)
    fix k assume k: "k \<in> set is"
    show "k < length old" using Cons.prems(1) k by (simp add: old_chains_def)
    obtain ys f where ys: "distinct ys" "set ys = S k"
      and sk: "dseg (bkt_links h) None (hh_head (old ! k)) ys f None"
      using Cons.prems(1) k unfolding old_chains_def by (metis list.set_intros(2))
    have "dseg (bkt_links h1) None (hh_head (old ! k)) ys f None"
      by (subst dseg_cong [where l = "bkt_links h"])
        (use sk ys(2) away [OF k] out1 in \<open>auto simp: links_of_def\<close>)
    then show "\<exists>xs e. distinct xs \<and> set xs = S k \<and> dseg (bkt_links h1) None (hh_head (old ! k)) xs e None"
      using ys by blast
  qed
  have "S k \<inter> (D \<union> S i) = {}" if "k \<in> set is" for k
    using away [OF that] by blast
  then obtain nb2 ni2 h2 where
      r2: "expand_buckets N ideal old is nb1 ni1 h1 = Some (nb2, ni2, h2)"
    and B2: "bkts h2 N nb2 (D \<union> S i \<union> \<Union> (S ` set is))" and sc2: "same_core h1 h2"
    and app2: "app_links h2 = app_links h1"
    and out2: "\<forall>c. c \<notin> D \<union> S i \<union> \<Union> (S ` set is) \<longrightarrow> h2 c = h1 c"
    using Cons.IH [OF old1 _ Cons.prems(3) B1, of ni1] Cons.prems(2,5) by fastforce
  have "expand_buckets N ideal old (i # is) nb ni h = Some (nb2, ni2, h2)"
    using i r1 r2 by simp
  moreover have "bkts h2 N nb2 (D \<union> \<Union> (S ` set (i # is)))"
    using B2 by (simp add: Un_assoc)
  moreover have "\<forall>c. c \<notin> D \<union> \<Union> (S ` set (i # is)) \<longrightarrow> h2 c = h c"
    using out1 out2 by simp
  ultimately show ?case
    using app1 app2 same_core_trans [OF sc1 sc2] by auto
qed

text \<open>
  Expanding the buckets redistributes all elements over twice as many buckets and changes
  nothing but the links of the chains.
\<close>

lemma HASH_EXPAND_BUCKETS_ok:
  assumes B: "bkts h (num_buckets t) (buckets t) D" and pos: "0 < num_buckets t"
  shows "\<exists>t' h'. HASH_EXPAND_BUCKETS t h = Some (t', h') \<and>
    bkts h' (num_buckets t') (buckets t') D \<and> num_buckets t' = 2 * num_buckets t \<and>
    num_items t' = num_items t \<and> tail t' = tail t \<and>
    same_core h h' \<and> app_links h' = app_links h \<and> (\<forall>c. c \<notin> D \<longrightarrow> h' c = h c)"
proof -
  let ?S = "\<lambda>i. {a \<in> D. bkt_of h (num_buckets t) a = i}"
  let ?is = "[0..<num_buckets t]"
  let ?N = "num_buckets t * 2"
  let ?nb = "replicate (2 * num_buckets t) zero_bucket"
  define ideal where "ideal = (num_items t div 2 ^ (log2_num_buckets t + 1)) +
     (if num_items t AND (num_buckets t * 2 - 1) \<noteq> 0 then 1 else 0)"
  have lt: "bkt_of h (num_buckets t) a < num_buckets t" for a
    using pos by (simp add: bkt_of_def split: option.split)
  have U: "\<Union> (?S ` set ?is) = D"
    using lt by auto
  have old: "old_chains h (buckets t) ?S ?is"
    using B unfolding old_chains_def bkts_def chain_ok_def by fastforce
  have nb: "bkts h ?N ?nb {}"
    using bkts_empty [of h ?N] by (simp add: mult.commute)
  obtain nb' ni' h' where r: "expand_buckets ?N ideal (buckets t) ?is ?nb 0 h = Some (nb', ni', h')"
    and B': "bkts h' ?N nb' ({} \<union> \<Union> (?S ` set ?is))" and sc: "same_core h h'"
    and app: "app_links h' = app_links h"
    and out: "\<forall>c. c \<notin> {} \<union> \<Union> (?S ` set ?is) \<longrightarrow> h' c = h c"
    using expand_buckets_ok [OF old distinct_upt _ nb, of ideal 0] pos by fastforce
  have "HASH_EXPAND_BUCKETS t h = (do {
      (nb, nonideal, h) \<leftarrow> Some (nb', ni', h');
      let ineff = (if num_items t div 2 < nonideal then ineff_expands t + 1 else 0);
      Some (t\<lparr>ideal_chain_maxlen := ideal, nonideal_items := nonideal, num_buckets := ?N,
              log2_num_buckets := log2_num_buckets t + 1, buckets := nb, ineff_expands := ineff,
              noexpand := (if 1 < ineff then 1 else noexpand t)\<rparr>, h) })"
    unfolding HASH_EXPAND_BUCKETS_def Let_def ideal_def [symmetric] r ..
  then show ?thesis
    using B' sc app out unfolding U by (simp add: Let_def mult.commute)
qed

text \<open>Adding an element to its bucket, with the expansion it may trigger.\<close>

lemma HASH_ADD_TO_BKT_ok:
  assumes B: "bkts h (num_buckets t) (buckets t) D" and a: "a \<notin> D" "h a = Some n"
    and j: "j = HASH_TO_BKT (hashv n) (num_buckets t)" and pos: "0 < num_buckets t"
  shows "\<exists>t' h'. HASH_ADD_TO_BKT j a t h = Some (t', h') \<and>
    bkts h' (num_buckets t') (buckets t') (insert a D) \<and> 0 < num_buckets t' \<and>
    num_items t' = num_items t \<and> tail t' = tail t \<and>
    same_core h h' \<and> app_links h' = app_links h \<and> (\<forall>c. c \<notin> insert a D \<longrightarrow> h' c = h c)"
proof -
  have j': "j = bkt_of h (num_buckets t) a" using a(2) j by (simp add: bkt_of_def)
  have lt: "j < num_buckets t" using j pos by simp
  have len: "j < length (buckets t)" using lt bkts_length [OF B] by simp
  define b where "b = (buckets t ! j)\<lparr>bcount := bcount (buckets t ! j) + 1, hh_head := Some a\<rparr>"
  define t1 where "t1 = t\<lparr>buckets := (buckets t)[j := b]\<rparr>"
  obtain h1 h2 where
      h1: "modify (Some a) (\<lambda>m. m\<lparr>hh_prev := None, hh_next := hh_head (buckets t ! j)\<rparr>) h = Some h1"
    and h2: "modify_if (hh_head (buckets t ! j)) (\<lambda>m. m\<lparr>hh_prev := Some a\<rparr>) h1 = Some h2"
    and B2: "bkts h2 (num_buckets t1) (buckets t1) (insert a D)"
    and sc: "same_core h h2" and app: "app_links h2 = app_links h"
    and out: "\<forall>c. c \<notin> insert a D \<longrightarrow> h2 c = h c"
    using bkts_push [OF B a j' lt, of b] by (auto simp: b_def t1_def)
  have swap: "(\<lambda>m::'a ut_node_scheme. m\<lparr>hh_next := p, hh_prev := None\<rparr>) = (\<lambda>m. m\<lparr>hh_prev := None, hh_next := p\<rparr>)" for p
    by (simp add: fun_eq_iff)
  have run: "HASH_ADD_TO_BKT j a t h =
      (if (expand_mult b + 1) * HASH_BKT_CAPACITY_THRESH \<le> bcount b \<and> noexpand t = 0
       then HASH_EXPAND_BUCKETS t1 h2 else Some (t1, h2))"
    using h1 h2 len by (simp add: HASH_ADD_TO_BKT_def Let_def swap b_def t1_def del: modify_simps)
  show ?thesis
  proof (cases "(expand_mult b + 1) * HASH_BKT_CAPACITY_THRESH \<le> bcount b \<and> noexpand t = 0")
    case False
    then show ?thesis using run B2 sc app out pos by (auto simp: t1_def)
  next
    case True
    have "0 < num_buckets t1" using pos by (simp add: t1_def)
    from HASH_EXPAND_BUCKETS_ok [OF B2 this] obtain t' h' where
        r: "HASH_EXPAND_BUCKETS t1 h2 = Some (t', h')"
      and B': "bkts h' (num_buckets t') (buckets t') (insert a D)"
      and t': "num_buckets t' = 2 * num_buckets t1" "num_items t' = num_items t1" "tail t' = tail t1"
      and sc': "same_core h2 h'" and app': "app_links h' = app_links h2"
      and out': "\<forall>c. c \<notin> insert a D \<longrightarrow> h' c = h2 c"
      by blast
    have "0 < num_buckets t'" "num_items t' = num_items t" "tail t' = tail t"
      using t' pos by (simp_all add: t1_def)
    then show ?thesis
      using run True r B' app app' out out' same_core_trans [OF sc sc'] by auto
  qed
qed

end
