(* ===== verification/Uthash_Ops.thy ===== *)
theory Uthash_Ops
  imports Uthash_Inv
begin

text \<open>
  The table-level theorems of \<open>include/uthash.h\<close>: under the invariant, \<open>HASH_FIND\<close> is the
  search for the key in the list of elements, \<open>HASH_ADD\<close> appends, \<open>HASH_DELETE\<close> removes and
  \<open>HASH_COUNT\<close> is the length; none of them faults or loops. The locale \<open>keyed_index\<close> is the
  contract these make for a client, with what follows for sequences of operations; uthash is
  its interpretation.
\<close>

subsection \<open>The invariant\<close>

text \<open>
  \<open>ut_inv u as\<close>: the elements of the table are \<open>as\<close> in app order. They are allocated and
  hold the hash of their key, no two have the same key, they are linked from \<open>head\<close> to
  \<open>tail\<close>, and the buckets chain them by hash. An empty table has no \<open>UT_hash_table\<close>.
\<close>

definition elem_ok :: "'a ut_node_scheme \<Rightarrow> bool" where
  "elem_ok n \<longleftrightarrow> hashv n = HASH_VALUE (key n) \<and> keylen n = sizeof_record_key_t"

definition elems :: "'a ut_node_scheme memory \<Rightarrow> addr list \<Rightarrow> bool" where
  "elems h as \<longleftrightarrow> (\<forall>a\<in>set as. \<exists>n. h a = Some n \<and> elem_ok n)"

definition table_ok :: "'a ut_node_scheme memory \<Rightarrow> ptr \<Rightarrow> UT_hash_table \<Rightarrow> addr list \<Rightarrow> bool" where
  "table_ok h p t as \<longleftrightarrow>
     dseg (app_links h) None p as (tail t) None \<and> num_items t = length as \<and>
     0 < num_buckets t \<and> bkts h (num_buckets t) (buckets t) (set as)"

definition ut_inv :: "'a ut_node_scheme uthash \<Rightarrow> addr list \<Rightarrow> bool" where
  "ut_inv u as \<longleftrightarrow> distinct as \<and> elems (heap u) as \<and> inj_on (key_at (heap u)) (set as) \<and>
     (if as = [] then head u = None \<and> tbl u = None
      else \<exists>t. tbl u = Some t \<and> table_ok (heap u) (head u) t as)"

text \<open>The same without the condition that no two elements have the same key, which linking does not need.\<close>

definition ut_linked :: "'a ut_node_scheme uthash \<Rightarrow> addr list \<Rightarrow> bool" where
  "ut_linked u as \<longleftrightarrow> distinct as \<and> elems (heap u) as \<and>
     (if as = [] then head u = None \<and> tbl u = None
      else \<exists>t. tbl u = Some t \<and> table_ok (heap u) (head u) t as)"

lemma ut_inv_linked: "ut_inv u as \<longleftrightarrow> ut_linked u as \<and> inj_on (key_at (heap u)) (set as)"
  by (auto simp: ut_inv_def ut_linked_def)

lemma elem_ok_core: "core m = core n \<Longrightarrow> elem_ok m \<longleftrightarrow> elem_ok n"
  unfolding elem_ok_def by (simp only: core_eqD [of m n])

lemma elems_same_core:
  assumes "same_core h h'" and "elems h as" shows "elems h' as"
  unfolding elems_def
proof
  fix a assume "a \<in> set as"
  then obtain n where "h a = Some n" "elem_ok n" using assms(2) by (auto simp: elems_def)
  with same_core_SomeE [OF assms(1)] obtain n' where "h' a = Some n'" "core n' = core n" by metis
  with \<open>elem_ok n\<close> show "\<exists>n. h' a = Some n \<and> elem_ok n" using elem_ok_core by blast
qed

lemma ut_inv_Nil: "ut_inv u [] \<longleftrightarrow> head u = None \<and> tbl u = None"
  by (auto simp: ut_inv_def elems_def)

lemma ut_linked_Nil: "ut_linked u [] \<longleftrightarrow> head u = None \<and> tbl u = None"
  by (auto simp: ut_linked_def elems_def)

lemma ut_linkedE:
  assumes "ut_linked u as" "as \<noteq> []"
  obtains t n where "tbl u = Some t" "table_ok (heap u) (head u) t as"
    and "head u = Some (hd as)" "heap u (hd as) = Some n"
proof -
  obtain t where t: "tbl u = Some t" "table_ok (heap u) (head u) t as"
    using assms by (auto simp: ut_linked_def)
  moreover have "head u = Some (hd as)"
    using t(2) assms(2) dseg_first by (force simp: table_ok_def)
  moreover have "\<exists>n. heap u (hd as) = Some n"
    using assms by (auto simp: ut_linked_def elems_def)
  ultimately show thesis using that by blast
qed

lemma ut_invE:
  assumes "ut_inv u as" "as \<noteq> []"
  obtains t n where "tbl u = Some t" "table_ok (heap u) (head u) t as"
    and "head u = Some (hd as)" "heap u (hd as) = Some n"
proof -
  have "ut_linked u as" using assms(1) by (simp add: ut_inv_linked)
  then show thesis using assms(2) that by (rule ut_linkedE)
qed

lemma ut_inv_elem:
  assumes "ut_inv u as" "a \<in> set as"
  obtains n where "heap u a = Some n" "hashv n = HASH_VALUE (key n)" "keylen n = sizeof_record_key_t"
  using assms by (auto simp: ut_inv_def elems_def elem_ok_def)

lemma HASH_COUNT_ok: "ut_inv u as \<Longrightarrow> HASH_COUNT u = Some (length as)"
proof (cases "as = []")
  case False
  assume "ut_inv u as"
  then show ?thesis using False
    by (rule ut_invE) (auto simp: HASH_COUNT_def table_ok_def)
qed (auto simp: HASH_COUNT_def ut_inv_Nil)

text \<open>The walk along a chain returns the element with the key, if the chain has it.\<close>

lemma HASH_FIND_IN_BKT_ok:
  assumes "dseg (bkt_links h) b out xs e None" and "elems h xs"
    and "inj_on (key_at h) (set xs)"
  shows "HASH_FIND_IN_BKT h k sizeof_record_key_t (HASH_VALUE k) out =
    Some (find (\<lambda>a. key_at h a = Some k) xs)"
  using assms
proof (induction xs arbitrary: b out)
  case Nil
  then show ?case by (simp add: HASH_FIND_IN_BKT.simps)
next
  case (Cons a xs)
  obtain nx where out: "out = Some a" "bkt_links h a = Some (b, nx)"
    and seg: "dseg (bkt_links h) (Some a) nx xs e None" using Cons.prems(1) by auto
  obtain n where n: "h a = Some n" "elem_ok n" using Cons.prems(2) by (auto simp: elems_def)
  have nx: "hh_next n = nx" using out(2) n(1) by simp
  have "HASH_FIND_IN_BKT h k sizeof_record_key_t (HASH_VALUE k) nx = Some (find (\<lambda>a. key_at h a = Some k) xs)"
    using Cons.IH [OF seg] Cons.prems(2,3) by (simp add: elems_def)
  then show ?case
    using n out(1) nx by (subst HASH_FIND_IN_BKT.simps) (auto simp: elem_ok_def key_at_def)
qed

lemma find_unique: 
  assumes "inj_on f A" "set xs \<subseteq> A" "set ys \<subseteq> A"
    and "\<And>a. a \<in> A \<Longrightarrow> f a = v \<Longrightarrow> a \<in> set xs \<longleftrightarrow> a \<in> set ys"
  shows "find (\<lambda>a. f a = v) xs = find (\<lambda>a. f a = v) ys"
proof -
  have eq: "find (\<lambda>a. f a = v) zs = (if \<exists>a\<in>set zs. f a = v then Some (THE a. a \<in> A \<and> f a = v) else None)"
    if "set zs \<subseteq> A" for zs
  proof (cases "find (\<lambda>a. f a = v) zs")
    case (Some a)
    then have "a \<in> set zs" "f a = v" by (auto simp: find_Some_iff)
    moreover then have "(THE b. b \<in> A \<and> f b = v) = a"
      using that assms(1) by (auto intro!: the_equality dest: inj_onD)
    ultimately show ?thesis using Some by auto
  qed (auto simp: find_None_iff)
  show ?thesis unfolding eq [OF assms(2)] eq [OF assms(3)] using assms(2-4) by (auto; blast)
qed

lemma HASH_FIND_ok:
  assumes inv: "ut_inv u as"
  shows "HASH_FIND u k = Some (find (\<lambda>a. key_at (heap u) a = Some k) as)"
proof (cases "as = []")
  case True
  then show ?thesis using inv by (simp add: HASH_FIND_def ut_inv_Nil)
next
  case False
  obtain t n where t: "tbl u = Some t" "table_ok (heap u) (head u) t as"
    and hd: "head u = Some (hd as)" "heap u (hd as) = Some n"
    using ut_invE [OF inv False] .
  let ?N = "num_buckets t" and ?i = "HASH_TO_BKT (HASH_VALUE k) (num_buckets t)"
  have B: "bkts (heap u) ?N (buckets t) (set as)" and pos: "0 < ?N"
    using t(2) by (simp_all add: table_ok_def)
  then have i: "?i < ?N" by simp
  obtain xs e where xs: "distinct xs" "dseg (bkt_links (heap u)) None (hh_head (buckets t ! ?i)) xs e None"
      "set xs = {a \<in> set as. bkt_of (heap u) ?N a = ?i}"
    using B i by (rule bktsE)
  have inj: "inj_on (key_at (heap u)) (set as)" and el: "elems (heap u) as"
    using inv by (simp_all add: ut_inv_def)
  have sub: "set xs \<subseteq> set as" using xs(3) by auto
  have "elems (heap u) xs" using el sub by (auto simp: elems_def)
  moreover have "inj_on (key_at (heap u)) (set xs)" using inj sub inj_on_subset by blast
  ultimately have "HASH_FIND_IN_BKT (heap u) k sizeof_record_key_t (HASH_VALUE k) (hh_head (buckets t ! ?i))
      = Some (find (\<lambda>a. key_at (heap u) a = Some k) xs)"
    by (rule HASH_FIND_IN_BKT_ok [OF xs(2)])
  moreover have "find (\<lambda>a. key_at (heap u) a = Some k) xs = find (\<lambda>a. key_at (heap u) a = Some k) as"
  proof (rule find_unique [OF inj sub subset_refl])
    fix a assume "a \<in> set as" "key_at (heap u) a = Some k"
    then have "bkt_of (heap u) ?N a = ?i"
      using el by (auto simp: elems_def elem_ok_def bkt_of_def key_at_def)
    then show "a \<in> set xs \<longleftrightarrow> a \<in> set as" using xs(3) by simp
  qed
  ultimately show ?thesis
    using t(1) hd i bkts_length [OF B] by (simp add: HASH_FIND_def HASH_FIND_BYHASHVALUE_def)
qed

subsection \<open>HASH_ADD\<close>

lemma HASH_APPEND_LIST_ok:
  assumes seg: "dseg (app_links h) None p as (tail t) None" and d: "distinct as" "a \<notin> set as"
    and ne: "as \<noteq> []" and n: "h a = Some n"
  shows "\<exists>h'. HASH_APPEND_LIST a t h = Some (t\<lparr>tail := Some a\<rparr>, h') \<and>
    dseg (app_links h') None p (as @ [a]) (Some a) None \<and>
    same_core h h' \<and> bkt_links h' = bkt_links h \<and> (\<forall>c. c \<notin> insert a (set as) \<longrightarrow> h' c = h c)"
proof -
  let ?n = "n\<lparr>nxt := None, prev := tail t\<rparr>"
  obtain h' where r: "modify (tail t) (\<lambda>m. m\<lparr>nxt := Some a\<rparr>) (h(a := Some ?n)) = Some h'"
    and seg': "dseg (app_links h') None p (as @ [a]) (Some a) None"
    and out: "\<forall>c. c \<notin> set as \<longrightarrow> h' c = (h(a := Some ?n)) c"
    using app_order.snoc [OF seg d ne, of ?n] by auto
  have sc: "same_core h h'"
    using same_core_trans [OF same_core_upd [of h a n ?n] same_core_modify [OF r]] n by simp
  have tl: "tail t \<noteq> None" using dseg_last [OF seg] ne by simp
  have "modify_if (tail t) (\<lambda>m. m\<lparr>nxt := Some a\<rparr>) (h(a := Some ?n)) = Some h'"
    using r tl by auto
  from links_of_modify_if [OF this, of hh_prev hh_next]
  have bl: "bkt_links h' = bkt_links h" using n by (auto simp: links_of_def fun_eq_iff)
  show ?thesis using r seg' out sc bl n by (auto simp: HASH_APPEND_LIST_def)
qed

lemma bkts_same:
  assumes "bkt_links h' = bkt_links h" and "same_core h h'"
  shows "bkts h' N bs D \<longleftrightarrow> bkts h N bs D"
  by (rule bkts_cong) (simp_all add: assms same_core_bkt_of [OF assms(2)])

text \<open>\<open>bs\<close> is the app order with the new element \<open>a\<close> already linked into it.\<close>

lemma HASH_ADD_TO_TABLE_ok:
  assumes seg: "dseg (app_links h) None p bs (tail t) None" and num: "num_items t = length as"
    and bs: "set bs = insert a (set as)" "length bs = Suc (length as)"
    and B: "bkts h (num_buckets t) (buckets t) (set as)" and pos: "0 < num_buckets t"
    and a: "a \<notin> set as" "h a = Some n"
  shows "\<exists>t' h'. HASH_ADD_TO_TABLE (hashv n) a t h = Some (t', h') \<and> table_ok h' p t' bs \<and>
    same_core h h' \<and> (\<forall>c. c \<notin> insert a (set as) \<longrightarrow> h' c = h c)"
proof -
  let ?t = "t\<lparr>num_items := num_items t + 1\<rparr>"
  have B': "bkts h (num_buckets ?t) (buckets ?t) (set as)" using B by simp
  have pos': "0 < num_buckets ?t" using pos by simp
  obtain t' h' where r: "HASH_ADD_TO_BKT (HASH_TO_BKT (hashv n) (num_buckets ?t)) a ?t h = Some (t', h')"
    and B2: "bkts h' (num_buckets t') (buckets t') (insert a (set as))"
    and t': "0 < num_buckets t'" "num_items t' = num_items ?t" "tail t' = tail ?t"
    and sc: "same_core h h'" and app: "app_links h' = app_links h"
    and out: "\<forall>c. c \<notin> insert a (set as) \<longrightarrow> h' c = h c"
    using HASH_ADD_TO_BKT_ok [OF B' a refl pos'] by blast
  have "table_ok h' p t' bs"
    using seg num bs B2 t' app by (simp add: table_ok_def)
  then show ?thesis using r sc out by (simp add: HASH_ADD_TO_TABLE_def Let_def)
qed

text \<open>The invariant with a new element \<open>a\<close>, whose handle holds the hash of its key.\<close>

lemma ut_linked_insert:
  assumes inv: "ut_linked u as" and a: "a \<notin> set as"
    and bs: "set bs = insert a (set as)" "distinct bs"
    and sc: "same_core ((heap u)(a := Some (n\<lparr>hashv := HASH_VALUE (key n), keylen := sizeof_record_key_t\<rparr>))) (heap u')"
    and t: "tbl u' = Some t'" "table_ok (heap u') (head u') t' bs"
  shows "ut_linked u' bs"
proof -
  have "elems ((heap u)(a := Some (n\<lparr>hashv := HASH_VALUE (key n), keylen := sizeof_record_key_t\<rparr>))) bs"
    using inv a bs(1) by (auto simp: ut_linked_def elems_def elem_ok_def)
  then have "elems (heap u') bs" by (rule elems_same_core [OF sc])
  moreover have "bs \<noteq> []" using bs(1) by auto
  ultimately show ?thesis using bs(2) t by (simp add: ut_linked_def)
qed

lemma keys_insert:
  assumes inj: "inj_on (key_at (heap u)) (set as)" and el: "elems (heap u) as" and a: "a \<notin> set as"
    and fresh: "\<forall>c\<in>set as. key_at (heap u) c \<noteq> Some (key n)" and bs: "set bs = insert a (set as)"
    and sc: "same_core ((heap u)(a := Some (n\<lparr>hashv := HASH_VALUE (key n), keylen := sizeof_record_key_t\<rparr>))) h'"
  shows "inj_on (key_at h') (set bs)"
proof -
  let ?h0 = "(heap u)(a := Some (n\<lparr>hashv := HASH_VALUE (key n), keylen := sizeof_record_key_t\<rparr>))"
  have "inj_on (key_at ?h0) (set bs)"
    using inj a fresh unfolding bs
    by (simp add: inj_on_def key_at_def) (metis option.map_disc_iff option.map_sel option.sel option.distinct(1) option.exhaust_sel)
  then show ?thesis by (simp add: same_core_key_at [OF sc] inj_on_def)
qed

lemma ut_inv_insert:
  assumes inv: "ut_inv u as" and a: "a \<notin> set as"
    and fresh: "\<forall>c\<in>set as. key_at (heap u) c \<noteq> Some (key n)"
    and bs: "set bs = insert a (set as)" "distinct bs"
    and sc: "same_core ((heap u)(a := Some (n\<lparr>hashv := HASH_VALUE (key n), keylen := sizeof_record_key_t\<rparr>))) (heap u')"
    and t: "tbl u' = Some t'" "table_ok (heap u') (head u') t' bs"
  shows "ut_inv u' bs"
  using ut_linked_insert [OF _ a bs sc t] keys_insert [OF _ _ a fresh bs(1) sc] inv
  by (simp add: ut_inv_linked ut_linked_def)

text \<open>\<open>HASH_ADD\<close> links the new element whether or not there is one with its key.\<close>

lemma HASH_ADD_linked:
  assumes inv: "ut_linked u as" and a: "a \<notin> set as" "heap u a = Some n"
  shows "\<exists>u'. HASH_ADD a u = Some u' \<and> ut_linked u' (as @ [a]) \<and>
    same_core ((heap u)(a := Some (n\<lparr>hashv := HASH_VALUE (key n), keylen := sizeof_record_key_t\<rparr>))) (heap u') \<and>
    (\<forall>c. c \<notin> insert a (set as) \<longrightarrow> heap u' c = heap u c)"
proof -
  let ?n = "n\<lparr>hashv := HASH_VALUE (key n), keylen := sizeof_record_key_t\<rparr>"
  let ?h0 = "(heap u)(a := Some ?n)"
  have d: "distinct as" using inv by (simp add: ut_linked_def)
  note final = ut_linked_insert [OF inv a(1), of "as @ [a]"]
  show ?thesis
  proof (cases "as = []")
    case True
    define h1 where "h1 = ?h0(a := Some (?n\<lparr>nxt := None, prev := None\<rparr>))"
    have h1a: "h1 a = Some (?n\<lparr>nxt := None, prev := None\<rparr>)" by (simp add: h1_def)
    have sc1: "same_core ?h0 h1" unfolding h1_def by (rule same_core_upd) simp_all
    have "dseg (app_links h1) None (Some a) ([] @ [a]) (tail (HASH_MAKE_TABLE a)) None"
      by (simp add: h1_def links_of_def HASH_MAKE_TABLE_def)
    from HASH_ADD_TO_TABLE_ok [OF this, of "[]" a _]
    obtain t' h' where r: "HASH_ADD_TO_TABLE (HASH_VALUE (key n)) a (HASH_MAKE_TABLE a) h1 = Some (t', h')"
      and T: "table_ok h' (Some a) t' [a]" and sc: "same_core h1 h'"
      and out: "\<forall>c. c \<noteq> a \<longrightarrow> h' c = h1 c"
      using bkts_empty [of h1 HASH_INITIAL_NUM_BUCKETS] h1a
      by (auto simp: HASH_MAKE_TABLE_def HASH_INITIAL_NUM_BUCKETS_def)
    let ?u = "u\<lparr>heap := h', head := Some a, tbl := Some t'\<rparr>"
    have "HASH_ADD a u = Some ?u"
      using a(2) inv True r by (simp add: HASH_ADD_def HASH_ADD_KEYPTR_BYHASHVALUE_def ut_linked_Nil h1_def)
    then show ?thesis
      using final [of n ?u t'] same_core_trans [OF sc1 sc] T True out d by (auto simp: h1_def)
  next
    case False
    obtain t m where t: "tbl u = Some t" "table_ok (heap u) (head u) t as"
      and hd: "head u = Some (hd as)" "heap u (hd as) = Some m"
      using ut_linkedE [OF inv False] .
    have ne: "c \<noteq> a" if "c \<in> set as" for c using that a(1) by auto
    have "dseg (app_links ?h0) None (head u) as (tail t) None"
      by (subst dseg_cong [where l = "app_links (heap u)"])
        (use t(2) ne in \<open>auto simp: table_ok_def links_of_def\<close>)
    from HASH_APPEND_LIST_ok [OF this d a(1) False, of ?n]
    obtain h1 where r1: "HASH_APPEND_LIST a t ?h0 = Some (t\<lparr>tail := Some a\<rparr>, h1)"
      and seg: "dseg (app_links h1) None (head u) (as @ [a]) (Some a) None"
      and sc1: "same_core ?h0 h1" and bl: "bkt_links h1 = bkt_links ?h0"
      and out1: "\<forall>c. c \<notin> insert a (set as) \<longrightarrow> h1 c = ?h0 c"
      by auto
    have "bkts ?h0 (num_buckets t) (buckets t) (set as)"
      by (subst bkts_cong [where h = "heap u"])
        (use t(2) ne in \<open>auto simp: table_ok_def links_of_def bkt_of_def\<close>)
    then have B: "bkts h1 (num_buckets t) (buckets t) (set as)" by (simp add: bkts_same [OF bl sc1])
    obtain n1 where n1: "h1 a = Some n1" "core n1 = core ?n"
      using same_core_SomeE [OF sc1, of a ?n] by auto
    have hv: "hashv n1 = HASH_VALUE (key n)" using core_eqD(2) [OF n1(2)] by simp
    obtain t' h' where r: "HASH_ADD_TO_TABLE (HASH_VALUE (key n)) a (t\<lparr>tail := Some a\<rparr>) h1 = Some (t', h')"
      and T: "table_ok h' (head u) t' (as @ [a])" and sc: "same_core h1 h'"
      and out: "\<forall>c. c \<notin> insert a (set as) \<longrightarrow> h' c = h1 c"
      using HASH_ADD_TO_TABLE_ok [of h1 "head u" "as @ [a]" "t\<lparr>tail := Some a\<rparr>" as a n1] seg B t(2) a(1) n1(1) hv
      by (auto simp: table_ok_def)
    let ?u = "u\<lparr>heap := h', head := head u, tbl := Some t'\<rparr>"
    have nd: "?h0 (hd as) = Some m" using hd(2) ne False by simp
    have "HASH_ADD a u = Some ?u"
      using a(2) t(1) hd(1) nd r1 r by (simp add: HASH_ADD_def HASH_ADD_KEYPTR_BYHASHVALUE_def)
    then show ?thesis
      using final [of n ?u t'] same_core_trans [OF sc1 sc] T out out1 d a(1) by auto
  qed
qed

lemma HASH_ADD_ok:
  assumes inv: "ut_inv u as" and a: "a \<notin> set as" "heap u a = Some n"
    and fresh: "\<forall>c\<in>set as. key_at (heap u) c \<noteq> Some (key n)"
  shows "\<exists>u'. HASH_ADD a u = Some u' \<and> ut_inv u' (as @ [a]) \<and>
    same_core ((heap u)(a := Some (n\<lparr>hashv := HASH_VALUE (key n), keylen := sizeof_record_key_t\<rparr>))) (heap u') \<and>
    (\<forall>c. c \<notin> insert a (set as) \<longrightarrow> heap u' c = heap u c)"
proof -
  obtain u' where u': "HASH_ADD a u = Some u'" "ut_linked u' (as @ [a])"
    and sc: "same_core ((heap u)(a := Some (n\<lparr>hashv := HASH_VALUE (key n), keylen := sizeof_record_key_t\<rparr>))) (heap u')"
    and out: "\<forall>c. c \<notin> insert a (set as) \<longrightarrow> heap u' c = heap u c"
    using HASH_ADD_linked [OF _ a] inv by (auto simp: ut_inv_linked)
  have "inj_on (key_at (heap u')) (set (as @ [a]))"
    using keys_insert [OF _ _ a(1) fresh _ sc, where bs = "as @ [a]"] inv by (simp add: ut_inv_def)
  then show ?thesis using u' sc out by (auto simp: ut_inv_linked)
qed

subsection \<open>HASH_DELETE\<close>

lemma HASH_DELETE_ok:
  assumes inv: "ut_inv u as" and a: "a \<in> set as"
  shows "\<exists>u'. HASH_DELETE a u = Some u' \<and> ut_inv u' (remove1 a as) \<and>
    same_core (heap u) (heap u') \<and> (\<forall>c. c \<notin> set as \<longrightarrow> heap u' c = heap u c)"
proof -
  have d: "distinct as" using inv by (simp add: ut_inv_def)
  obtain xs ys where split: "as = xs @ a # ys" using a by (auto simp: in_set_conv_decomp)
  have rem: "remove1 a as = xs @ ys" using d split by (simp add: remove1_append)
  obtain t m where t: "tbl u = Some t" "table_ok (heap u) (head u) t as"
    and hd: "head u = Some (hd as)" "heap u (hd as) = Some m"
    using ut_invE [OF inv] a by (metis empty_iff list.set(1))
  obtain n where n: "heap u a = Some n" "hashv n = HASH_VALUE (key n)"
    using inv a by (rule ut_inv_elem)
  have seg: "dseg (app_links (heap u)) None (head u) (xs @ a # ys) (tail t) None"
    and num: "num_items t = length as" and pos: "0 < num_buckets t"
    and B: "bkts (heap u) (num_buckets t) (buckets t) (set as)"
    using t(2) by (simp_all add: table_ok_def split)
  note dist = d [unfolded split]
  have pv: "prev n = (if xs = [] then None else Some (last xs))"
    and nx: "nxt n = (if ys = [] then None else Some (List.hd ys))"
    using app_order.unlink(1,2) [OF seg dist n(1)] by simp_all
  show ?thesis
  proof (cases "xs = [] \<and> ys = []")
    case True
    then have "HASH_DELETE a u = Some (u\<lparr>head := None, tbl := None\<rparr>)"
      using n t(1) hd pv nx by (simp add: HASH_DELETE_def)
    then show ?thesis using True rem by (auto simp: ut_inv_Nil)
  next
    case False
    then have multi: "\<not> (prev n = None \<and> nxt n = None)" using pv nx by auto
    obtain h1 h2 where r1: "modify_if (prev n) (\<lambda>m. m\<lparr>nxt := nxt n\<rparr>) (heap u) = Some h1"
      and a1: "h1 a = Some n" and r2: "modify_if (nxt n) (\<lambda>m. m\<lparr>prev := prev n\<rparr>) h1 = Some h2"
      and a2: "h2 a = Some n"
      and seg2: "dseg (app_links h2) None (if xs = [] then nxt n else head u) (xs @ ys)
                   (if ys = [] then prev n else tail t) None"
      and out: "\<forall>c. c \<notin> set (xs @ ys) \<longrightarrow> h2 c = heap u c"
      using app_order.unlink(3) [OF seg dist n(1)] by blast
    have sc: "same_core (heap u) h2"
      using same_core_trans [OF same_core_modify_if [OF r1] same_core_modify_if [OF r2]] by simp
    have bl: "bkt_links h2 = bkt_links (heap u)"
      using links_of_modify_if [OF r1, of hh_prev hh_next] links_of_modify_if [OF r2, of hh_prev hh_next] by simp
    define t1 where "t1 = (if tail t = Some a then t\<lparr>tail := prev n\<rparr> else t)"
    have "tail t = Some a \<longleftrightarrow> ys = []"
      using dseg_last [OF seg] dist by (cases ys rule: rev_cases) auto
    then have t1: "tail t1 = (if ys = [] then prev n else tail t)" "num_buckets t1 = num_buckets t"
        "buckets t1 = buckets t" "num_items t1 = num_items t"
      by (auto simp: t1_def)
    let ?hd = "if prev n \<noteq> None then head u else nxt n"
    have hd': "?hd = (if xs = [] then nxt n else head u)" using pv by simp
    have ne: "xs @ ys \<noteq> []" using False by auto
    obtain m' where m': "deref h2 ?hd = Some m'"
      using dseg_first [OF seg2] ne dseg_alloc [OF seg2, of "List.hd (xs @ ys)"] hd_in_set [OF ne]
      unfolding hd' by auto
    have B1: "bkts h2 (num_buckets t1) (buckets t1) (set as)"
      using B by (simp add: t1 bkts_same [OF bl sc])
    have "0 < num_buckets t1" using pos t1 by simp
    from HASH_DEL_IN_BKT_ok [OF B1 a a2 refl this]
    obtain t' h' where r3: "HASH_DEL_IN_BKT (HASH_TO_BKT (hashv n) (num_buckets t1)) a t1 h2 = Some (t', h')"
      and B': "bkts h' (num_buckets t') (buckets t') (set as - {a})"
      and t': "num_buckets t' = num_buckets t1" "num_items t' = num_items t1" "tail t' = tail t1"
      and sc': "same_core h2 h'" and app: "app_links h' = app_links h2"
      and out': "\<forall>c. c \<notin> set as \<longrightarrow> h' c = h2 c"
      by blast
    let ?u = "u\<lparr>heap := h', head := ?hd, tbl := Some (t'\<lparr>num_items := num_items t' - 1\<rparr>)\<rparr>"
    have run: "HASH_DELETE a u = Some ?u"
      using n(1) t(1) hd multi r1 a1 r2 a2 m' r3
      by (simp add: HASH_DELETE_def Let_def t1_def [symmetric] del: modify_if_simps) auto
    have scu: "same_core (heap u) (heap ?u)" using same_core_trans [OF sc sc'] by simp
    have "set as - {a} = set (xs @ ys)" using dist split by auto
    then have tab: "table_ok h' ?hd (t'\<lparr>num_items := num_items t' - 1\<rparr>) (xs @ ys)"
      using seg2 B' t' t1 pos num app split unfolding hd' by (simp add: table_ok_def)
    have el: "elems h' (xs @ ys)"
    proof (rule elems_same_core [OF same_core_trans [OF sc sc']])
      show "elems (heap u) (xs @ ys)" using inv split by (auto simp: ut_inv_def elems_def)
    qed
    have inj: "inj_on (key_at h') (set (xs @ ys))"
      using inv split by (auto simp: ut_inv_def inj_on_def same_core_key_at [OF same_core_trans [OF sc sc']])
    have "ut_inv ?u (xs @ ys)"
      unfolding ut_inv_def using tab el inj dist ne by auto
    then show ?thesis using run scu rem out out' split by auto
  qed
qed

subsection \<open>The list of elements\<close>

text \<open>Following \<open>next\<close> from an element, as \<open>HASH_ITER\<close> does.\<close>

partial_function (option) ut_walk :: "'a ut_node_scheme memory \<Rightarrow> ptr \<Rightarrow> addr list option" where
  "ut_walk h p =
     (case p of
        None \<Rightarrow> Some []
      | Some a \<Rightarrow> do { n \<leftarrow> h a; as \<leftarrow> ut_walk h (nxt n); Some (a # as) })"

lemma ut_walk_dseg: "dseg (app_links h) b p as e None \<Longrightarrow> ut_walk h p = Some as"
proof (induction as arbitrary: b p)
  case Nil
  then show ?case by (simp add: ut_walk.simps)
next
  case (Cons a as)
  obtain n where n: "h a = Some n" using dseg_alloc [OF Cons.prems, of a] by auto
  then have "p = Some a" "dseg (app_links h) (Some a) (nxt n) as e None" using Cons.prems by auto
  then show ?case using Cons.IH n by (subst ut_walk.simps) simp
qed

lemma ut_linked_walk:
  assumes "ut_linked u as"
  shows "ut_walk (heap u) (head u) = Some as"
proof (cases "as = []")
  case True
  then show ?thesis using assms by (simp add: ut_linked_Nil ut_walk.simps)
next
  case False
  obtain t where "table_ok (heap u) (head u) t as" using ut_linkedE [OF assms False] by blast
  then show ?thesis unfolding table_ok_def using ut_walk_dseg by blast
qed

lemma ut_inv_walk: "ut_inv u as \<Longrightarrow> ut_walk (heap u) (head u) = Some as"
  by (simp add: ut_inv_linked ut_linked_walk)

lemma ut_inv_unique: "ut_inv u as \<Longrightarrow> ut_inv u bs \<Longrightarrow> as = bs"
  using ut_inv_walk [of u as] ut_inv_walk [of u bs] by simp

lemma ut_inv_head: "ut_inv u as \<Longrightarrow> head u = (if as = [] then None else Some (hd as))"
  by (cases "as = []") (auto simp: ut_inv_Nil elim: ut_invE)

lemma ut_inv_next:
  assumes inv: "ut_inv u (xs @ a # ys)" and n: "heap u a = Some n"
  shows "nxt n = (if ys = [] then None else Some (hd ys))"
proof -
  obtain t where "table_ok (heap u) (head u) t (xs @ a # ys)" using ut_invE [OF inv] by blast
  then have "app_links (heap u) a =
      Some (if xs = [] then None else Some (last xs), if ys = [] then None else Some (hd ys))"
    unfolding table_ok_def using dseg_mid by blast
  then show ?thesis using n by simp
qed

text \<open>
  The table depends on the embedded handle and key only: whatever else is in the elements,
  and cells outside the table, may change.
\<close>

lemma ut_linked_cong:
  assumes inv: "ut_linked u as"
    and same: "\<And>a. a \<in> set as \<Longrightarrow> map_option ut_node.truncate (h' a) = map_option ut_node.truncate (heap u a)"
  shows "ut_linked (u\<lparr>heap := h'\<rparr>) as \<and> (\<forall>a\<in>set as. key_at h' a = key_at (heap u) a)"
proof -
  have el: "\<exists>n'. h' a = Some n' \<and> ut_node.truncate n' = ut_node.truncate n"
    if "a \<in> set as" "heap u a = Some n" for a n
    using same [OF that(1)] that(2) by (cases "h' a") auto
  have al: "\<exists>n n'. heap u a = Some n \<and> h' a = Some n' \<and> ut_node.truncate n' = ut_node.truncate n"
    if "a \<in> set as" for a
    using inv el [OF that] that by (auto simp: ut_linked_def elems_def)
  have fields: "key n' = key n" "hashv n' = hashv n" "keylen n' = keylen n" "prev n' = prev n"
      "nxt n' = nxt n" "hh_prev n' = hh_prev n" "hh_next n' = hh_next n"
    if "ut_node.truncate n' = ut_node.truncate n" for n n' :: "'a ut_node_scheme"
    using that by (cases n; cases n'; simp add: ut_node.truncate_def)+
  have links: "app_links h' a = app_links (heap u) a" "bkt_links h' a = bkt_links (heap u) a"
      "key_at h' a = key_at (heap u) a" "bkt_of h' N a = bkt_of (heap u) N a"
    if a: "a \<in> set as" for a N
  proof -
    obtain n n' where n: "heap u a = Some n" "h' a = Some n'"
      and eq: "ut_node.truncate n' = ut_node.truncate n" using al [OF a] by blast
    show "app_links h' a = app_links (heap u) a" "bkt_links h' a = bkt_links (heap u) a"
      "key_at h' a = key_at (heap u) a" "bkt_of h' N a = bkt_of (heap u) N a"
      using n fields [OF eq] by (simp_all add: links_of_def key_at_def bkt_of_def)
  qed
  have "elems h' as"
    unfolding elems_def
  proof
    fix a assume a: "a \<in> set as"
    then obtain n where n: "heap u a = Some n" "elem_ok n" using inv by (auto simp: ut_linked_def elems_def)
    obtain n' where "h' a = Some n'" "ut_node.truncate n' = ut_node.truncate n" using el [OF a n(1)] by blast
    then show "\<exists>n. h' a = Some n \<and> elem_ok n" using n(2) fields unfolding elem_ok_def by metis
  qed
  moreover have "table_ok h' p t as \<longleftrightarrow> table_ok (heap u) p t as" for p t
    using dseg_cong [of as "app_links h'" "app_links (heap u)"] links(1)
      bkts_cong [of "set as" h' "heap u"] links(2,4) by (simp add: table_ok_def)
  ultimately show ?thesis using inv links(3) by (simp add: ut_linked_def)
qed

lemma ut_inv_cong:
  assumes inv: "ut_inv u as"
    and same: "\<And>a. a \<in> set as \<Longrightarrow> map_option ut_node.truncate (h' a) = map_option ut_node.truncate (heap u a)"
  shows "ut_inv (u\<lparr>heap := h'\<rparr>) as"
proof -
  have "ut_linked u as" using inv by (simp add: ut_inv_linked)
  from ut_linked_cong [OF this same] show ?thesis using inv by (simp add: ut_inv_linked inj_on_def)
qed

subsection \<open>The contract for clients\<close>

text \<open>
  A sequence of operations of the same kind, each of which may fault. Deleting every element
  while iterating is \<open>run_all HASH_DELETE\<close> of the elements.
\<close>

fun run_all :: "('a \<Rightarrow> 't \<Rightarrow> 't option) \<Rightarrow> 'a list \<Rightarrow> 't \<Rightarrow> 't option" where
  "run_all f [] t = Some t"
| "run_all f (x # xs) t = do { t \<leftarrow> f x t; run_all f xs t }"

lemma find_app: "find P (xs @ ys) = (case find P xs of None \<Rightarrow> find P ys | Some a \<Rightarrow> Some a)"
  by (induction xs) auto

lemma find_SomeD: "find P xs = Some a \<Longrightarrow> a \<in> set xs \<and> P a"
  by (induction xs) (auto split: if_splits)

lemma find_NoneD: "find P xs = None \<Longrightarrow> \<forall>a\<in>set xs. \<not> P a"
  by (induction xs) (auto split: if_splits)

text \<open>
  An index of elements by key that also keeps them in order: \<open>inv t as\<close> says that the
  elements are \<open>as\<close>. An element with a key that is not present is added at the end.
\<close>

locale keyed_index =
  fixes inv :: "'t \<Rightarrow> addr list \<Rightarrow> bool"
    and key_of :: "'t \<Rightarrow> addr \<Rightarrow> 'k option"
    and add :: "addr \<Rightarrow> 't \<Rightarrow> 't option"
    and del :: "addr \<Rightarrow> 't \<Rightarrow> 't option"
    and look :: "'t \<Rightarrow> 'k \<Rightarrow> ptr option"
    and cnt :: "'t \<Rightarrow> nat option"
  assumes inv_distinct: "inv t as \<Longrightarrow> distinct as"
    and inv_inj: "inv t as \<Longrightarrow> inj_on (key_of t) (set as)"
    and look_eq: "inv t as \<Longrightarrow> look t k = Some (find (\<lambda>a. key_of t a = Some k) as)"
    and cnt_eq: "inv t as \<Longrightarrow> cnt t = Some (length as)"
    and add_eq: "inv t as \<Longrightarrow> a \<notin> set as \<Longrightarrow> key_of t a = Some k \<Longrightarrow> \<forall>c\<in>set as. key_of t c \<noteq> Some k \<Longrightarrow>
      \<exists>t'. add a t = Some t' \<and> inv t' (as @ [a]) \<and> key_of t' = key_of t"
    and del_eq: "inv t as \<Longrightarrow> a \<in> set as \<Longrightarrow>
      \<exists>t'. del a t = Some t' \<and> inv t' (remove1 a as) \<and> key_of t' = key_of t"
begin

lemma look_SomeD:
  assumes "inv t as" and "look t k = Some (Some a)"
  shows "a \<in> set as \<and> key_of t a = Some k"
  using assms look_eq [OF assms(1), of k] by (auto dest!: find_SomeD)

lemma look_NoneD:
  assumes "inv t as" and "look t k = Some None"
  shows "\<forall>c\<in>set as. key_of t c \<noteq> Some k"
proof -
  have "find (\<lambda>a. key_of t a = Some k) as = None" using assms look_eq [OF assms(1), of k] by simp
  then show ?thesis by (rule find_NoneD)
qed

lemma look_Some:
  assumes inv: "inv t as" and a: "a \<in> set as" "key_of t a = Some k"
  shows "look t k = Some (Some a)"
proof (cases "find (\<lambda>a. key_of t a = Some k) as")
  case None
  then show ?thesis using find_NoneD a by fastforce
next
  case (Some b)
  then have "b \<in> set as" "key_of t b = key_of t a" using find_SomeD [OF Some] a by simp_all
  then have "b = a" using inv_inj [OF inv] a(1) by (simp add: inj_on_def)
  then show ?thesis using look_eq [OF inv] Some by simp
qed

lemma look_None: "inv t as \<Longrightarrow> \<forall>c\<in>set as. key_of t c \<noteq> Some k \<Longrightarrow> look t k = Some None"
  using look_eq [of t as k] by (simp add: find_None_iff)

lemma look_total: "inv t as \<Longrightarrow> \<exists>p. look t k = Some p"
  using look_eq [of t as k] by simp

text \<open>Lookup and count after an insertion and after a deletion.\<close>

lemma look_add:
  assumes inv: "inv t as" and a: "a \<notin> set as" "key_of t a = Some k" and absent: "look t k = Some None"
  shows "\<exists>t'. add a t = Some t' \<and> inv t' (as @ [a]) \<and> cnt t' = Some (Suc (length as)) \<and>
    look t' k = Some (Some a) \<and> (\<forall>k'. k' \<noteq> k \<longrightarrow> look t' k' = look t k')"
proof -
  obtain t' where t': "add a t = Some t'" "inv t' (as @ [a])" "key_of t' = key_of t"
    using add_eq [OF inv a look_NoneD [OF inv absent]] by blast
  have "look t' k' = look t k'" if "k' \<noteq> k" for k'
    using look_eq [OF t'(2), of k'] look_eq [OF inv, of k'] t'(3) a(2) that
    by (simp add: find_app split: option.split)
  then show ?thesis
    using t' look_Some [OF t'(2), of a k] cnt_eq [OF t'(2)] a(2) by simp
qed

lemma look_del:
  assumes inv: "inv t as" and a: "a \<in> set as" "key_of t a = Some k"
  shows "\<exists>t'. del a t = Some t' \<and> inv t' (remove1 a as) \<and> cnt t' = Some (length as - 1) \<and>
    look t' k = Some None \<and> (\<forall>k'. k' \<noteq> k \<longrightarrow> look t' k' = look t k')"
proof -
  obtain t' where t': "del a t = Some t'" "inv t' (remove1 a as)" "key_of t' = key_of t"
    using del_eq [OF inv a(1)] by blast
  have d: "distinct as" using inv_distinct [OF inv] .
  have rest: "set (remove1 a as) = set as - {a}" using d by simp
  have "\<forall>c\<in>set (remove1 a as). key_of t' c \<noteq> Some k"
    unfolding rest t'(3) using inv_inj [OF inv] a by (auto simp: inj_on_def)
  then have "look t' k = Some None" by (rule look_None [OF t'(2)])
  moreover have "look t' k' = look t k'" if "k' \<noteq> k" for k'
  proof (cases "look t k'")
    case (Some p)
    show ?thesis
    proof (cases p)
      case None
      then have "\<forall>c\<in>set as. key_of t c \<noteq> Some k'" using look_NoneD [OF inv] Some by simp
      then have "look t' k' = Some None"
        by (intro look_None [OF t'(2)]) (simp add: rest t'(3))
      then show ?thesis using Some None by simp
    next
      case (Some c)
      then have c: "c \<in> set as" "key_of t c = Some k'"
        using look_SomeD [OF inv] \<open>look t k' = Some p\<close> by simp_all
      then have "look t' k' = Some (Some c)"
        by (intro look_Some [OF t'(2)]) (use a that in \<open>auto simp: rest t'(3)\<close>)
      then show ?thesis using \<open>look t k' = Some p\<close> Some by simp
    qed
  next
    case None
    then show ?thesis using look_total [OF inv, of k'] by simp
  qed
  ultimately show ?thesis using t' cnt_eq [OF t'(2)] a(1) by (simp add: length_remove1)
qed

text \<open>Deleting all elements, in any order, leaves an empty index.\<close>

lemma del_all:
  assumes "inv t as" and "distinct bs" and "set bs \<subseteq> set as"
  shows "\<exists>t'. run_all del bs t = Some t' \<and> inv t' (filter (\<lambda>a. a \<notin> set bs) as) \<and> key_of t' = key_of t"
  using assms
proof (induction bs arbitrary: t as)
  case Nil
  then show ?case by simp
next
  case (Cons b bs)
  obtain t1 where t1: "del b t = Some t1" "inv t1 (remove1 b as)" "key_of t1 = key_of t"
    using del_eq [OF Cons.prems(1)] Cons.prems(3) by auto
  have d: "distinct as" using inv_distinct [OF Cons.prems(1)] .
  then have rem: "remove1 b as = filter (\<lambda>a. a \<noteq> b) as"
    by (simp add: distinct_remove1_removeAll removeAll_filter_not_eq eq_commute)
  then have "set bs \<subseteq> set (remove1 b as)" using Cons.prems(2,3) by auto
  then obtain t' where t': "run_all del bs t1 = Some t'"
      "inv t' (filter (\<lambda>a. a \<notin> set bs) (remove1 b as))" "key_of t' = key_of t1"
    using Cons.IH [OF t1(2)] Cons.prems(2) by auto
  moreover have "filter (\<lambda>a. a \<notin> set bs) (remove1 b as) = filter (\<lambda>a. a \<notin> set (b # bs)) as"
    unfolding rem by (simp add: conj_commute)
  ultimately show ?case using t1 by simp
qed

text \<open>Adding elements with distinct keys, one after the other.\<close>

lemma add_all:
  assumes "inv t as" and "distinct (as @ bs)" and "inj_on (key_of t) (set (as @ bs))"
    and "\<forall>b\<in>set bs. key_of t b \<noteq> None"
  shows "\<exists>t'. run_all add bs t = Some t' \<and> inv t' (as @ bs) \<and> key_of t' = key_of t"
  using assms
proof (induction bs arbitrary: t as)
  case Nil
  then show ?case by simp
next
  case (Cons b bs)
  obtain k where k: "key_of t b = Some k" using Cons.prems(4) by auto
  have "\<forall>c\<in>set as. key_of t c \<noteq> Some k"
    unfolding k [symmetric] using Cons.prems(2,3) by (fastforce simp: inj_on_def)
  then obtain t1 where t1: "add b t = Some t1" "inv t1 (as @ [b])" "key_of t1 = key_of t"
    using add_eq [OF Cons.prems(1) _ k] Cons.prems(2) by auto
  then show ?case
    using Cons.IH [OF t1(2)] Cons.prems(2-4) by simp
qed

end

subsection \<open>uthash provides the contract\<close>

interpretation uth: keyed_index ut_inv "\<lambda>u. key_at (heap u)" HASH_ADD HASH_DELETE HASH_FIND HASH_COUNT
proof unfold_locales
  fix u :: "'a ut_node_scheme uthash" and as a k
  assume inv: "ut_inv u as"
  show "distinct as" and "inj_on (key_at (heap u)) (set as)"
    using inv by (simp_all add: ut_inv_def)
  show "HASH_FIND u k = Some (find (\<lambda>a. key_at (heap u) a = Some k) as)"
    using inv by (rule HASH_FIND_ok)
  show "HASH_COUNT u = Some (length as)"
    using inv by (rule HASH_COUNT_ok)
  show "\<exists>u'. HASH_ADD a u = Some u' \<and> ut_inv u' (as @ [a]) \<and> key_at (heap u') = key_at (heap u)"
    if new: "a \<notin> set as" and k: "key_at (heap u) a = Some k" and fr: "\<forall>c\<in>set as. key_at (heap u) c \<noteq> Some k"
  proof -
    obtain n where n: "heap u a = Some n" "key n = k" using k by (auto simp: key_at_def)
    obtain u' where u': "HASH_ADD a u = Some u'" "ut_inv u' (as @ [a])"
      and sc: "same_core ((heap u)(a := Some (n\<lparr>hashv := HASH_VALUE (key n), keylen := sizeof_record_key_t\<rparr>))) (heap u')"
      using HASH_ADD_ok [OF inv new n(1)] fr n(2) by blast
    have "key_at (heap u') = key_at (heap u)"
      using same_core_key_at [OF sc] n(1) by (auto simp: key_at_def fun_eq_iff)
    then show ?thesis using u' by blast
  qed
  show "\<exists>u'. HASH_DELETE a u = Some u' \<and> ut_inv u' (remove1 a as) \<and> key_at (heap u') = key_at (heap u)"
    if "a \<in> set as"
    using HASH_DELETE_ok [OF inv that] same_core_key_at by (metis ext)
qed

subsection \<open>Properties\<close>

text \<open>
  C25: looking up a key ends, faults nowhere, and returns the one element of the table
  with that key, or NULL exactly when no element has it, whatever chain the key hashes to.
\<close>

theorem HASH_FIND_exact:
  assumes "ut_inv u as"
  shows "(\<exists>a\<in>set as. key_at (heap u) a = Some k \<and> HASH_FIND u k = Some (Some a)) \<or>
    ((\<forall>a\<in>set as. key_at (heap u) a \<noteq> Some k) \<and> HASH_FIND u k = Some None)"
  using uth.look_total [OF assms, of k] uth.look_SomeD [OF assms, of k] uth.look_NoneD [OF assms, of k]
  by (metis not_Some_eq)

text \<open>
  C26: adding an element whose key is absent succeeds, whether or not the table exists yet
  and whether or not the buckets are expanded; the element goes to the end of the app order,
  the count grows by one, its key is now found and every other key is found as before.
\<close>

theorem HASH_ADD_lookup:
  assumes "ut_inv u as" and "a \<notin> set as" and "heap u a = Some n" and "HASH_FIND u (key n) = Some None"
  shows "\<exists>u'. HASH_ADD a u = Some u' \<and> ut_inv u' (as @ [a]) \<and> HASH_COUNT u' = Some (Suc (length as)) \<and>
    HASH_FIND u' (key n) = Some (Some a) \<and> (\<forall>k. k \<noteq> key n \<longrightarrow> HASH_FIND u' k = HASH_FIND u k)"
  by (rule uth.look_add [OF assms(1,2) _ assms(4)]) (simp add: key_at_def assms(3))

text \<open>
  C27: deleting an element of the table succeeds; the others keep their order, the count
  drops by one, the key is gone and every other key is found as before.
\<close>

theorem HASH_DELETE_lookup:
  assumes "ut_inv u as" and "a \<in> set as" and "heap u a = Some n"
  shows "\<exists>u'. HASH_DELETE a u = Some u' \<and> ut_inv u' (remove1 a as) \<and> HASH_COUNT u' = Some (length as - 1) \<and>
    HASH_FIND u' (key n) = Some None \<and> (\<forall>k. k \<noteq> key n \<longrightarrow> HASH_FIND u' k = HASH_FIND u k)"
  by (rule uth.look_del [OF assms(1,2)]) (simp add: key_at_def assms(3))

text \<open>
  Doubling the bucket array ends and keeps the table: the same elements in the
  same order, every key found as before, twice as many buckets, and no element is changed
  besides the links of its chain.
\<close>

theorem HASH_EXPAND_keeps_index:
  assumes "ut_inv u as" and "tbl u = Some t"
  shows "\<exists>t' h'. HASH_EXPAND_BUCKETS t (heap u) = Some (t', h') \<and>
    ut_inv (u\<lparr>heap := h', tbl := Some t'\<rparr>) as \<and> num_buckets t' = 2 * num_buckets t \<and>
    HASH_FIND (u\<lparr>heap := h', tbl := Some t'\<rparr>) k = HASH_FIND u k \<and>
    same_core (heap u) h' \<and> app_links h' = app_links (heap u)"
proof -
  have ne: "as \<noteq> []" using assms by (auto simp: ut_inv_Nil)
  then have tab: "table_ok (heap u) (head u) t as" using assms by (auto simp: ut_inv_def)
  obtain t' h' where r: "HASH_EXPAND_BUCKETS t (heap u) = Some (t', h')"
    and B: "bkts h' (num_buckets t') (buckets t') (set as)"
    and t': "num_buckets t' = 2 * num_buckets t" "num_items t' = num_items t" "tail t' = tail t"
    and sc: "same_core (heap u) h'" and app: "app_links h' = app_links (heap u)"
    using HASH_EXPAND_BUCKETS_ok [of "heap u" t "set as"] tab by (auto simp: table_ok_def)
  let ?u = "u\<lparr>heap := h', tbl := Some t'\<rparr>"
  have "table_ok h' (head u) t' as" using tab B t' app by (simp add: table_ok_def)
  moreover have "elems h' as" using elems_same_core [OF sc] assms(1) by (simp add: ut_inv_def)
  ultimately have inv: "ut_inv ?u as"
    using assms(1) ne by (simp add: ut_inv_def inj_on_def same_core_key_at [OF sc])
  have "HASH_FIND ?u k = HASH_FIND u k"
    using uth.look_eq [OF inv, of k] uth.look_eq [OF assms(1), of k] by (simp add: same_core_key_at [OF sc])
  then show ?thesis using r inv t' sc app by blast
qed

text \<open>
  Deleting the elements one by one in app order, as a \<open>HASH_ITER\<close> loop that deletes
  does, never faults and leaves an empty table: no head, no \<open>UT_hash_table\<close>, no key found.
\<close>

theorem HASH_DELETE_all:
  assumes "ut_inv u as"
  shows "\<exists>u'. run_all HASH_DELETE as u = Some u' \<and> head u' = None \<and> tbl u' = None \<and>
    HASH_COUNT u' = Some 0 \<and> HASH_FIND u' k = Some None"
proof -
  obtain u' where r: "run_all HASH_DELETE as u = Some u'" and inv: "ut_inv u' (filter (\<lambda>a. a \<notin> set as) as)"
    using uth.del_all [OF assms uth.inv_distinct [OF assms] subset_refl] by blast
  have "filter (\<lambda>a. a \<notin> set as) as = []" by simp
  then show ?thesis
    using r inv uth.look_None [of u' "[]" k] by (simp add: ut_inv_Nil HASH_COUNT_def)
qed

subsection \<open>The properties on a table of two elements\<close>

definition ut_ex_node :: "u64 \<Rightarrow> ut_node" where
  "ut_ex_node k = \<lparr>key = k, prev = None, nxt = None, hh_prev = None, hh_next = None, keylen = 0, hashv = 0\<rparr>"

definition ut_ex :: "ut_node uthash" where
  "ut_ex = \<lparr>heap = [0 \<mapsto> ut_ex_node 10, 1 \<mapsto> ut_ex_node 11, 2 \<mapsto> ut_ex_node 12], head = None, tbl = None\<rparr>"

lemma ut_ex_keys: "key_at (heap ut_ex) = [0 \<mapsto> 10, 1 \<mapsto> 11, 2 \<mapsto> 12]"
  by (auto simp: ut_ex_def ut_ex_node_def key_at_def fun_eq_iff)

lemma ut_ex_two:
  "\<exists>u. run_all HASH_ADD [0, 1] ut_ex = Some u \<and> ut_inv u [0, 1] \<and> key_at (heap u) = [0 \<mapsto> 10, 1 \<mapsto> 11, 2 \<mapsto> 12]"
proof -
  have "ut_inv ut_ex []" by (simp add: ut_inv_Nil) (simp add: ut_ex_def)
  from uth.add_all [OF this, of "[0, 1]"] show ?thesis
    by (simp add: ut_ex_keys inj_on_def)
qed

lemma HASH_FIND_exact_witness:
  "\<exists>u. run_all HASH_ADD [0, 1] ut_ex = Some u \<and> HASH_FIND u 11 = Some (Some 1) \<and> HASH_FIND u 12 = Some None"
proof -
  obtain u where u: "run_all HASH_ADD [0, 1] ut_ex = Some u" "ut_inv u [0, 1]"
      "key_at (heap u) = [0 \<mapsto> 10, 1 \<mapsto> 11, 2 \<mapsto> 12]"
    using ut_ex_two by blast
  show ?thesis using u HASH_FIND_exact [OF u(2), of 11] HASH_FIND_exact [OF u(2), of 12] by auto
qed

lemma HASH_ADD_lookup_witness:
  "\<exists>u u'. run_all HASH_ADD [0, 1] ut_ex = Some u \<and> HASH_ADD 2 u = Some u' \<and> HASH_COUNT u' = Some 3 \<and>
     HASH_FIND u' 12 = Some (Some 2) \<and> HASH_FIND u' 10 = HASH_FIND u 10"
proof -
  obtain u where u: "run_all HASH_ADD [0, 1] ut_ex = Some u" "ut_inv u [0, 1]"
      "key_at (heap u) = [0 \<mapsto> 10, 1 \<mapsto> 11, 2 \<mapsto> 12]"
    using ut_ex_two by blast
  obtain n where n: "heap u 2 = Some n" "key n = 12"
    using fun_cong [OF u(3), of 2] by (auto simp: key_at_def)
  have "HASH_FIND u (key n) = Some None" using uth.look_None [OF u(2), of 12] u(3) n(2) by simp
  from HASH_ADD_lookup [OF u(2) _ n(1) this] show ?thesis
    using u(1) n(2) by (auto simp: numeral_3_eq_3)
qed

lemma HASH_DELETE_lookup_witness:
  "\<exists>u u'. run_all HASH_ADD [0, 1] ut_ex = Some u \<and> HASH_DELETE 0 u = Some u' \<and> HASH_COUNT u' = Some 1 \<and>
     HASH_FIND u' 10 = Some None \<and> HASH_FIND u' 11 = HASH_FIND u 11"
proof -
  obtain u where u: "run_all HASH_ADD [0, 1] ut_ex = Some u" "ut_inv u [0, 1]"
      "key_at (heap u) = [0 \<mapsto> 10, 1 \<mapsto> 11, 2 \<mapsto> 12]"
    using ut_ex_two by blast
  obtain n where n: "heap u 0 = Some n" "key n = 10"
    using fun_cong [OF u(3), of 0] by (auto simp: key_at_def)
  show ?thesis using u(1) HASH_DELETE_lookup [OF u(2) _ n(1)] n(2) by auto
qed

lemma HASH_EXPAND_keeps_index_witness:
  "\<exists>u t t' h'. run_all HASH_ADD [0, 1] ut_ex = Some u \<and> tbl u = Some t \<and>
     HASH_EXPAND_BUCKETS t (heap u) = Some (t', h') \<and> num_buckets t' = 2 * num_buckets t \<and>
     HASH_FIND (u\<lparr>heap := h', tbl := Some t'\<rparr>) 11 = HASH_FIND u 11"
proof -
  obtain u where u: "run_all HASH_ADD [0, 1] ut_ex = Some u" "ut_inv u [0, 1]"
    using ut_ex_two by blast
  then obtain t where t: "tbl u = Some t" by (auto simp: ut_inv_def)
  show ?thesis using u(1) t HASH_EXPAND_keeps_index [OF u(2) t, of 11] by blast
qed

lemma HASH_DELETE_all_witness:
  "\<exists>u u'. run_all HASH_ADD [0, 1] ut_ex = Some u \<and> run_all HASH_DELETE [0, 1] u = Some u' \<and>
     HASH_COUNT u' = Some 0 \<and> HASH_FIND u' 10 = Some None"
proof -
  obtain u where u: "run_all HASH_ADD [0, 1] ut_ex = Some u" "ut_inv u [0, 1]"
    using ut_ex_two by blast
  show ?thesis using u(1) HASH_DELETE_all [OF u(2), of 10] by blast
qed

end
