(* ===== verification/Server_Store.thy ===== *)
theory Server_Store
  imports Opof_Types Rand_Range Uthash_Ops
begin

text \<open>
  The session store of the test server, \<open>src/opof_server_test.c\<close> with the record type of
  \<open>include/opof_hash.h\<close>: the five functions that the C server interface asks of an offload
  device. The global \<open>sessions\<close> is the head of the hash table \<open>ut\<close>; the global \<open>start\<close> is
  where the next page of a listing begins; \<open>brk\<close> is the first address not yet allocated
  and \<open>gen\<close> the state of \<open>rand()\<close>. \<open>malloc\<close> succeeds.
\<close>

subsection \<open>State\<close>

text \<open>The record of a session; \<open>key.sessionId\<close> and \<open>hh\<close> are the fields of \<open>ut_node\<close>.\<close>

record record_t = ut_node +
  inLif :: u32
  outLif :: u32
  ipVersion :: u32
  sourceIp :: u32
  sourcePort :: u32
  dstIp :: u32
  rec_dstPort :: u32         \<comment> \<open>\<open>dstPort\<close>\<close>
  inPackets :: u64
  outPackets :: u64
  inBytes :: u64
  outBytes :: u64
  protocolId :: u32
  actionValue :: u32
  sessionState :: u32
  sessionClose :: u32

record server =
  ut :: "record_t uthash"
  start :: ptr
  brk :: addr
  gen :: rng

definition HASHTABLE_SIZE :: nat where
  "HASHTABLE_SIZE = 1000"

text \<open>\<open>memset(r, 0, sizeof(*r))\<close>\<close>

definition zero_record :: record_t where
  "zero_record =
     \<lparr>key = 0, prev = None, nxt = None, hh_prev = None, hh_next = None, keylen = 0, hashv = 0,
      inLif = 0, outLif = 0, ipVersion = 0, sourceIp = 0, sourcePort = 0, dstIp = 0, rec_dstPort = 0,
      inPackets = 0, outPackets = 0, inBytes = 0, outBytes = 0,
      protocolId = 0, actionValue = 0, sessionState = 0, sessionClose = 0\<rparr>"

abbreviation records :: "server \<Rightarrow> record_t memory" where
  "records s \<equiv> heap (ut s)"

definition set_heap :: "record_t memory \<Rightarrow> server \<Rightarrow> server" where
  "set_heap h s = s\<lparr>ut := (ut s)\<lparr>heap := h\<rparr>\<rparr>"

text \<open>\<open>(record_t *)malloc(sizeof (record_t))\<close> followed by the \<open>memset\<close>.\<close>

definition alloc_record :: "server \<Rightarrow> addr \<times> server" where
  "alloc_record s = (brk s, set_heap ((records s)(brk s := Some zero_record)) (s\<lparr>brk := brk s + 1\<rparr>))"

definition update_record :: "addr \<Rightarrow> (record_t \<Rightarrow> record_t) \<Rightarrow> server \<Rightarrow> server option" where
  "update_record a f s = do { h \<leftarrow> modify (Some a) f (records s); Some (set_heap h s) }"

definition free_record :: "addr \<Rightarrow> server \<Rightarrow> server option" where
  "free_record a s = do { h \<leftarrow> release (Some a) (records s); Some (set_heap h s) }"

text \<open>The four statistics that several functions draw in the same order.\<close>

definition draw_stats :: "rng \<Rightarrow> ((int \<times> int \<times> int \<times> int) \<times> rng) option" where
  "draw_stats g = do {
     (inp, g) \<leftarrow> range_rand 100 1000 g;
     (outp, g) \<leftarrow> range_rand 110 1500 g;
     (inb, g) \<leftarrow> range_rand 1000 5000 g;
     (outb, g) \<leftarrow> range_rand 1000 5000 g;
     Some ((inp, outp, inb, outb), g) }"

subsection \<open>Adding a session\<close>

definition opof_add_session_server :: "sessionRequest_t \<Rightarrow> server \<Rightarrow> (u32 \<times> server) option" where
  "opof_add_session_server parameters s = do {
     let (r, s) = alloc_record s;
     num_sessions \<leftarrow> HASH_COUNT (ut s);
     if HASHTABLE_SIZE < num_sessions
     then Some (status_code RESOURCE_EXHAUSTED, s)
     else do {
       f \<leftarrow> HASH_FIND (ut s) (sessId parameters);
       if f \<noteq> None
       then Some (status_code ALREADY_EXISTS, s)
       else do {
         s \<leftarrow> update_record r (\<lambda>m. m\<lparr>key := sessId parameters\<rparr>) s;
         u \<leftarrow> HASH_ADD r (ut s);
         let s = s\<lparr>ut := u\<rparr>;
         s \<leftarrow> update_record r (\<lambda>m. m\<lparr>
                inLif := inlif parameters,
                outLif := outlif parameters,
                ipVersion := ipver parameters,
                sourceIp := srcIP parameters,
                sourcePort := ucast (srcPort parameters),
                dstIp := dstIP parameters,
                rec_dstPort := ucast (dstPort parameters)\<rparr>) s;
         ((inp, outp, inb, outb), g) \<leftarrow> draw_stats (gen s);
         s \<leftarrow> update_record r (\<lambda>m. m\<lparr>
                inPackets := of_int inp,
                outPackets := of_int outp,
                inBytes := of_int inb,
                outBytes := of_int outb,
                protocolId := proto parameters,
                sessionState := state_code CLOSED,
                sessionClose := close_code NOT_CLOSED,
                actionValue := action_code FORWARD\<rparr>) (s\<lparr>gen := g\<rparr>);
         Some (status_code OK, s) } } }"

subsection \<open>Getting and deleting a session\<close>

definition opof_get_session_server ::
  "u64 \<Rightarrow> sessionResponse_t \<Rightarrow> server \<Rightarrow> (u32 \<times> sessionResponse_t \<times> server) option" where
  "opof_get_session_server sid response s = do {
     r \<leftarrow> HASH_FIND (ut s) sid;
     if r = None
     then Some (status_code NOT_FOUND, response, s)
     else do {
       m \<leftarrow> deref (records s) r;
       let response = response\<lparr>
         rsp_sessionId := sid,
         rsp_inPackets := inPackets m,
         rsp_outPackets := outPackets m,
         rsp_inBytes := inBytes m,
         rsp_outBytes := outBytes m,
         rsp_sessionState := sessionState m,
         rsp_sessionCloseCode := sessionClose m,
         rsp_requestStatus := request_code ACCEPTED\<rparr>;
       Some (status_code OK, response, s) } }"

definition opof_del_session_server ::
  "u64 \<Rightarrow> sessionResponse_t \<Rightarrow> server \<Rightarrow> (u32 \<times> sessionResponse_t \<times> server) option" where
  "opof_del_session_server sid response s = do {
     r \<leftarrow> HASH_FIND (ut s) sid;
     case r of
       None \<Rightarrow> Some (status_code NOT_FOUND, response, s)
     | Some a \<Rightarrow> do {
         m \<leftarrow> records s a;
         let response = response\<lparr>
           rsp_sessionId := sid,
           rsp_inPackets := inPackets m,
           rsp_outPackets := outPackets m,
           rsp_inBytes := inBytes m,
           rsp_outBytes := outBytes m,
           rsp_sessionState := state_code CLOSED,
           rsp_sessionCloseCode := sessionClose m,
           rsp_requestStatus := request_code ACCEPTED\<rparr>;
         u \<leftarrow> HASH_DELETE a (ut s);
         s \<leftarrow> free_record a (s\<lparr>ut := u\<rparr>);
         Some (status_code OK, response, s) } }"

subsection \<open>Reporting closed sessions\<close>

text \<open>
  The response both listing functions write for the record \<open>m\<close>: the statistics are drawn
  anew, and the session is reported as timed out.
\<close>

definition listed_response :: "record_t \<Rightarrow> int \<times> int \<times> int \<times> int \<Rightarrow> sessionResponse_t \<Rightarrow> sessionResponse_t" where
  "listed_response m = (\<lambda>(inp, outp, inb, outb) response. response\<lparr>
     rsp_sessionId := key m,
     rsp_inPackets := of_int inp,
     rsp_outPackets := of_int outp,
     rsp_inBytes := of_int inb,
     rsp_outBytes := of_int outb,
     rsp_sessionState := sessionState m,
     rsp_sessionCloseCode := close_code TIMEOUT,
     rsp_requestStatus := request_code ACCEPTED\<rparr>)"

text \<open>\<open>(p != NULL) ? p->hh.next : NULL\<close> of \<open>HASH_ITER\<close>\<close>

definition iter_next :: "record_t memory \<Rightarrow> ptr \<Rightarrow> ptr option" where
  "iter_next h p = (case p of None \<Rightarrow> Some None | Some a \<Rightarrow> do { m \<leftarrow> h a; Some (nxt m) })"

text \<open>
  The loop of \<open>opof_get_closed_sessions_server\<close>: \<open>HASH_ITER\<close> with the element \<open>r\<close>, the
  next one \<open>tmp\<close>, the number \<open>i\<close> of responses written and the array \<open>responses\<close>.
\<close>

partial_function (option) closed_loop ::
  "int \<Rightarrow> ptr \<Rightarrow> ptr \<Rightarrow> nat \<Rightarrow> sessionResponse_t list \<Rightarrow> server \<Rightarrow>
   (nat \<times> sessionResponse_t list \<times> server) option" where
  "closed_loop psize r tmp i responses s =
     (case r of
        None \<Rightarrow> Some (i, responses, s)
      | Some a \<Rightarrow> do {
          m \<leftarrow> records s a;
          if sessionState m = state_code CLOSED
          then do {
            response \<leftarrow> load responses i;
            (stats, g) \<leftarrow> draw_stats (gen s);
            responses \<leftarrow> store responses i (listed_response m stats response);
            u \<leftarrow> HASH_DELETE a (ut s);
            s \<leftarrow> free_record a (s\<lparr>ut := u, gen := g\<rparr>);
            let i = i + 1;
            if int i = psize then Some (i, responses, s)
            else do {
              tmp' \<leftarrow> iter_next (records s) tmp;
              closed_loop psize tmp tmp' i responses s } }
          else do {
            tmp' \<leftarrow> iter_next (records s) tmp;
            closed_loop psize tmp tmp' i responses s } })"

definition opof_get_closed_sessions_server ::
  "statisticsRequestArgs_t \<Rightarrow> sessionResponse_t list \<Rightarrow> server \<Rightarrow>
   (nat \<times> sessionResponse_t list \<times> server) option" where
  "opof_get_closed_sessions_server request responses s = do {
     tmp \<leftarrow> iter_next (records s) (head (ut s));
     closed_loop (sint (stat_pageSize request)) (head (ut s)) tmp 0 responses s }"

subsection \<open>Listing all sessions by pages\<close>

text \<open>
  The loop of \<open>getAllSessionsPage\<close> from the record \<open>r\<close>. The result is the number of
  responses, the last session id written (or \<open>sessionStart\<close>), the responses, and the state
  with \<open>start\<close> set for the next page.
\<close>

partial_function (option) page_loop ::
  "int \<Rightarrow> ptr \<Rightarrow> nat \<Rightarrow> u64 \<Rightarrow> sessionResponse_t list \<Rightarrow> server \<Rightarrow>
   (nat \<times> u64 \<times> sessionResponse_t list \<times> server) option" where
  "page_loop psize r i sessionStart responses s =
     (case r of
        None \<Rightarrow> Some (i, sessionStart, responses, s\<lparr>start := None\<rparr>)
      | Some a \<Rightarrow> do {
          response \<leftarrow> load responses i;
          m \<leftarrow> records s a;
          (stats, g) \<leftarrow> draw_stats (gen s);
          responses \<leftarrow> store responses i (listed_response m stats response);
          let s = s\<lparr>gen := g\<rparr>;
          let i = i + 1;
          if int i = psize
          then Some (i, key m, responses, s\<lparr>start := nxt m\<rparr>)
          else page_loop psize (nxt m) i (key m) responses s })"

definition getAllSessionsPage ::
  "int \<Rightarrow> u64 \<Rightarrow> sessionResponse_t list \<Rightarrow> server \<Rightarrow>
   (nat \<times> u64 \<times> sessionResponse_t list \<times> server) option" where
  "getAllSessionsPage psize sessionStart responses s =
     (let s = (if sessionStart = UINT_MAX then s\<lparr>start := head (ut s)\<rparr> else s)
      in if start s = None then Some (0, sessionStart, responses, s)
         else page_loop psize (start s) 0 sessionStart responses s)"

definition opof_get_all_sessions_server ::
  "int \<Rightarrow> u64 \<Rightarrow> int \<Rightarrow> sessionResponse_t list \<Rightarrow> server \<Rightarrow>
   (nat \<times> u64 \<times> sessionResponse_t list \<times> server) option" where
  "opof_get_all_sessions_server pageSize sessionStart pageCount responses s =
     getAllSessionsPage pageSize sessionStart responses s"

text \<open>The server when it starts: no session, no cursor.\<close>

definition server_init :: "rng \<Rightarrow> server" where
  "server_init g =
     \<lparr>ut = \<lparr>heap = (\<lambda>_. None), head = None, tbl = None\<rparr>, start = None, brk = 0, gen = g\<rparr>"

end
