(* ===== verification/Server_Props.thy ===== *)
theory Server_Props
  imports Server_Store
begin

text \<open>
  The session store refines a plain list of sessions. \<open>store_rel s as T\<close> says that the
  server state \<open>s\<close> holds the table \<open>T\<close> (records without their hash handles, in the order they
  were added) at the addresses \<open>as\<close>. Each of the five functions is shown to return, without
  a fault, what the corresponding operation on the list returns.
\<close>

subsection \<open>The abstract table\<close>

text \<open>A record without its hash handle: the session itself.\<close>

definition body :: "record_t \<Rightarrow> record_t" where
  "body m = m\<lparr>prev := None, nxt := None, hh_prev := None, hh_next := None, keylen := 0, hashv := 0\<rparr>"

definition holds :: "record_t memory \<Rightarrow> addr \<Rightarrow> record_t \<Rightarrow> bool" where
  "holds h a r \<longleftrightarrow> map_option body (h a) = Some r"

definition store_rel :: "server \<Rightarrow> addr list \<Rightarrow> record_t list \<Rightarrow> bool" where
  "store_rel s as T \<longleftrightarrow> ut_inv (ut s) as \<and> list_all2 (holds (records s)) as T \<and>
     (\<forall>a\<ge>brk s. records s a = None)"

lemma body_sel [simp]:
  "key (body m) = key m" "sessionState (body m) = sessionState m" "sessionClose (body m) = sessionClose m"
  "inPackets (body m) = inPackets m" "outPackets (body m) = outPackets m"
  "inBytes (body m) = inBytes m" "outBytes (body m) = outBytes m"
  by (simp_all add: body_def)

lemma body_core: "body (core m) = body m"
  by (simp add: body_def core_def)

lemma body_core_eq: "core m = core n \<Longrightarrow> body m = body n"
  using body_core by metis

lemma body_hash [simp]: "body (m\<lparr>hashv := x, keylen := y\<rparr>) = body m"
  by (simp add: body_def)

lemma holdsE:
  assumes "holds h a r"
  obtains m where "h a = Some m" and "body m = r" and "key m = key r"
  using assms unfolding holds_def by auto

lemma holds_key: "holds h a r \<Longrightarrow> key_at h a = Some (key r)"
  by (erule holdsE) (simp add: key_at_def)

lemma same_core_body: "same_core h h' \<Longrightarrow> map_option body (h' a) = map_option body (h a)"
  by (erule same_core_cases [where a = a]) (auto dest: body_core_eq)

lemma holds_same_core: "same_core h h' \<Longrightarrow> holds h' a r \<longleftrightarrow> holds h a r"
  by (simp add: holds_def same_core_body)

lemma list_all2_holds_cong:
  "(\<And>a. a \<in> set as \<Longrightarrow> map_option body (h' a) = map_option body (h a)) \<Longrightarrow>
   list_all2 (holds h') as T \<longleftrightarrow> list_all2 (holds h) as T"
  by (rule list.rel_cong) (auto simp: holds_def)

text \<open>Searching the elements for a key is searching the table for it.\<close>

lemma find_holds:
  assumes "list_all2 (holds h) as T"
  shows "rel_option (holds h) (find (\<lambda>a. key_at h a = Some k) as) (find (\<lambda>r. key r = k) T)"
  using assms by (induction rule: list_all2_induct) (auto simp: holds_key)

lemma keys_of_table:
  assumes "list_all2 (holds h) as T"
  shows "map (key_at h) as = map (\<lambda>r. Some (key r)) T"
  using assms by (induction rule: list_all2_induct) (auto simp: holds_key)

lemma absent_key:
  assumes "list_all2 (holds h) as T"
  shows "k \<notin> key ` set T \<Longrightarrow> \<forall>c\<in>set as. key_at h c \<noteq> Some k"
  using assms by (induction rule: list_all2_induct) (auto simp: holds_key)

lemma store_rel_keys:
  assumes "store_rel s as T"
  shows "distinct (map key T)"
proof -
  have "distinct (map (key_at (records s)) as)"
    using assms by (simp add: store_rel_def ut_inv_def distinct_map)
  moreover have "map (key_at (records s)) as = map (\<lambda>r. Some (key r)) T"
    using assms by (intro keys_of_table) (simp add: store_rel_def)
  ultimately have "distinct (map (\<lambda>r. Some (key r)) T)" by simp
  then show ?thesis by (auto simp: distinct_map inj_on_def)
qed

lemma store_rel_find:
  assumes "store_rel s as T"
  shows "(\<exists>a r. HASH_FIND (ut s) k = Some (Some a) \<and> find (\<lambda>r. key r = k) T = Some r \<and>
            a \<in> set as \<and> r \<in> set T \<and> holds (records s) a r \<and> key r = k) \<or>
         (HASH_FIND (ut s) k = Some None \<and> find (\<lambda>r. key r = k) T = None)"
proof -
  have inv: "ut_inv (ut s) as" and L: "list_all2 (holds (records s)) as T"
    using assms by (simp_all add: store_rel_def)
  have H: "HASH_FIND (ut s) k = Some (find (\<lambda>a. key_at (records s) a = Some k) as)"
    using uth.look_eq [OF inv] .
  show ?thesis
    using find_holds [OF L, of k] H
    by (cases rule: option.rel_cases) (auto dest!: find_SomeD dest: sym)
qed

subsection \<open>Memory and random numbers\<close>

text \<open>The statistics drawn from a state of the generator.\<close>

definition stats_of :: "rng \<Rightarrow> int \<times> int \<times> int \<times> int" where
  "stats_of g =
     (draw 100 1000 g, draw 110 1500 (g\<lparr>drawn := drawn g + 1\<rparr>),
      draw 1000 5000 (g\<lparr>drawn := drawn g + 2\<rparr>), draw 1000 5000 (g\<lparr>drawn := drawn g + 3\<rparr>))"

definition advance :: "nat \<Rightarrow> rng \<Rightarrow> rng" where
  "advance n g = g\<lparr>drawn := drawn g + n\<rparr>"

lemma draw_stats_ok: "draw_stats g = Some (stats_of g, advance 4 g)"
  by (simp add: draw_stats_def stats_of_def advance_def range_rand_ok numeral_3_eq_3)

lemma advance_add [simp]: "advance m (advance n g) = advance (n + m) g"
  by (simp add: advance_def)

lemma records_set_heap [simp]: "records (set_heap h s) = h"
  "brk (set_heap h s) = brk s" "start (set_heap h s) = start s" "gen (set_heap h s) = gen s"
  "head (ut (set_heap h s)) = head (ut s)" "tbl (ut (set_heap h s)) = tbl (ut s)"
  by (simp_all add: set_heap_def)

lemma update_record_ok:
  "records s a = Some m \<Longrightarrow> update_record a f s = Some (set_heap ((records s)(a := Some (f m))) s)"
  by (simp add: update_record_def)

lemma free_record_ok:
  "records s a = Some m \<Longrightarrow> free_record a s = Some (set_heap ((records s)(a := None)) s)"
  by (simp add: free_record_def)

text \<open>Changes outside the table, or of payload fields, keep the table.\<close>

lemma ut_inv_set_heap:
  assumes "ut_inv (ut s) as"
    and "\<And>a. a \<in> set as \<Longrightarrow> map_option ut_node.truncate (h a) = map_option ut_node.truncate (records s a)"
  shows "ut_inv (ut (set_heap h s)) as"
  using ut_inv_cong [OF assms] by (simp add: set_heap_def)

lemma store_rel_alloc:
  assumes rel: "store_rel s as T"
  shows "store_rel (snd (alloc_record s)) as T" and "brk s \<notin> set as"
    and "records (snd (alloc_record s)) (brk s) = Some zero_record"
proof -
  have inv: "ut_inv (ut s) as" and L: "list_all2 (holds (records s)) as T"
    and free: "\<forall>a\<ge>brk s. records s a = None"
    using rel by (simp_all add: store_rel_def)
  show notin: "brk s \<notin> set as"
    using inv free by (auto simp: ut_inv_def elems_def)
  show "records (snd (alloc_record s)) (brk s) = Some zero_record"
    by (simp add: alloc_record_def)
  have "ut_inv (ut (snd (alloc_record s))) as"
    unfolding alloc_record_def snd_conv
    by (rule ut_inv_set_heap) (use inv notin in auto)
  moreover have "list_all2 (holds (records (snd (alloc_record s)))) as T"
    by (subst list_all2_holds_cong [where h = "records s"]) (use L notin in \<open>auto simp: alloc_record_def\<close>)
  ultimately show "store_rel (snd (alloc_record s)) as T"
    using free by (simp add: store_rel_def alloc_record_def)
qed

subsection \<open>Adding a session\<close>

definition new_session :: "sessionRequest_t \<Rightarrow> int \<times> int \<times> int \<times> int \<Rightarrow> record_t" where
  "new_session p = (\<lambda>(inp, outp, inb, outb).
     \<lparr>key = sessId p, prev = None, nxt = None, hh_prev = None, hh_next = None, keylen = 0, hashv = 0,
      inLif = inlif p, outLif = outlif p, ipVersion = ipver p, sourceIp = srcIP p,
      sourcePort = ucast (srcPort p), dstIp = dstIP p, rec_dstPort = ucast (dstPort p),
      inPackets = of_int inp, outPackets = of_int outp, inBytes = of_int inb, outBytes = of_int outb,
      protocolId = proto p, actionValue = action_code FORWARD,
      sessionState = state_code CLOSED, sessionClose = close_code NOT_CLOSED\<rparr>)"

type_synonym table = "record_t list"

definition spec_add :: "sessionRequest_t \<Rightarrow> table \<times> rng \<Rightarrow> SESSION_STATUS_T \<times> table \<times> rng" where
  "spec_add p = (\<lambda>(T, g).
     if HASHTABLE_SIZE < length T then (RESOURCE_EXHAUSTED, T, g)
     else if sessId p \<in> key ` set T then (ALREADY_EXISTS, T, g)
     else (OK, T @ [new_session p (stats_of g)], advance 4 g))"

lemma find_key_None: "find (\<lambda>r. key r = k) T = None \<longleftrightarrow> k \<notin> key ` set T"
  by (auto simp: find_None_iff)

text \<open>Linking the new record and filling in its fields.\<close>

lemma store_rel_link:
  assumes rel: "store_rel s as T" and a: "a \<notin> set as" "records s a = Some m" and new: "key m \<notin> key ` set T"
    and f: "\<And>n. ut_node.truncate (f n) = ut_node.truncate n" "\<And>n. body (f n) = f (body n)"
  shows "\<exists>u n. HASH_ADD a (ut s) = Some u \<and> heap u a = Some n \<and> body n = body m \<and>
    store_rel (set_heap ((heap u)(a := Some (f n))) (s\<lparr>ut := u\<rparr>)) (as @ [a]) (T @ [f (body m)])"
proof -
  have inv: "ut_inv (ut s) as" and L: "list_all2 (holds (records s)) as T"
    and free: "\<forall>a\<ge>brk s. records s a = None"
    using rel by (simp_all add: store_rel_def)
  let ?m = "m\<lparr>hashv := HASH_VALUE (key m), keylen := sizeof_record_key_t\<rparr>"
  let ?k = "(records s)(a := Some ?m)"
  have "\<forall>c\<in>set as. key_at (records s) c \<noteq> Some (key m)" using absent_key [OF L new] .
  from HASH_ADD_ok [OF inv a this] obtain u where u: "HASH_ADD a (ut s) = Some u"
    and inv': "ut_inv u (as @ [a])" and sc: "same_core ?k (heap u)"
    and out: "\<forall>c. c \<notin> insert a (set as) \<longrightarrow> heap u c = records s c"
    by blast
  obtain n where n: "heap u a = Some n" "core n = core ?m"
    using same_core_SomeE [OF sc, of a ?m] by auto
  have bn: "body n = body m" using body_core_eq [OF n(2)] by simp
  let ?h = "(heap u)(a := Some (f n))" and ?s = "set_heap ((heap u)(a := Some (f n))) (s\<lparr>ut := u\<rparr>)"
  have "ut_inv (ut ?s) (as @ [a])"
    by (rule ut_inv_set_heap) (use inv' n(1) f(1) in auto)
  moreover have "list_all2 (holds ?h) as T"
  proof (subst list_all2_holds_cong [where h = "records s"])
    fix c assume c: "c \<in> set as"
    then have ca: "c \<noteq> a" using a(1) by auto
    have "map_option body (heap u c) = map_option body (?k c)" by (rule same_core_body [OF sc])
    then show "map_option body (?h c) = map_option body (records s c)" using ca by simp
  qed (rule L)
  moreover have "holds ?h a (f (body m))" using f(2) bn by (simp add: holds_def)
  moreover have "\<forall>c\<ge>brk s. ?h c = None"
  proof (intro allI impI)
    fix c assume "brk s \<le> c"
    then have none: "records s c = None" using free by simp
    then have "c \<notin> insert a (set as)" using a(2) inv by (auto simp: ut_inv_def elems_def)
    then show "?h c = None" using none out by auto
  qed
  ultimately have "store_rel ?s (as @ [a]) (T @ [f (body m)])"
    by (simp add: store_rel_def list_all2_appendI)
  then show ?thesis using u n(1) bn by blast
qed

lemma store_rel_cong:
  "ut s' = ut s \<Longrightarrow> brk s' = brk s \<Longrightarrow> store_rel s' as T \<longleftrightarrow> store_rel s as T"
  by (simp add: store_rel_def)

lemma alloc_record_eq: "alloc_record s = (brk s, snd (alloc_record s))"
  by (simp add: alloc_record_def)

lemma alloc_record_sel [simp]:
  "start (snd (alloc_record s)) = start s" "gen (snd (alloc_record s)) = gen s"
  "brk (snd (alloc_record s)) = Suc (brk s)"
  by (simp_all add: alloc_record_def)

lemma add_session_refines:
  assumes rel: "store_rel s as T"
  shows "\<exists>s' as'. opof_add_session_server p s = Some (status_code (fst (spec_add p (T, gen s))), s') \<and>
    store_rel s' as' (fst (snd (spec_add p (T, gen s)))) \<and> gen s' = snd (snd (spec_add p (T, gen s))) \<and>
    start s' = start s \<and> set as \<subseteq> set as' \<and> brk s' = Suc (brk s)"
proof -
  define s1 where "s1 = snd (alloc_record s)"
  let ?r = "brk s"
  have rel1: "store_rel s1 as T" and r: "?r \<notin> set as" "records s1 ?r = Some zero_record"
    using store_rel_alloc [OF rel] by (simp_all add: s1_def)
  have al: "alloc_record s = (?r, s1)" unfolding s1_def by (rule alloc_record_eq)
  have sel: "start s1 = start s" "gen s1 = gen s" "brk s1 = Suc (brk s)" by (simp_all add: s1_def)
  have inv1: "ut_inv (ut s1) as" and len: "length as = length T"
    using rel1 list_all2_lengthD by (auto simp: store_rel_def)
  have cnt: "HASH_COUNT (ut s1) = Some (length T)"
    using uth.cnt_eq [OF inv1] len by simp
  show ?thesis
  proof (cases "HASHTABLE_SIZE < length T")
    case True
    then show ?thesis using al cnt rel1
      by (auto simp: opof_add_session_server_def spec_add_def sel)
  next
    case False
    note full = this
    show ?thesis
    proof (cases "sessId p \<in> key ` set T")
      case True
      then have "find (\<lambda>r. key r = sessId p) T \<noteq> None" by (simp add: find_key_None)
      then obtain a where "HASH_FIND (ut s1) (sessId p) = Some (Some a)"
        using store_rel_find [OF rel1, of "sessId p"] by auto
      then show ?thesis using al cnt rel1 full True
        by (auto simp: opof_add_session_server_def spec_add_def sel)
    next
      case False
      then have none: "HASH_FIND (ut s1) (sessId p) = Some None"
        using store_rel_find [OF rel1, of "sessId p"] by (metis find_key_None option.distinct(1))
      define m where "m = zero_record\<lparr>key := sessId p\<rparr>"
      define s2 where "s2 = set_heap ((records s1)(?r := Some m)) s1"
      have upd: "update_record ?r (\<lambda>m. m\<lparr>key := sessId p\<rparr>) s1 = Some s2"
        using update_record_ok [OF r(2)] by (simp add: s2_def m_def)
      have rel2: "store_rel s2 as T"
        unfolding store_rel_def
      proof (intro conjI)
        show "ut_inv (ut s2) as" unfolding s2_def by (rule ut_inv_set_heap) (use inv1 r(1) in auto)
        show "list_all2 (holds (records s2)) as T"
          by (subst list_all2_holds_cong [where h = "records s1"])
            (use rel1 r(1) in \<open>auto simp: s2_def store_rel_def\<close>)
        show "\<forall>a\<ge>brk s2. records s2 a = None"
          using rel1 by (simp add: s2_def store_rel_def sel)
      qed
      have m2: "records s2 ?r = Some m" by (simp add: s2_def)
      have new: "key m \<notin> key ` set T" using False by (simp add: m_def)
      obtain inp outp inb outb where st: "stats_of (gen s) = (inp, outp, inb, outb)" by (rule prod_cases4)
      define f1 where "f1 m = m\<lparr>inLif := inlif p, outLif := outlif p, ipVersion := ipver p,
          sourceIp := srcIP p, sourcePort := ucast (srcPort p), dstIp := dstIP p,
          rec_dstPort := ucast (dstPort p)\<rparr>" for m :: record_t
      define f2 where "f2 m = m\<lparr>inPackets := of_int inp, outPackets := of_int outp,
          inBytes := of_int inb, outBytes := of_int outb, protocolId := proto p,
          sessionState := state_code CLOSED, sessionClose := close_code NOT_CLOSED,
          actionValue := action_code FORWARD\<rparr>" for m :: record_t
      obtain u n where u: "HASH_ADD ?r (ut s2) = Some u" and n: "heap u ?r = Some n" "body n = body m"
        and rel3: "store_rel (set_heap ((heap u)(?r := Some (f2 (f1 n)))) (s2\<lparr>ut := u\<rparr>)) (as @ [?r]) (T @ [f2 (f1 (body m))])"
        using store_rel_link [OF rel2 r(1) m2 new, of "\<lambda>n. f2 (f1 n)"]
        by (auto simp: f1_def f2_def body_def ut_node.truncate_def)
      have nw: "f2 (f1 (body m)) = new_session p (stats_of (gen s))"
        by (simp add: st f1_def f2_def body_def m_def zero_record_def new_session_def)
      define s3 where "s3 = (set_heap ((heap u)(?r := Some (f2 (f1 n)))) (s2\<lparr>ut := u\<rparr>))\<lparr>gen := advance 4 (gen s)\<rparr>"
      have u1: "update_record ?r f1 (s2\<lparr>ut := u\<rparr>) = Some (set_heap ((heap u)(?r := Some (f1 n))) (s2\<lparr>ut := u\<rparr>))"
        using n(1) by (simp add: update_record_ok)
      have g: "gen (set_heap ((heap u)(?r := Some (f1 n))) (s2\<lparr>ut := u\<rparr>)) = gen s"
        by (simp add: s2_def sel)
      have u2: "update_record ?r f2 ((set_heap ((heap u)(?r := Some (f1 n))) (s2\<lparr>ut := u\<rparr>))\<lparr>gen := advance 4 (gen s)\<rparr>) = Some s3"
        by (simp add: update_record_def set_heap_def s3_def)
      have "opof_add_session_server p s = Some (status_code OK, s3)"
        using al cnt full none upd u u1 g u2 st
        by (simp add: opof_add_session_server_def draw_stats_ok f1_def [abs_def] f2_def [abs_def])
      moreover have "store_rel s3 (as @ [?r]) (T @ [new_session p (stats_of (gen s))])"
        using rel3 store_rel_cong [of s3 "set_heap ((heap u)(?r := Some (f2 (f1 n)))) (s2\<lparr>ut := u\<rparr>)"]
        by (simp add: nw s3_def)
      ultimately show ?thesis
        using full False by (auto simp: spec_add_def s3_def s2_def sel)
    qed
  qed
qed

subsection \<open>Getting and deleting a session\<close>

lemma remove_key:
  assumes "distinct (map key T)" and "r \<in> set T"
  shows "remove1 r T = filter (\<lambda>r'. key r' \<noteq> key r) T"
  using assms
proof (induction T)
  case (Cons t T)
  show ?case
  proof (cases "t = r")
    case True
    then have "\<forall>r'\<in>set T. key r' \<noteq> key r" using Cons.prems(1) by (metis distinct.simps(2) image_eqI list.simps(9) list.set_map)
    then show ?thesis using True by (simp add: filter_id_conv)
  next
    case False
    then have "r \<in> set T" using Cons.prems(2) by simp
    moreover from this have "key t \<noteq> key r" using Cons.prems(1) by (metis distinct.simps(2) image_eqI list.simps(9) list.set_map)
    ultimately show ?thesis using False Cons by simp
  qed
qed simp

lemma list_all2_remove1:
  assumes L: "list_all2 (holds h) as T" and d: "distinct as" "distinct T" and a: "a \<in> set as" "holds h a r"
  shows "list_all2 (holds h) (remove1 a as) (remove1 r T)"
proof -
  obtain xs ys where as: "as = xs @ a # ys" using a(1) by (auto simp: in_set_conv_decomp)
  then obtain T1 r' T2 where T: "T = T1 @ r' # T2" and h: "list_all2 (holds h) xs T1" "holds h a r'" "list_all2 (holds h) ys T2"
    using L by (auto simp: list_all2_append1 list_all2_Cons1)
  have "r' = r" using h(2) a(2) by (auto simp: holds_def)
  then show ?thesis using d as T h by (auto simp: remove1_append intro: list_all2_appendI)
qed

lemma store_rel_unlink:
  assumes rel: "store_rel s as T" and a: "a \<in> set as" "holds (records s) a r"
  shows "\<exists>u s'. HASH_DELETE a (ut s) = Some u \<and> free_record a (s\<lparr>ut := u\<rparr>) = Some s' \<and>
    store_rel s' (remove1 a as) (remove1 r T) \<and> start s' = start s \<and> gen s' = gen s \<and> brk s' = brk s \<and>
    records s' a = None"
proof -
  have inv: "ut_inv (ut s) as" and L: "list_all2 (holds (records s)) as T"
    and free: "\<forall>c\<ge>brk s. records s c = None"
    using rel by (simp_all add: store_rel_def)
  have d: "distinct as" using inv by (simp add: ut_inv_def)
  have dT: "distinct T" using store_rel_keys [OF rel] distinct_map by blast
  obtain u where u: "HASH_DELETE a (ut s) = Some u" and inv': "ut_inv u (remove1 a as)"
    and sc: "same_core (records s) (heap u)"
    using HASH_DELETE_ok [OF inv a(1)] by blast
  obtain m where "records s a = Some m" using a(2) by (rule holdsE)
  from same_core_SomeE [OF sc this] obtain n where n: "heap u a = Some n" by blast
  define s' where "s' = set_heap ((heap u)(a := None)) (s\<lparr>ut := u\<rparr>)"
  have notin: "c \<noteq> a" if "c \<in> set (remove1 a as)" for c using that d by auto
  have "ut_inv (ut s') (remove1 a as)"
    unfolding s'_def by (rule ut_inv_set_heap) (use inv' notin in auto)
  moreover have "list_all2 (holds (records s')) (remove1 a as) (remove1 r T)"
    by (subst list_all2_holds_cong [where h = "records s"])
      (use list_all2_remove1 [OF L d dT a] notin same_core_body [OF sc] in \<open>auto simp: s'_def\<close>)
  moreover have "\<forall>c\<ge>brk s. records s' c = None"
    using free same_core_None [OF sc] by (simp add: s'_def)
  ultimately have "store_rel s' (remove1 a as) (remove1 r T)"
    by (simp add: store_rel_def s'_def)
  then show ?thesis using u n free_record_ok [of "s\<lparr>ut := u\<rparr>" a n] by (simp add: s'_def)
qed

definition got_response :: "record_t \<Rightarrow> sessionResponse_t" where
  "got_response r =
     \<lparr>rsp_sessionId = key r, rsp_inPackets = inPackets r, rsp_outPackets = outPackets r,
      rsp_inBytes = inBytes r, rsp_outBytes = outBytes r, rsp_sessionState = sessionState r,
      rsp_sessionCloseCode = sessionClose r, rsp_requestStatus = request_code ACCEPTED\<rparr>"

lemma get_session_refines:
  assumes rel: "store_rel s as T"
  shows "opof_get_session_server k rsp s = Some (case find (\<lambda>r. key r = k) T of
      None \<Rightarrow> (status_code NOT_FOUND, rsp, s)
    | Some r \<Rightarrow> (status_code OK, got_response r, s))"
  using store_rel_find [OF rel, of k]
proof (elim disjE exE conjE)
  fix a r
  assume f: "HASH_FIND (ut s) k = Some (Some a)" "find (\<lambda>r. key r = k) T = Some r"
    and h: "holds (records s) a r" "key r = k"
  obtain m where m: "records s a = Some m" "body m = r" using h(1) by (rule holdsE)
  have "got_response r = rsp\<lparr>rsp_sessionId := k, rsp_inPackets := inPackets m, rsp_outPackets := outPackets m,
      rsp_inBytes := inBytes m, rsp_outBytes := outBytes m, rsp_sessionState := sessionState m,
      rsp_sessionCloseCode := sessionClose m, rsp_requestStatus := request_code ACCEPTED\<rparr>"
    using m(2) h(2) by (auto simp: got_response_def)
  then show ?thesis using f m(1) by (simp add: opof_get_session_server_def)
qed (simp add: opof_get_session_server_def)

lemma del_session_refines:
  assumes rel: "store_rel s as T"
  shows "case find (\<lambda>r. key r = k) T of
      None \<Rightarrow> opof_del_session_server k rsp s = Some (status_code NOT_FOUND, rsp, s)
    | Some r \<Rightarrow> \<exists>s' a. opof_del_session_server k rsp s =
          Some (status_code OK, (got_response r)\<lparr>rsp_sessionState := state_code CLOSED\<rparr>, s') \<and>
        a \<in> set as \<and> key_at (records s) a = Some k \<and>
        store_rel s' (remove1 a as) (filter (\<lambda>r. key r \<noteq> k) T) \<and> start s' = start s \<and> gen s' = gen s \<and>
        brk s' = brk s \<and> records s' a = None"
  using store_rel_find [OF rel, of k]
proof (elim disjE exE conjE)
  fix a r
  assume f: "HASH_FIND (ut s) k = Some (Some a)" "find (\<lambda>r. key r = k) T = Some r"
    and ar: "a \<in> set as" "r \<in> set T" "holds (records s) a r" "key r = k"
  obtain m where m: "records s a = Some m" "body m = r" using ar(3) by (rule holdsE)
  have rsp: "rsp\<lparr>rsp_sessionId := k, rsp_inPackets := inPackets m, rsp_outPackets := outPackets m,
      rsp_inBytes := inBytes m, rsp_outBytes := outBytes m, rsp_sessionState := state_code CLOSED,
      rsp_sessionCloseCode := sessionClose m, rsp_requestStatus := request_code ACCEPTED\<rparr> =
      (got_response r)\<lparr>rsp_sessionState := state_code CLOSED\<rparr>"
    using m(2) ar(4) by (auto simp: got_response_def)
  obtain u s' where u: "HASH_DELETE a (ut s) = Some u" "free_record a (s\<lparr>ut := u\<rparr>) = Some s'"
    and rel': "store_rel s' (remove1 a as) (remove1 r T)" and s': "start s' = start s" "gen s' = gen s" "brk s' = brk s" "records s' a = None"
    using store_rel_unlink [OF rel ar(1,3)] by blast
  have "opof_del_session_server k rsp s =
      Some (status_code OK, (got_response r)\<lparr>rsp_sessionState := state_code CLOSED\<rparr>, s')"
    unfolding opof_del_session_server_def using f(1) m(1) u by (simp add: rsp del: status_code.simps state_code.simps request_code.simps)
  moreover have "remove1 r T = filter (\<lambda>r. key r \<noteq> k) T"
    using remove_key [OF store_rel_keys [OF rel] ar(2)] ar(4) by simp
  ultimately show ?thesis using f(2) ar(1) holds_key [OF ar(3)] ar(4) rel' s' by auto
qed (simp add: opof_del_session_server_def)

subsection \<open>Reporting closed sessions\<close>

definition hd_ptr :: "addr list \<Rightarrow> ptr" where
  "hd_ptr xs = (if xs = [] then None else Some (hd xs))"

lemma hd_ptr_simps [simp]: "hd_ptr [] = None" "hd_ptr (a # xs) = Some a"
  by (simp_all add: hd_ptr_def)

definition listed :: "record_t \<Rightarrow> int \<times> int \<times> int \<times> int \<Rightarrow> sessionResponse_t" where
  "listed r = (\<lambda>(inp, outp, inb, outb).
     \<lparr>rsp_sessionId = key r, rsp_inPackets = of_int inp, rsp_outPackets = of_int outp,
      rsp_inBytes = of_int inb, rsp_outBytes = of_int outb, rsp_sessionState = sessionState r,
      rsp_sessionCloseCode = close_code TIMEOUT, rsp_requestStatus = request_code ACCEPTED\<rparr>)"

lemma listed_response_eq: "listed_response m st rsp = listed (body m) st"
  by (cases st) (simp add: listed_response_def listed_def)

text \<open>The responses for a list of sessions, drawing four random numbers for each.\<close>

fun listing :: "rng \<Rightarrow> record_t list \<Rightarrow> sessionResponse_t list" where
  "listing g [] = []"
| "listing g (r # rs) = listed r (stats_of g) # listing (advance 4 g) rs"

lemma listing_append: "listing g (xs @ ys) = listing g xs @ listing (advance (4 * length xs) g) ys"
  by (induction xs arbitrary: g) (simp_all add: advance_def add.assoc)

lemma length_listing [simp]: "length (listing g rs) = length rs"
  by (induction rs arbitrary: g) simp_all

lemma listing_ids: "map rsp_sessionId (listing g rs) = map key rs"
  by (induction rs arbitrary: g) (simp_all add: listed_def split: prod.split)

text \<open>An array whose elements from \<open>i\<close> on are overwritten with \<open>xs\<close>.\<close>

definition overwrite :: "'b list \<Rightarrow> nat \<Rightarrow> 'b list \<Rightarrow> 'b list" where
  "overwrite ys i xs = take i ys @ xs @ drop (i + length xs) ys"

lemma overwrite_Nil [simp]: "overwrite ys i [] = ys"
  by (simp add: overwrite_def)

lemma overwrite_Cons:
  "i < length ys \<Longrightarrow> overwrite (ys[i := x]) (Suc i) xs = overwrite ys i (x # xs)"
  by (simp add: overwrite_def take_Suc_conv_app_nth drop_update_swap)

lemma length_overwrite [simp]: "i + length xs \<le> length ys \<Longrightarrow> length (overwrite ys i xs) = length ys"
  by (simp add: overwrite_def)

text \<open>The sessions the loop reports and deletes, when \<open>i\<close> have been reported already.\<close>

abbreviation is_closed :: "record_t \<Rightarrow> bool" where
  "is_closed r \<equiv> sessionState r = state_code CLOSED"

fun closed_take :: "int \<Rightarrow> nat \<Rightarrow> record_t list \<Rightarrow> record_t list" where
  "closed_take psize i [] = []"
| "closed_take psize i (r # rs) =
     (if is_closed r
      then r # (if int (i + 1) = psize then [] else closed_take psize (i + 1) rs)
      else closed_take psize i rs)"

lemma closed_take_eq:
  "psize \<le> 0 \<or> int i < psize \<Longrightarrow> closed_take psize i rs =
     (if psize \<le> 0 then filter is_closed rs else take (nat psize - i) (filter is_closed rs))"
  by (induction rs arbitrary: i) (auto simp: take_Cons' nat_diff_distrib')

lemma closed_take_subset: "set (closed_take psize i rs) \<subseteq> set rs"
  by (induction rs arbitrary: i) auto

lemma iter_next_ok:
  assumes "ut_inv (ut s) (bs @ cs)"
  shows "iter_next (records s) (hd_ptr cs) = Some (hd_ptr (tl cs))"
proof (cases cs)
  case (Cons c cs')
  then have inv: "ut_inv (ut s) (bs @ c # cs')" using assms by simp
  obtain m where "records s c = Some m" using ut_inv_elem [OF inv, of c] by auto
  then show ?thesis using ut_inv_next [OF inv] Cons by (simp add: iter_next_def hd_ptr_def)
qed (simp add: iter_next_def)

lemma store_rel_distinct: "store_rel s as T \<Longrightarrow> distinct as \<and> distinct T \<and> length as = length T"
  using store_rel_keys [of s as T] by (auto simp: store_rel_def ut_inv_def distinct_map dest: list_all2_lengthD)

lemma closed_loop_ok:
  assumes "store_rel s (bs @ cs) (B @ C)" and "length bs = length B" and "i \<le> length responses"
  shows "if i + length (closed_take psize i C) \<le> length responses
    then \<exists>s' cs'. closed_loop psize (hd_ptr cs) (hd_ptr (tl cs)) i responses s =
        Some (i + length (closed_take psize i C),
              overwrite responses i (listing (gen s) (closed_take psize i C)), s') \<and>
      store_rel s' (bs @ cs') (B @ filter (\<lambda>r. r \<notin> set (closed_take psize i C)) C) \<and>
      gen s' = advance (4 * length (closed_take psize i C)) (gen s) \<and> start s' = start s
    else closed_loop psize (hd_ptr cs) (hd_ptr (tl cs)) i responses s = None"
  using assms
proof (induction cs arbitrary: bs B C s i responses)
  case Nil
  then have "C = []" using store_rel_distinct [OF Nil.prems(1)] by simp
  then show ?case using Nil by (auto simp: closed_loop.simps advance_def intro: exI [of _ "[]"])
next
  case (Cons c cs)
  have len: "length cs + 1 = length C" using store_rel_distinct [OF Cons.prems(1)] Cons.prems(2) by simp
  then obtain r C' where C: "C = r # C'" by (cases C) auto
  have inv: "ut_inv (ut s) (bs @ c # cs)" using Cons.prems(1) by (simp add: store_rel_def)
  have h: "holds (records s) c r"
    using Cons.prems C by (simp add: store_rel_def list_all2_append)
  obtain m where m: "records s c = Some m" "body m = r" using h by (rule holdsE)
  have st: "sessionState m = sessionState r" using m(2) by auto
  have d: "distinct (bs @ c # cs)" "distinct (B @ r # C')"
    using store_rel_distinct [OF Cons.prems(1)] C by simp_all
  show ?case
  proof (cases "is_closed r")
    case False
    have n: "iter_next (records s) (hd_ptr cs) = Some (hd_ptr (tl cs))"
      using iter_next_ok [of s "bs @ [c]" cs] inv by simp
    have "closed_loop psize (hd_ptr (c # cs)) (hd_ptr (tl (c # cs))) i responses s =
        closed_loop psize (hd_ptr cs) (hd_ptr (tl cs)) i responses s"
      using m st False n by (subst closed_loop.simps) simp
    moreover have "r \<notin> set (closed_take psize i C')" using closed_take_subset d(2) by fastforce
    ultimately show ?thesis
      using Cons.IH [of s "bs @ [c]" "B @ [r]" C' i responses] Cons.prems C False
      by (auto split: if_splits)
  next
    case True
    show ?thesis
    proof (cases "i < length responses")
      case False
      then show ?thesis using m st True C by (subst closed_loop.simps) (simp add: load_def)
    next
      case lt: True
      let ?resp = "responses[i := listed r (stats_of (gen s))]"
      obtain u s1 where u: "HASH_DELETE c (ut s) = Some u" "free_record c (s\<lparr>ut := u\<rparr>) = Some s1"
        and rel1: "store_rel s1 (remove1 c (bs @ c # cs)) (remove1 r (B @ r # C'))"
        and s1: "start s1 = start s" "gen s1 = gen s"
        using store_rel_unlink [OF Cons.prems(1) _ h] C by auto
      define s2 where "s2 = s1\<lparr>gen := advance 4 (gen s)\<rparr>"
      have u2: "free_record c (s\<lparr>ut := u, gen := advance 4 (gen s)\<rparr>) = Some s2"
        using u(2) by (auto simp: free_record_def s2_def set_heap_def split: Option.bind_splits)
      have rel2: "store_rel s2 (bs @ cs) (B @ C')"
        using rel1 d store_rel_cong [of s2 s1] by (simp add: s2_def remove1_append)
      have n: "iter_next (records s2) (hd_ptr cs) = Some (hd_ptr (tl cs))"
        using iter_next_ok [of s2 bs cs] rel2 by (simp add: store_rel_def)
      have g2: "gen s2 = advance 4 (gen s)" "start s2 = start s" by (simp_all add: s2_def s1)
      have step: "closed_loop psize (hd_ptr (c # cs)) (hd_ptr (tl (c # cs))) i responses s =
          (if int (i + 1) = psize then Some (i + 1, ?resp, s2)
           else closed_loop psize (hd_ptr cs) (hd_ptr (tl cs)) (i + 1) ?resp s2)"
        using m st True lt u(1) u2 n
        by (subst closed_loop.simps) (simp add: draw_stats_ok listed_response_eq)
      show ?thesis
      proof (cases "int (i + 1) = psize")
        case True
        have "filter (\<lambda>r'. r' \<notin> {r}) (r # C') = C'" using d(2) by (auto simp: filter_id_conv)
        then show ?thesis
          using step True \<open>is_closed r\<close> C rel2 g2 lt
          by (auto simp: overwrite_Cons [symmetric])
      next
        case False
        have *: "filter (\<lambda>r'. r' \<noteq> r \<and> r' \<notin> set R) C' = filter (\<lambda>r'. r' \<notin> set R) C'" for R
          using d(2) by (intro filter_cong) auto
        show ?thesis
          using Cons.IH [OF rel2 Cons.prems(2), of "i + 1" ?resp] step False \<open>is_closed r\<close> C g2 lt
          by (auto simp: overwrite_Cons * advance_def add.assoc split: if_splits)
      qed
    qed
  qed
qed

text \<open>
  The sessions that one call with page size \<open>psize\<close> takes out of the table: all closed ones,
  or the first \<open>psize\<close> of them.
\<close>

definition reported :: "int \<Rightarrow> record_t list \<Rightarrow> record_t list" where
  "reported psize T =
     (if psize \<le> 0 then filter is_closed T else take (nat psize) (filter is_closed T))"

lemma reported_eq: "closed_take psize 0 T = reported psize T"
  by (cases "psize \<le> 0") (simp_all add: closed_take_eq reported_def)

lemma get_closed_refines:
  fixes q :: statisticsRequestArgs_t
  assumes rel: "store_rel s as T"
  defines "R \<equiv> reported (sint (stat_pageSize q)) T"
  shows "if length R \<le> length responses
    then \<exists>s' as'. opof_get_closed_sessions_server q responses s =
        Some (length R, overwrite responses 0 (listing (gen s) R), s') \<and>
      store_rel s' as' (filter (\<lambda>r. r \<notin> set R) T) \<and>
      gen s' = advance (4 * length R) (gen s) \<and> start s' = start s
    else opof_get_closed_sessions_server q responses s = None"
proof -
  have inv: "ut_inv (ut s) as" using rel by (simp add: store_rel_def)
  have hd: "head (ut s) = hd_ptr as" using ut_inv_head [OF inv] by (simp add: hd_ptr_def)
  have tmp: "iter_next (records s) (hd_ptr as) = Some (hd_ptr (tl as))"
    using iter_next_ok [of s "[]" as] inv by simp
  show ?thesis
    using closed_loop_ok [of s "[]" as "[]" T 0 responses "sint (stat_pageSize q)"] rel hd tmp
    unfolding reported_eq R_def opof_get_closed_sessions_server_def by (auto split: if_splits)
qed

subsection \<open>Listing all sessions\<close>

text \<open>The cursor \<open>start\<close> is where the sessions after the first \<open>k\<close> begin.\<close>

definition cursor_at :: "server \<Rightarrow> addr list \<Rightarrow> nat \<Rightarrow> bool" where
  "cursor_at s as k \<longleftrightarrow> start s = hd_ptr (drop k as)"

lemma store_rel_start [simp]: "store_rel (s\<lparr>start := p\<rparr>) as T \<longleftrightarrow> store_rel s as T"
  by (simp add: store_rel_def)

lemma store_rel_gen [simp]: "store_rel (s\<lparr>gen := g\<rparr>) as T \<longleftrightarrow> store_rel s as T"
  by (simp add: store_rel_def)

definition page_len :: "int \<Rightarrow> nat \<Rightarrow> nat \<Rightarrow> nat" where
  "page_len psize i n = (if 0 < psize then min n (nat psize - i) else n)"

lemma page_loop_ok:
  assumes "store_rel s (bs @ cs) (B @ C)" and "length bs = length B"
    and "psize \<le> 0 \<or> int i < psize" and "i + page_len psize i (length C) \<le> length responses"
  defines "n \<equiv> page_len psize i (length C)"
  shows "page_loop psize (hd_ptr cs) i k responses s =
    Some (i + n, last (k # map key (take n C)), overwrite responses i (listing (gen s) (take n C)),
          s\<lparr>gen := advance (4 * n) (gen s), start := hd_ptr (drop n cs)\<rparr>)"
  using assms(1-4) unfolding n_def
proof (induction cs arbitrary: bs B C s i k responses)
  case Nil
  then have "C = []" using store_rel_distinct [OF Nil.prems(1)] by simp
  then show ?case by (simp add: page_loop.simps advance_def page_len_def)
next
  case (Cons c cs)
  have len: "length cs + 1 = length C" using store_rel_distinct [OF Cons.prems(1)] Cons.prems(2) by simp
  then obtain r C' where C: "C = r # C'" by (cases C) auto
  have inv: "ut_inv (ut s) (bs @ c # cs)" using Cons.prems(1) by (simp add: store_rel_def)
  have h: "holds (records s) c r"
    using Cons.prems C by (simp add: store_rel_def list_all2_append)
  obtain m where m: "records s c = Some m" "body m = r" "key m = key r" using h by (rule holdsE)
  have nx: "nxt m = hd_ptr cs" using ut_inv_next [OF inv m(1)] by (simp add: hd_ptr_def)
  have n: "page_len psize i (length C) = Suc (page_len psize (Suc i) (length C'))"
    using C Cons.prems(3) by (auto simp: page_len_def min_def nat_diff_distrib' split: if_splits)
  have lt: "i < length responses" using Cons.prems(4) n by simp
  let ?resp = "responses[i := listed r (stats_of (gen s))]" and ?s = "s\<lparr>gen := advance 4 (gen s)\<rparr>"
  have step: "page_loop psize (hd_ptr (c # cs)) i k responses s =
      (if int (i + 1) = psize then Some (i + 1, key r, ?resp, ?s\<lparr>start := hd_ptr cs\<rparr>)
       else page_loop psize (hd_ptr cs) (i + 1) (key r) ?resp ?s)"
    using m lt nx by (subst page_loop.simps) (simp add: draw_stats_ok listed_response_eq Let_def)
  show ?case
  proof (cases "int (i + 1) = psize")
    case True
    then have "page_len psize (Suc i) (length C') = 0" by (simp add: page_len_def)
    then show ?thesis using step True C n lt by (simp add: overwrite_Cons [symmetric])
  next
    case False
    have "store_rel ?s ((bs @ [c]) @ cs) ((B @ [r]) @ C')" using Cons.prems(1) C by simp
    from Cons.IH [OF this, of "Suc i" ?resp "key r"] show ?thesis
      using step False C n lt Cons.prems(2-4) by (auto simp: overwrite_Cons)
  qed
qed

lemma page_refines:
  fixes ss :: u64 and psize :: int
  assumes rel: "store_rel s as T" and cur: "cursor_at s as k"
  defines "j \<equiv> (if ss = UINT_MAX then 0 else k)"
  defines "n \<equiv> page_len psize 0 (length T - j)"
  assumes room: "n \<le> length responses"
  shows "opof_get_all_sessions_server psize ss pc responses s =
    Some (n, last (ss # map key (take n (drop j T))),
          overwrite responses 0 (listing (gen s) (take n (drop j T))),
          s\<lparr>start := hd_ptr (drop (j + n) as), gen := advance (4 * n) (gen s)\<rparr>)"
proof -
  have inv: "ut_inv (ut s) as" and L: "list_all2 (holds (records s)) as T"
    using rel by (simp_all add: store_rel_def)
  have len: "length as = length T" using list_all2_lengthD [OF L] .
  have hd: "head (ut s) = hd_ptr as" using ut_inv_head [OF inv] by (simp add: hd_ptr_def)
  define s1 where "s1 = (if ss = UINT_MAX then s\<lparr>start := head (ut s)\<rparr> else s)"
  have s1: "start s1 = hd_ptr (drop j as)" "store_rel s1 as T" "gen s1 = gen s"
      "s1\<lparr>start := p, gen := g\<rparr> = s\<lparr>start := p, gen := g\<rparr>"
      "s1\<lparr>gen := g, start := p\<rparr> = s\<lparr>start := p, gen := g\<rparr>" for p g
    using hd cur rel by (auto simp: s1_def j_def cursor_at_def)
  show ?thesis
  proof (cases "drop j as = []")
    case True
    then have "length T \<le> j" using len by simp
    moreover then have "n = 0" by (simp add: n_def page_len_def)
    moreover have "opof_get_all_sessions_server psize ss pc responses s = Some (0, ss, responses, s1)"
      using s1(1) True by (simp add: opof_get_all_sessions_server_def getAllSessionsPage_def Let_def s1_def [symmetric])
    moreover have "s1 = s\<lparr>start := None, gen := gen s\<rparr>"
      using s1(1) s1(4) [where p = None and g = "gen s"] s1(3) True by (metis hd_ptr_simps(1) server.surjective server.update_convs(2,4))
    ultimately show ?thesis using True len by (simp add: advance_def)
  next
    case False
    have "start s1 \<noteq> None" using s1(1) False by (simp add: hd_ptr_def)
    moreover have "store_rel s1 (take j as @ drop j as) (take j T @ drop j T)" using s1(2) by simp
    note ok = page_loop_ok [OF this, of psize 0 responses ss]
    have pl: "page_len psize 0 (length (drop j T)) = n" by (simp add: n_def)
    have "page_loop psize (hd_ptr (drop j as)) 0 ss responses s1 =
      Some (0 + n, last (ss # map key (take n (drop j T))), overwrite responses 0 (listing (gen s1) (take n (drop j T))),
          s1\<lparr>gen := advance (4 * n) (gen s1), start := hd_ptr (drop n (drop j as))\<rparr>)"
      by (rule ok [unfolded pl]) (use len room in auto)
    then have "page_loop psize (start s1) 0 ss responses s1 =
      Some (n, last (ss # map key (take n (drop j T))), overwrite responses 0 (listing (gen s) (take n (drop j T))),
          s1\<lparr>gen := advance (4 * n) (gen s), start := hd_ptr (drop (j + n) as)\<rparr>)"
      unfolding s1(1,3) drop_drop add_0 by (simp only: add.commute)
    moreover have "s1\<lparr>gen := g, start := p\<rparr> = s\<lparr>start := p, gen := g\<rparr>" for p g
      by (rule s1(5))
    ultimately show ?thesis
      unfolding opof_get_all_sessions_server_def getAllSessionsPage_def Let_def s1_def [symmetric] by auto
  qed
qed

end
