(* ===== verification/Server_Theorems.thy ===== *)
theory Server_Theorems
  imports Server_Props
begin

text \<open>
  The properties of the session store: what each of the five functions returns and does to the
  table, for every table that \<open>server_inv\<close> describes; the states the server can reach; and
  the limits of the implementation (capacity, the response array, the listing cursor, the
  record allocated for a rejected request).
\<close>

subsection \<open>Functional behaviour\<close>

definition server_inv :: "server \<Rightarrow> record_t list \<Rightarrow> bool" where
  "server_inv s T \<longleftrightarrow> (\<exists>as. store_rel s as T)"

lemma server_inv_keys: "server_inv s T \<Longrightarrow> distinct (map key T)"
  unfolding server_inv_def using store_rel_keys by blast

lemma server_inv_init: "server_inv (server_init g) []"
  by (auto simp: server_inv_def store_rel_def server_init_def ut_inv_Nil)

text \<open>
  C7: adding a session never faults. It is refused with \<open>RESOURCE_EXHAUSTED\<close>
  when the table holds more than \<open>HASHTABLE_SIZE\<close> sessions, else with \<open>ALREADY_EXISTS\<close> when its id is
  in the table, and then the table stays as it is; otherwise the session is put at the end of
  the table with the fields of the request, state closed, action forward and four drawn
  statistics, and the result is \<open>OK\<close>.
\<close>

theorem add_session_correct:
  assumes "server_inv s T"
  shows "\<exists>s'. opof_add_session_server p s = Some (status_code (fst (spec_add p (T, gen s))), s') \<and>
    server_inv s' (fst (snd (spec_add p (T, gen s)))) \<and> gen s' = snd (snd (spec_add p (T, gen s)))"
  using assms add_session_refines unfolding server_inv_def by blast

text \<open>
  C8: deleting a session that is not in the table reports \<open>NOT_FOUND\<close> and leaves
  response and state alone; deleting one that is returns its recorded statistics, with the
  state closed, and removes exactly this session. It never faults.
\<close>

theorem del_session_correct:
  assumes "server_inv s T"
  shows "case find (\<lambda>r. key r = k) T of
      None \<Rightarrow> opof_del_session_server k rsp s = Some (status_code NOT_FOUND, rsp, s)
    | Some r \<Rightarrow> \<exists>s'. opof_del_session_server k rsp s =
          Some (status_code OK, (got_response r)\<lparr>rsp_sessionState := state_code CLOSED\<rparr>, s') \<and>
        server_inv s' (filter (\<lambda>r. key r \<noteq> k) T) \<and> gen s' = gen s"
proof -
  obtain as where rel: "store_rel s as T" using assms by (auto simp: server_inv_def)
  show ?thesis
    using del_session_refines [OF rel, of k rsp] unfolding server_inv_def
    by (auto split: option.splits)
qed

lemma draw_word:
  assumes "0 \<le> l" "l \<le> u" "u < 2 ^ 31 - 1"
  shows "(of_int l :: u64) \<le> of_int (draw l u g) \<and> (of_int (draw l u g) :: u64) \<le> of_int u"
proof -
  have b: "l \<le> draw l u g" "draw l u g \<le> u" using range_rand_ok(2,3) [OF assms] by simp_all
  have "take_bit 64 x = x" if "0 \<le> x" "x \<le> u" for x :: int
    by (rule take_bit_int_eq_self) (use that assms in auto)
  then show ?thesis using b assms by (simp add: word_le_def uint_word_of_int_eq)
qed

text \<open>
  C32: a session that is added to a table with room and whose id is new can be read
  back: it is closed, not marked with a close reason, and its statistics are within the ranges
  they are drawn from; once it is deleted it is not found any more, and every other session
  reads as before.
\<close>

theorem session_lifecycle:
  assumes inv: "server_inv s T" and room: "length T \<le> HASHTABLE_SIZE" and new: "sessId p \<notin> key ` set T"
  shows "\<exists>s1 r1 s2 r2. opof_add_session_server p s = Some (status_code OK, s1) \<and>
    opof_get_session_server (sessId p) rsp s1 = Some (status_code OK, r1, s1) \<and>
    rsp_sessionId r1 = sessId p \<and> rsp_sessionState r1 = state_code CLOSED \<and>
    rsp_sessionCloseCode r1 = close_code NOT_CLOSED \<and>
    100 \<le> rsp_inPackets r1 \<and> rsp_inPackets r1 \<le> 1000 \<and>
    110 \<le> rsp_outPackets r1 \<and> rsp_outPackets r1 \<le> 1500 \<and>
    1000 \<le> rsp_inBytes r1 \<and> rsp_inBytes r1 \<le> 5000 \<and>
    1000 \<le> rsp_outBytes r1 \<and> rsp_outBytes r1 \<le> 5000 \<and>
    opof_del_session_server (sessId p) rsp s1 = Some (status_code OK, r2, s2) \<and> r2 = r1 \<and>
    opof_get_session_server (sessId p) rsp s2 = Some (status_code NOT_FOUND, rsp, s2) \<and>
    (\<forall>k. k \<noteq> sessId p \<longrightarrow>
       map_option (\<lambda>(st, r, _). (st, r)) (opof_get_session_server k rsp s2) =
       map_option (\<lambda>(st, r, _). (st, r)) (opof_get_session_server k rsp s))"
proof -
  obtain as where rel: "store_rel s as T" using inv by (auto simp: server_inv_def)
  let ?r = "new_session p (stats_of (gen s))"
  have key: "key ?r = sessId p" by (simp add: new_session_def split: prod.split)
  have spec: "spec_add p (T, gen s) = (OK, T @ [?r], advance 4 (gen s))"
    using room new by (simp add: spec_add_def)
  obtain s1 as1 where s1: "opof_add_session_server p s = Some (status_code OK, s1)"
    and rel1: "store_rel s1 as1 (T @ [?r])"
    using add_session_refines [OF rel, of p] unfolding spec by auto
  have "find (\<lambda>r. key r = sessId p) T = None" using new by (simp add: find_key_None)
  then have f1: "find (\<lambda>r. key r = sessId p) (T @ [?r]) = Some ?r" by (simp add: find_app key)
  have g1: "opof_get_session_server (sessId p) rsp s1 = Some (status_code OK, got_response ?r, s1)"
    using get_session_refines [OF rel1, of "sessId p" rsp] f1 by simp
  have T: "filter (\<lambda>r. key r \<noteq> sessId p) (T @ [?r]) = T"
    using new by (force simp: key filter_id_conv)
  obtain s2 as2 where s2: "opof_del_session_server (sessId p) rsp s1 =
        Some (status_code OK, (got_response ?r)\<lparr>rsp_sessionState := state_code CLOSED\<rparr>, s2)"
    and rel2: "store_rel s2 as2 T"
    using del_session_refines [OF rel1, of "sessId p" rsp] unfolding f1 T by auto
  have g2: "opof_get_session_server (sessId p) rsp s2 = Some (status_code NOT_FOUND, rsp, s2)"
    using get_session_refines [OF rel2, of "sessId p" rsp] new by (simp add: find_key_None [THEN iffD2])
  have same: "(got_response ?r)\<lparr>rsp_sessionState := state_code CLOSED\<rparr> = got_response ?r"
    by (simp add: got_response_def new_session_def split: prod.split)
  have others: "map_option (\<lambda>(st, r, _). (st, r)) (opof_get_session_server k rsp s2) =
       map_option (\<lambda>(st, r, _). (st, r)) (opof_get_session_server k rsp s)" for k
    unfolding get_session_refines [OF rel2] get_session_refines [OF rel] by (simp split: option.split)
  show ?thesis
    using s1 g1 s2 g2 others draw_word [of 100 1000] draw_word [of 110 1500] draw_word [of 1000 5000]
    unfolding same
    by (intro exI [of _ s1] exI [of _ "got_response ?r"] exI [of _ s2])
      (simp add: got_response_def new_session_def stats_of_def)
qed

text \<open>
  C9: one call reports and deletes the closed sessions in table order, at most
  \<open>pageSize\<close> of them (all of them when \<open>pageSize\<close> is 0 or, as an \<open>int\<close>, negative), writes one
  response each from index 0 on, and leaves the other sessions in the table. It needs room for
  as many responses; without, it writes past the array.
\<close>

theorem get_closed_correct:
  assumes "server_inv s T"
  shows "if length (reported (sint (stat_pageSize q)) T) \<le> length responses
    then \<exists>s'. opof_get_closed_sessions_server q responses s =
        Some (length (reported (sint (stat_pageSize q)) T),
              overwrite responses 0 (listing (gen s) (reported (sint (stat_pageSize q)) T)), s') \<and>
      server_inv s' (filter (\<lambda>r. r \<notin> set (reported (sint (stat_pageSize q)) T)) T)
    else opof_get_closed_sessions_server q responses s = None"
proof -
  obtain as where "store_rel s as T" using assms by (auto simp: server_inv_def)
  from get_closed_refines [OF this, of q responses] show ?thesis
    unfolding server_inv_def by (auto split: if_splits)
qed

subsection \<open>Listing by pages\<close>

text \<open>The server holds \<open>T\<close> and its cursor stands before the session with index \<open>k\<close>.\<close>

definition server_at :: "server \<Rightarrow> record_t list \<Rightarrow> nat \<Rightarrow> bool" where
  "server_at s T k \<longleftrightarrow> (\<exists>as. store_rel s as T \<and> cursor_at s as k)"

lemma server_at_inv: "server_at s T k \<Longrightarrow> server_inv s T"
  by (auto simp: server_at_def server_inv_def)

lemma page_step:
  assumes "server_at s T k" and "page_len psize 0 (length T - (if ss = UINT_MAX then 0 else k)) \<le> length responses"
  shows "\<exists>s'. opof_get_all_sessions_server psize ss pc responses s =
      Some (page_len psize 0 (length T - (if ss = UINT_MAX then 0 else k)),
            last (ss # map key (take (page_len psize 0 (length T - (if ss = UINT_MAX then 0 else k)))
              (drop (if ss = UINT_MAX then 0 else k) T))),
            overwrite responses 0 (listing (gen s)
              (take (page_len psize 0 (length T - (if ss = UINT_MAX then 0 else k)))
                (drop (if ss = UINT_MAX then 0 else k) T))), s') \<and>
    server_at s' T ((if ss = UINT_MAX then 0 else k) +
      page_len psize 0 (length T - (if ss = UINT_MAX then 0 else k)))"
proof -
  obtain as where rel: "store_rel s as T" and cur: "cursor_at s as k"
    using assms(1) by (auto simp: server_at_def)
  let ?j = "if ss = UINT_MAX then 0 else k" and ?n = "page_len psize 0 (length T - (if ss = UINT_MAX then 0 else k))"
  let ?s = "s\<lparr>start := hd_ptr (drop (?j + ?n) as), gen := advance (4 * ?n) (gen s)\<rparr>"
  have "server_at ?s T (?j + ?n)"
    unfolding server_at_def using rel by (intro exI [of _ as]) (simp add: cursor_at_def)
  then show ?thesis using page_refines [OF rel cur assms(2), of pc] by blast
qed

text \<open>
  C10: with a positive page size and room for a page, one call of the listing returns the
  next sessions after the cursor in table order, as many as fit, sets the key to the last id it
  wrote (or keeps it when nothing is left) and moves the cursor behind them; the key
  \<open>UINT_MAX\<close> restarts at the first session. The table is not changed.
\<close>

theorem page_correct:
  fixes ss :: u64
  assumes "server_at s T k" and "0 < psize" and "nat psize \<le> length responses"
  defines "j \<equiv> (if ss = UINT_MAX then 0 else k)"
  defines "page \<equiv> take (nat psize) (drop j T)"
  shows "\<exists>s'. opof_get_all_sessions_server psize ss pc responses s =
      Some (length page, last (ss # map key page), overwrite responses 0 (listing (gen s) page), s') \<and>
    server_at s' T (j + length page)"
proof -
  have n: "page_len psize 0 (length T - j) = length page"
    using assms(2) by (simp add: page_len_def page_def)
  have t: "take (length page) (drop j T) = page"
    by (cases "nat psize \<le> length T - j") (auto simp: page_def)
  have room: "page_len psize 0 (length T - j) \<le> length responses"
    using n assms(3) by (simp add: page_def)
  show ?thesis
    using page_step [OF assms(1) room [unfolded j_def], of pc] unfolding j_def [symmetric] n t .
qed

text \<open>
  C33: the cursor is not adjusted when a session is removed: after the session the
  cursor stands at is deleted, the next page (with any key but \<open>UINT_MAX\<close>) reads the freed
  record.
\<close>

theorem page_after_delete_faults:
  assumes at: "server_at s T k" and k: "k < length T" and ss: "ss \<noteq> UINT_MAX"
  shows "\<exists>r s1. opof_del_session_server (key (T ! k)) rsp s = Some (status_code OK, r, s1) \<and>
    opof_get_all_sessions_server psize ss pc responses s1 = None"
proof -
  obtain as where rel: "store_rel s as T" and cur: "cursor_at s as k"
    using at by (auto simp: server_at_def)
  have L: "list_all2 (holds (records s)) as T" and inv: "ut_inv (ut s) as" using rel by (simp_all add: store_rel_def)
  have len: "length as = length T" using list_all2_lengthD [OF L] .
  have st: "start s = Some (as ! k)" using cur k len by (simp add: cursor_at_def hd_ptr_def hd_drop_conv_nth)
  have ka: "key_at (records s) (as ! k) = Some (key (T ! k))"
    using holds_key list_all2_nthD2 [OF L k] by blast
  have "find (\<lambda>r. key r = key (T ! k)) T \<noteq> None" using k by (simp add: find_key_None)
  then obtain r s1 a where del: "opof_del_session_server (key (T ! k)) rsp s = Some (status_code OK, r, s1)"
    and a: "a \<in> set as" "key_at (records s) a = Some (key (T ! k))" "start s1 = start s" "records s1 a = None"
    using del_session_refines [OF rel, of "key (T ! k)" rsp] by (auto split: option.splits)
  have "a = as ! k"
    using inv a(1,2) ka k len nth_mem unfolding ut_inv_def inj_on_def by metis
  then have "start s1 = Some a" "records s1 a = None" using st a by simp_all
  then have "opof_get_all_sessions_server psize ss pc responses s1 = None"
    using ss by (simp add: opof_get_all_sessions_server_def getAllSessionsPage_def page_loop.simps Let_def
        Option.bind_eq_None_conv)
  then show ?thesis using del by blast
qed

text \<open>
  \<open>UINT_MAX\<close> (4294967295, the sentinel that asks for the first page) is also a
  possible 64-bit session id: when the last session of a full first page has this id, the call
  that should fetch the second page returns the first page again.
\<close>

theorem page_restart_key:
  assumes "server_at s T k" and "0 < psize" and "nat psize \<le> length responses"
    and "nat psize \<le> length T" and "key (T ! (nat psize - 1)) = UINT_MAX"
  shows "\<exists>s1 s2 rs1 rs2.
    opof_get_all_sessions_server psize UINT_MAX pc responses s = Some (nat psize, UINT_MAX, rs1, s1) \<and>
    opof_get_all_sessions_server psize UINT_MAX pc responses s1 = Some (nat psize, UINT_MAX, rs2, s2) \<and>
    map rsp_sessionId (take (nat psize) rs2) = map rsp_sessionId (take (nat psize) rs1) \<and>
    server_at s2 T (nat psize)"
proof -
  let ?page = "take (nat psize) T"
  have len: "length ?page = nat psize" using assms(4) by simp
  have ne: "?page \<noteq> []" using assms(2,4) len by auto
  have "last (map key ?page) = UINT_MAX"
    using assms(2,4,5) ne by (simp add: last_map last_conv_nth min_def)
  then have last: "last (UINT_MAX # map key ?page) = UINT_MAX" using ne by simp
  have ids: "map rsp_sessionId (take (nat psize) (overwrite responses 0 (listing g ?page))) = map key ?page" for g
  proof -
    have "take (nat psize) (overwrite responses 0 (listing g ?page)) = listing g ?page"
      using len by (simp add: overwrite_def)
    then show ?thesis by (simp add: listing_ids)
  qed
  have step: "\<exists>s'. opof_get_all_sessions_server psize UINT_MAX pc responses s0 =
      Some (nat psize, UINT_MAX, overwrite responses 0 (listing (gen s0) ?page), s') \<and> server_at s' T (nat psize)"
    if "server_at s0 T k0" for s0 k0
    using page_correct [OF that assms(2,3), of UINT_MAX pc] by (simp only: simp_thms if_True drop_0 last len add_0)
  show ?thesis using step step [OF assms(1)] ids by metis
qed

subsection \<open>Limits of the implementation\<close>

text \<open>
  The response array of the callers has \<open>BUFFER_MAX\<close> elements. When more sessions
  are closed than that and the page size does not stop the loop in time (it is 0, negative as
  an \<open>int\<close>, or larger than \<open>BUFFER_MAX\<close>), the call writes past the array.
\<close>

theorem closed_array_overrun:
  assumes "server_inv s T" and "BUFFER_MAX < length (filter is_closed T)" and "length responses = BUFFER_MAX"
    and "sint (stat_pageSize q) \<le> 0 \<or> int BUFFER_MAX < sint (stat_pageSize q)"
  shows "opof_get_closed_sessions_server q responses s = None"
proof -
  have "\<not> length (reported (sint (stat_pageSize q)) T) \<le> length responses"
    using assms(2-4) by (auto simp: reported_def min_def)
  then show ?thesis using get_closed_correct [OF assms(1), of q responses] by argo
qed

text \<open>
  The record is allocated before the request is checked. When the request is
  refused, the record stays allocated, is in no list of the table, and nothing points to it.
\<close>

theorem rejected_add_leaks:
  assumes inv: "server_inv s T" and rej: "fst (spec_add p (T, gen s)) \<noteq> OK"
  shows "\<exists>s' as. opof_add_session_server p s = Some (status_code (fst (spec_add p (T, gen s))), s') \<and>
    records s (brk s) = None \<and> records s' (brk s) = Some zero_record \<and>
    ut_walk (records s') (head (ut s')) = Some as \<and> brk s \<notin> set as \<and> start s' = start s"
proof -
  obtain as where rel: "store_rel s as T" using inv by (auto simp: server_inv_def)
  let ?s = "snd (alloc_record s)"
  have rel1: "store_rel ?s as T" and r: "brk s \<notin> set as" "records ?s (brk s) = Some zero_record"
    using store_rel_alloc [OF rel] by simp_all
  have inv1: "ut_inv (ut ?s) as" using rel1 by (simp add: store_rel_def)
  have len: "length as = length T" using store_rel_distinct [OF rel] by simp
  have cnt: "HASH_COUNT (ut ?s) = Some (length T)" using uth.cnt_eq [OF inv1] len by simp
  have al: "alloc_record s = (brk s, ?s)" by (rule alloc_record_eq)
  have "opof_add_session_server p s = Some (status_code (fst (spec_add p (T, gen s))), ?s)"
  proof (cases "HASHTABLE_SIZE < length T")
    case True
    then show ?thesis by (subst opof_add_session_server_def, subst al) (simp add: cnt spec_add_def)
  next
    case False
    then have dup: "sessId p \<in> key ` set T" using rej by (auto simp: spec_add_def split: if_splits)
    then obtain a where "HASH_FIND (ut ?s) (sessId p) = Some (Some a)"
      using store_rel_find [OF rel1, of "sessId p"] find_key_None [of "sessId p" T] by auto
    then show ?thesis using False dup
      by (subst opof_add_session_server_def, subst al) (simp add: cnt spec_add_def)
  qed
  moreover have "records s (brk s) = None" using rel by (simp add: store_rel_def)
  ultimately show ?thesis using r ut_inv_walk [OF inv1] by auto
qed

text \<open>A request that has to succeed.\<close>

definition add_ok :: "sessionRequest_t \<Rightarrow> server \<Rightarrow> server option" where
  "add_ok p s = do {
     (st, s) \<leftarrow> opof_add_session_server p s;
     if st = status_code OK then Some s else None }"

lemma add_many:
  assumes "store_rel s as T" and "distinct (map key T @ map sessId ps)"
    and "length T + length ps \<le> Suc HASHTABLE_SIZE" and "\<forall>r\<in>set T. is_closed r"
  shows "\<exists>s' as' T'. run_all add_ok ps s = Some s' \<and> store_rel s' as' T' \<and>
    map key T' = map key T @ map sessId ps \<and> (\<forall>r\<in>set T'. is_closed r) \<and> start s' = start s"
  using assms
proof (induction ps arbitrary: s as T)
  case Nil
  then show ?case by auto
next
  case (Cons p ps)
  let ?r = "new_session p (stats_of (gen s))"
  have r: "key ?r = sessId p" "is_closed ?r" by (simp_all add: new_session_def split: prod.split)
  have spec: "spec_add p (T, gen s) = (OK, T @ [?r], advance 4 (gen s))"
    using Cons.prems(2,3) by (auto simp: spec_add_def)
  obtain s1 as1 where s1: "opof_add_session_server p s = Some (status_code OK, s1)"
    and rel1: "store_rel s1 as1 (T @ [?r])" and st: "start s1 = start s"
    using add_session_refines [OF Cons.prems(1), of p] unfolding spec by auto
  have "distinct (map key (T @ [?r]) @ map sessId ps)"
      "length (T @ [?r]) + length ps \<le> Suc HASHTABLE_SIZE" "\<forall>r\<in>set (T @ [?r]). is_closed r"
    using Cons.prems(2-4) r by auto
  from Cons.IH [OF rel1 this] show ?case using s1 st r by (auto simp: add_ok_def)
qed

text \<open>
  The capacity check admits \<open>HASHTABLE_SIZE + 1\<close> sessions: that many requests with
  different ids all succeed on a new server, and only then is every further one refused.
\<close>

theorem capacity_is_1001:
  assumes "distinct (map sessId ps)" and "length ps = HASHTABLE_SIZE + 1"
  shows "\<exists>s T. run_all add_ok ps (server_init g) = Some s \<and> server_inv s T \<and>
    length T = HASHTABLE_SIZE + 1 \<and> map key T = map sessId ps \<and>
    (\<forall>p. \<exists>s'. opof_add_session_server p s = Some (status_code RESOURCE_EXHAUSTED, s') \<and> server_inv s' T)"
proof -
  have "store_rel (server_init g) [] []"
    by (auto simp: store_rel_def server_init_def ut_inv_Nil)
  from add_many [OF this, of ps] assms obtain s as T where s: "run_all add_ok ps (server_init g) = Some s"
    and rel: "store_rel s as T" and keys: "map key T = map sessId ps"
    by auto
  have len: "length T = HASHTABLE_SIZE + 1" using arg_cong [OF keys, of length] assms(2) by simp
  have spec: "spec_add p (T, gen s) = (RESOURCE_EXHAUSTED, T, gen s)" for p
    using len by (simp add: spec_add_def)
  have inv: "server_inv s T" using rel by (auto simp: server_inv_def)
  have "\<exists>s'. opof_add_session_server p s = Some (status_code RESOURCE_EXHAUSTED, s') \<and> server_inv s' T" for p
    using add_session_correct [OF inv, of p] unfolding spec by auto
  then show ?thesis using s len keys inv by blast
qed

subsection \<open>Reachable states\<close>

text \<open>
  The states the server reaches from its start by calls of its five functions that return. The
  listing is called as the gRPC handler calls it, with pages and an array of \<open>BUFFER_MAX\<close>.
\<close>

inductive server_step :: "server \<Rightarrow> server \<Rightarrow> bool" where
  add: "opof_add_session_server p s = Some (st, s') \<Longrightarrow> server_step s s'"
| get: "opof_get_session_server k rsp s = Some (st, rsp', s') \<Longrightarrow> server_step s s'"
| del: "opof_del_session_server k rsp s = Some (st, rsp', s') \<Longrightarrow> server_step s s'"
| closed: "opof_get_closed_sessions_server q rsps s = Some (n, rsps', s') \<Longrightarrow> server_step s s'"
| all: "opof_get_all_sessions_server psize ss pc rsps s = Some (n, ss', rsps', s') \<Longrightarrow> server_step s s'"

inductive server_reachable :: "rng \<Rightarrow> server \<Rightarrow> bool" for g where
  init: "server_reachable g (server_init g)"
| step: "server_reachable g s \<Longrightarrow> server_step s s' \<Longrightarrow> server_reachable g s'"

inductive_cases server_stepE: "server_step s s'"

text \<open>Listing changes the cursor and the random numbers only, whatever the cursor is.\<close>

lemma page_loop_frame:
  assumes "page_loop psize r i k responses s = Some res"
  shows "ut (snd (snd (snd res))) = ut s \<and> brk (snd (snd (snd res))) = brk s"
proof (rule page_loop.raw_induct [OF _ assms, where P = "\<lambda>psize r i k responses s res.
    ut (snd (snd (snd res))) = ut s \<and> brk (snd (snd (snd res))) = brk s"])
  fix f psize r i k responses s res
  assume IH: "\<And>psize r i k responses s res. f psize r i k responses s = Some res \<Longrightarrow>
      ut (snd (snd (snd res))) = ut s \<and> brk (snd (snd (snd res))) = brk s"
    and body: "(case r of None \<Rightarrow> Some (i, k, responses, s\<lparr>start := None\<rparr>)
      | Some a \<Rightarrow> do {
          response \<leftarrow> load responses i;
          m \<leftarrow> records s a;
          (stats, g) \<leftarrow> draw_stats (gen s);
          responses \<leftarrow> store responses i (listed_response m stats response);
          let s = s\<lparr>gen := g\<rparr>;
          let i = i + 1;
          if int i = psize
          then Some (i, key m, responses, s\<lparr>start := nxt m\<rparr>)
          else f psize (nxt m) i (key m) responses s }) = Some res"
  show "ut (snd (snd (snd res))) = ut s \<and> brk (snd (snd (snd res))) = brk s"
    using body by (auto simp: Let_def split: option.splits Option.bind_splits if_splits dest!: IH)
qed

lemma get_all_frame:
  assumes "opof_get_all_sessions_server psize ss pc responses s = Some (n, k', responses', s')"
  shows "ut s' = ut s \<and> brk s' = brk s"
proof -
  define s1 where "s1 = (if ss = UINT_MAX then s\<lparr>start := head (ut s)\<rparr> else s)"
  have "(if start s1 = None then Some (0, ss, responses, s1) else page_loop psize (start s1) 0 ss responses s1)
      = Some (n, k', responses', s')"
    using assms unfolding opof_get_all_sessions_server_def getAllSessionsPage_def Let_def s1_def .
  then have "ut s' = ut s1 \<and> brk s' = brk s1"
    using page_loop_frame [of psize "start s1" 0 ss responses s1] by (fastforce split: if_splits)
  then show ?thesis by (simp add: s1_def)
qed

definition session_inv :: "record_t \<Rightarrow> bool" where
  "session_inv r \<longleftrightarrow> is_closed r \<and> sessionClose r = close_code NOT_CLOSED \<and>
     actionValue r = action_code FORWARD \<and>
     100 \<le> inPackets r \<and> inPackets r \<le> 1000 \<and> 110 \<le> outPackets r \<and> outPackets r \<le> 1500 \<and>
     1000 \<le> inBytes r \<and> inBytes r \<le> 5000 \<and> 1000 \<le> outBytes r \<and> outBytes r \<le> 5000"

definition table_inv :: "record_t list \<Rightarrow> bool" where
  "table_inv T \<longleftrightarrow> length T \<le> HASHTABLE_SIZE + 1 \<and> (\<forall>r\<in>set T. session_inv r)"

lemma session_inv_new: "session_inv (new_session p (stats_of g))"
  using draw_word [of 100 1000] draw_word [of 110 1500] draw_word [of 1000 5000]
  by (simp add: session_inv_def new_session_def stats_of_def)

lemma table_inv_Nil: "table_inv []"
  by (simp add: table_inv_def)

lemma table_inv_filter: "table_inv T \<Longrightarrow> table_inv (filter P T)"
  unfolding table_inv_def using le_trans [OF length_filter_le [of P T]] by auto

lemma table_inv_add: "table_inv T \<Longrightarrow> table_inv (fst (snd (spec_add p (T, g))))"
  by (auto simp: table_inv_def spec_add_def session_inv_new)

lemma server_step_inv:
  assumes "server_step s s'" and inv: "server_inv s T" "table_inv T"
  shows "\<exists>T'. server_inv s' T' \<and> table_inv T'"
  using assms(1)
proof (rule server_stepE)
  fix p st assume "opof_add_session_server p s = Some (st, s')"
  then show ?thesis
    using add_session_correct [OF inv(1), of p] table_inv_add [OF inv(2)] by auto
next
  fix k rsp st rsp' assume g: "opof_get_session_server k rsp s = Some (st, rsp', s')"
  obtain as where "store_rel s as T" using inv(1) by (auto simp: server_inv_def)
  then have "s' = s" using g get_session_refines [of s as T k rsp] by (auto split: option.splits)
  then show ?thesis using inv by blast
next
  fix k rsp st rsp' assume "opof_del_session_server k rsp s = Some (st, rsp', s')"
  then show ?thesis
    using del_session_correct [OF inv(1), of k rsp] table_inv_filter [OF inv(2)] inv
    by (auto split: option.splits)
next
  fix q rsps n rsps' assume "opof_get_closed_sessions_server q rsps s = Some (n, rsps', s')"
  then show ?thesis
    using get_closed_correct [OF inv(1), of q rsps] table_inv_filter [OF inv(2)]
    by (auto split: if_splits)
next
  fix psize ss pc rsps n ss' rsps' assume "opof_get_all_sessions_server psize ss pc rsps s = Some (n, ss', rsps', s')"
  from get_all_frame [OF this] have "server_inv s' T"
    using inv(1) by (simp add: server_inv_def store_rel_def)
  then show ?thesis using inv(2) by blast
qed

lemma server_reachable_inv: "server_reachable g s \<Longrightarrow> \<exists>T. server_inv s T \<and> table_inv T"
proof (induction rule: server_reachable.induct)
  case init
  then show ?case using server_inv_init table_inv_Nil by blast
next
  case (step s s')
  then show ?case using server_step_inv by blast
qed

text \<open>
  C12: in every reachable state the hash table is well formed and holds at most
  \<open>HASHTABLE_SIZE + 1\<close> sessions with different ids; every one of them is in state closed, has no
  close reason and is forwarded (nothing ever sets another state), and its statistics are in the
  ranges they are drawn from.
\<close>

theorem reachable_invariant:
  assumes "server_reachable g s"
  shows "\<exists>T. server_inv s T \<and> distinct (map key T) \<and> table_inv T"
  using server_reachable_inv [OF assms] server_inv_keys by blast

text \<open>
  In no reachable state can adding, getting or deleting a session fault: no
  invalid pointer, no endless loop over a chain.
\<close>

theorem reachable_safe:
  assumes "server_reachable g s"
  shows "opof_add_session_server p s \<noteq> None \<and> opof_get_session_server k rsp s \<noteq> None \<and>
    opof_del_session_server k rsp s \<noteq> None"
proof (intro conjI)
  obtain T as where inv: "server_inv s T" and rel: "store_rel s as T"
    using server_reachable_inv [OF assms] by (auto simp: server_inv_def)
  show "opof_add_session_server p s \<noteq> None" using add_session_correct [OF inv, of p] by auto
  show "opof_get_session_server k rsp s \<noteq> None" by (simp add: get_session_refines [OF rel])
  show "opof_del_session_server k rsp s \<noteq> None"
    using del_session_correct [OF inv, of k rsp] by (auto split: option.splits)
qed

subsection \<open>The properties on concrete servers\<close>

definition ex_rng :: rng where
  "ex_rng = \<lparr>sequence = (\<lambda>i. of_nat (7 * i)), drawn = 0\<rparr>"

definition ex_request :: "u64 \<Rightarrow> sessionRequest_t" where
  "ex_request k = \<lparr>sessId = k, inlif = 1, outlif = 2, srcIP = 0x0A000101, srcIPV6 = replicate 16 0,
     dstIP = 0x0A010001, dstIPV6 = replicate 16 0, srcPort = 80, dstPort = 45678,
     proto = proto_code TCP, ipver = ipver_code IPV4, actType = action_code FORWARD,
     nextHop = 0, nextHopV6 = replicate 16 0, cacheTimeout = 15\<rparr>"

lemma ex_request_ids [simp]: "sessId (ex_request k) = k" "map sessId (map ex_request ks) = ks"
  by (simp_all add: ex_request_def comp_def)

definition ex_rsp :: sessionResponse_t where
  "ex_rsp = \<lparr>rsp_sessionId = 0, rsp_inPackets = 0, rsp_outPackets = 0, rsp_inBytes = 0,
     rsp_outBytes = 0, rsp_sessionState = 0, rsp_sessionCloseCode = 0, rsp_requestStatus = 0\<rparr>"

lemma ex_store:
  assumes "distinct ks" and "length ks \<le> Suc HASHTABLE_SIZE"
  shows "\<exists>s T. run_all add_ok (map ex_request ks) (server_init ex_rng) = Some s \<and> server_inv s T \<and>
    server_at s T (length T) \<and> map key T = ks \<and> filter is_closed T = T"
proof -
  have "store_rel (server_init ex_rng) [] []"
    by (auto simp: store_rel_def server_init_def ut_inv_Nil)
  from add_many [OF this, of "map ex_request ks"] assms
  obtain s as T where s: "run_all add_ok (map ex_request ks) (server_init ex_rng) = Some s"
    and rel: "store_rel s as T" and T: "map key T = ks" "\<forall>r\<in>set T. is_closed r"
    and st: "start s = None"
    by (auto simp: comp_def server_init_def)
  have "server_at s T (length T)"
    unfolding server_at_def using rel st store_rel_distinct [OF rel]
    by (intro exI [of _ as]) (simp add: cursor_at_def)
  moreover have "filter is_closed T = T" using T(2) by (simp add: filter_id_conv)
  ultimately show ?thesis using s T(1) server_at_inv by blast
qed

lemma ex_three:
  obtains s r1 r2 r3 where "run_all add_ok (map ex_request [1, 2, 3]) (server_init ex_rng) = Some s"
    and "server_inv s [r1, r2, r3]" and "server_at s [r1, r2, r3] 3" and "key r1 = 1" "key r2 = 2" "key r3 = 3"
    and "is_closed r1" "is_closed r2" "is_closed r3"
proof -
  obtain s T where s: "run_all add_ok (map ex_request [1, 2, 3]) (server_init ex_rng) = Some s"
    and inv: "server_inv s T" "server_at s T (length T)" and T: "map key T = [1, 2, 3]" "filter is_closed T = T"
    using ex_store [of "[1, 2, 3]"] by (auto simp: HASHTABLE_SIZE_def)
  then obtain r1 r2 r3 where "T = [r1, r2, r3]" "key r1 = 1" "key r2 = 2" "key r3 = 3"
    by (auto simp: map_eq_Cons_conv)
  then show thesis using that s inv T(2) by (simp add: numeral_3_eq_3 filter_eq_Cons_iff split: if_splits)
qed

lemma add_session_correct_witness:
  "\<exists>s s1 s2. run_all add_ok (map ex_request [1, 2, 3]) (server_init ex_rng) = Some s \<and>
     opof_add_session_server (ex_request 4) s = Some (status_code OK, s1) \<and>
     opof_add_session_server (ex_request 2) s = Some (status_code ALREADY_EXISTS, s2)"
proof -
  obtain s r1 r2 r3 where s: "run_all add_ok (map ex_request [1, 2, 3]) (server_init ex_rng) = Some s"
    and inv: "server_inv s [r1, r2, r3]" and k: "key r1 = 1" "key r2 = 2" "key r3 = 3"
    by (rule ex_three)
  show ?thesis
    using s k add_session_correct [OF inv, of "ex_request 4"] add_session_correct [OF inv, of "ex_request 2"]
    by (auto simp: spec_add_def HASHTABLE_SIZE_def)
qed

lemma del_session_correct_witness:
  "\<exists>s r s1. run_all add_ok (map ex_request [1, 2, 3]) (server_init ex_rng) = Some s \<and>
     opof_del_session_server 2 ex_rsp s = Some (status_code OK, r, s1) \<and> rsp_sessionId r = 2 \<and>
     opof_del_session_server 9 ex_rsp s = Some (status_code NOT_FOUND, ex_rsp, s)"
proof -
  obtain s r1 r2 r3 where s: "run_all add_ok (map ex_request [1, 2, 3]) (server_init ex_rng) = Some s"
    and inv: "server_inv s [r1, r2, r3]" and k: "key r1 = 1" "key r2 = 2" "key r3 = 3"
    by (rule ex_three)
  show ?thesis
    using s k del_session_correct [OF inv, of 2 ex_rsp] del_session_correct [OF inv, of 9 ex_rsp]
    by (auto simp: got_response_def)
qed

lemma session_lifecycle_witness:
  "\<exists>s s1 r1. run_all add_ok (map ex_request [1, 2, 3]) (server_init ex_rng) = Some s \<and>
     opof_add_session_server (ex_request 4) s = Some (status_code OK, s1) \<and>
     opof_get_session_server 4 ex_rsp s1 = Some (status_code OK, r1, s1) \<and> rsp_inPackets r1 \<le> 1000"
proof -
  obtain s r1 r2 r3 where s: "run_all add_ok (map ex_request [1, 2, 3]) (server_init ex_rng) = Some s"
    and inv: "server_inv s [r1, r2, r3]" and k: "key r1 = 1" "key r2 = 2" "key r3 = 3"
    by (rule ex_three)
  show ?thesis
    using s k session_lifecycle [OF inv, of "ex_request 4" ex_rsp] by (auto simp: HASHTABLE_SIZE_def)
qed

lemma get_closed_correct_witness:
  "\<exists>s rsps s'. run_all add_ok (map ex_request [1, 2, 3]) (server_init ex_rng) = Some s \<and>
     opof_get_closed_sessions_server \<lparr>stat_pageSize = 2, stat_page = 0\<rparr> (replicate 2 ex_rsp) s = Some (2, rsps, s') \<and>
     map rsp_sessionId rsps = [1, 2]"
proof -
  obtain s r1 r2 r3 where s: "run_all add_ok (map ex_request [1, 2, 3]) (server_init ex_rng) = Some s"
    and inv: "server_inv s [r1, r2, r3]" and k: "key r1 = 1" "key r2 = 2" "key r3 = 3"
    and c: "is_closed r1" "is_closed r2" "is_closed r3"
    by (rule ex_three)
  let ?q = "\<lparr>stat_pageSize = 2, stat_page = 0\<rparr>"
  have R: "reported (sint (stat_pageSize ?q)) [r1, r2, r3] = [r1, r2]"
    using c by (simp add: reported_def numeral_2_eq_2)
  obtain s' where s': "opof_get_closed_sessions_server ?q (replicate 2 ex_rsp) s =
      Some (2, overwrite (replicate 2 ex_rsp) 0 (listing (gen s) [r1, r2]), s')"
    using get_closed_correct [OF inv, of ?q "replicate 2 ex_rsp"] unfolding R by auto
  have "map rsp_sessionId (overwrite (replicate 2 ex_rsp) 0 (listing (gen s) [r1, r2])) = [1, 2]"
    using k by (simp add: overwrite_def listing_ids del: listing.simps)
  with s s' show ?thesis by (intro exI conjI)
qed

lemma page_correct_witness:
  "\<exists>s rsps s'. run_all add_ok (map ex_request [1, 2, 3]) (server_init ex_rng) = Some s \<and>
     opof_get_all_sessions_server 2 UINT_MAX 0 (replicate 2 ex_rsp) s = Some (2, 2, rsps, s') \<and>
     map rsp_sessionId rsps = [1, 2]"
proof -
  obtain s r1 r2 r3 where s: "run_all add_ok (map ex_request [1, 2, 3]) (server_init ex_rng) = Some s"
    and at: "server_at s [r1, r2, r3] 3" and k: "key r1 = 1" "key r2 = 2" "key r3 = 3"
    by (rule ex_three)
  have 2: "nat 2 = Suc (Suc 0)" by simp
  show ?thesis
    using s k page_correct [OF at, of 2 "replicate 2 ex_rsp" UINT_MAX 0]
    by (auto simp: 2 overwrite_def listed_def split: prod.splits)
qed

lemma page_after_delete_faults_witness:
  "\<exists>s s1 r s2 rsps. run_all add_ok (map ex_request [1, 2, 3]) (server_init ex_rng) = Some s \<and>
     opof_get_all_sessions_server 2 UINT_MAX 0 (replicate 2 ex_rsp) s = Some (2, 2, rsps, s1) \<and>
     opof_del_session_server 3 ex_rsp s1 = Some (status_code OK, r, s2) \<and>
     opof_get_all_sessions_server 2 2 0 (replicate 2 ex_rsp) s2 = None"
proof -
  obtain s r1 r2 r3 where s: "run_all add_ok (map ex_request [1, 2, 3]) (server_init ex_rng) = Some s"
    and at: "server_at s [r1, r2, r3] 3" and k: "key r1 = 1" "key r2 = 2" "key r3 = 3"
    by (rule ex_three)
  have pl: "page_len 2 0 (length [r1, r2, r3] - (if UINT_MAX = UINT_MAX then 0 else 3)) = 2"
    by (simp add: page_len_def)
  obtain s1 rsps where s1: "opof_get_all_sessions_server 2 UINT_MAX 0 (replicate 2 ex_rsp) s = Some (2, 2, rsps, s1)"
    and at1: "server_at s1 [r1, r2, r3] 2"
    using page_step [OF at, of 2 UINT_MAX "replicate 2 ex_rsp" 0, unfolded pl] k
    by (auto simp: numeral_2_eq_2)
  have "(2::u64) \<noteq> UINT_MAX" "key ([r1, r2, r3] ! 2) = 3" "2 < length [r1, r2, r3]"
    using k by (simp_all add: UINT_MAX_def)
  with page_after_delete_faults [OF at1, of 2 ex_rsp 2 0 "replicate 2 ex_rsp"]
  show ?thesis using s s1 by metis
qed

lemma page_restart_key_witness:
  "\<exists>s s1 s2 rs1 rs2. run_all add_ok (map ex_request [7, UINT_MAX, 8]) (server_init ex_rng) = Some s \<and>
     opof_get_all_sessions_server 2 UINT_MAX 0 (replicate 2 ex_rsp) s = Some (2, UINT_MAX, rs1, s1) \<and>
     opof_get_all_sessions_server 2 UINT_MAX 0 (replicate 2 ex_rsp) s1 = Some (2, UINT_MAX, rs2, s2) \<and>
     map rsp_sessionId (take 2 rs2) = map rsp_sessionId (take 2 rs1)"
proof -
  have "distinct [7, UINT_MAX, 8]" "length [7, UINT_MAX, 8] \<le> Suc HASHTABLE_SIZE"
    by (simp_all add: UINT_MAX_def HASHTABLE_SIZE_def)
  from ex_store [OF this] obtain s T where s: "run_all add_ok (map ex_request [7, UINT_MAX, 8]) (server_init ex_rng) = Some s"
    and at: "server_at s T (length T)" and T: "map key T = [7, UINT_MAX, 8]"
    by metis
  have len: "length T = 3" using arg_cong [OF T, of length] by simp
  have "key (T ! 1) = map key T ! 1" using len by simp
  then have "key (T ! (nat 2 - 1)) = UINT_MAX" using T by simp
  from page_restart_key [OF at, of 2 "replicate 2 ex_rsp" 0, OF _ _ _ this] show ?thesis
    using s len by simp blast
qed

definition ids_upto :: "nat \<Rightarrow> u64 list" where
  "ids_upto n = map of_nat [0..<n]"

lemma ids_upto: "n < 2 ^ 64 \<Longrightarrow> distinct (ids_upto n)" "length (ids_upto n) = n"
proof -
  assume n: "n < 2 ^ 64"
  have "inj_on (of_nat :: nat \<Rightarrow> u64) {..<n}"
    using n by (intro inj_onI) (simp add: word_of_nat_eq_iff take_bit_nat_eq_self)
  then show "distinct (ids_upto n)" by (simp add: ids_upto_def distinct_map atLeast0LessThan)
qed (simp add: ids_upto_def)

lemma closed_array_overrun_witness:
  "\<exists>s. run_all add_ok (map ex_request (ids_upto 65)) (server_init ex_rng) = Some s \<and>
     opof_get_closed_sessions_server \<lparr>stat_pageSize = 0, stat_page = 0\<rparr> (replicate 64 ex_rsp) s = None"
proof -
  obtain s T where s: "run_all add_ok (map ex_request (ids_upto 65)) (server_init ex_rng) = Some s"
    and inv: "server_inv s T" and T: "map key T = ids_upto 65" "filter is_closed T = T"
    using ex_store [of "ids_upto 65"] ids_upto [of 65] by (auto simp: HASHTABLE_SIZE_def)
  have "length T = 65" using arg_cong [OF T(1), of length] by (simp add: ids_upto)
  then show ?thesis
    using s closed_array_overrun [OF inv, of "replicate 64 ex_rsp" "\<lparr>stat_pageSize = 0, stat_page = 0\<rparr>"] T(2)
    by (simp add: BUFFER_MAX_def)
qed

lemma rejected_add_leaks_witness:
  "\<exists>s s' as. run_all add_ok (map ex_request [1, 2, 3]) (server_init ex_rng) = Some s \<and>
     opof_add_session_server (ex_request 2) s = Some (status_code ALREADY_EXISTS, s') \<and>
     records s' (brk s) = Some zero_record \<and> ut_walk (records s') (head (ut s')) = Some as \<and> brk s \<notin> set as"
proof -
  obtain s r1 r2 r3 where s: "run_all add_ok (map ex_request [1, 2, 3]) (server_init ex_rng) = Some s"
    and inv: "server_inv s [r1, r2, r3]" and k: "key r1 = 1" "key r2 = 2" "key r3 = 3"
    by (rule ex_three)
  have "fst (spec_add (ex_request 2) ([r1, r2, r3], gen s)) = ALREADY_EXISTS"
    using k by (simp add: spec_add_def HASHTABLE_SIZE_def)
  then show ?thesis using s rejected_add_leaks [OF inv, of "ex_request 2"] by (simp del: status_code.simps) blast
qed

lemma capacity_is_1001_witness:
  "\<exists>s s' T. run_all add_ok (map ex_request (ids_upto 1001)) (server_init ex_rng) = Some s \<and>
     server_inv s T \<and> length T = 1001 \<and>
     opof_add_session_server (ex_request 5000) s = Some (status_code RESOURCE_EXHAUSTED, s')"
proof -
  have "distinct (map sessId (map ex_request (ids_upto 1001)))"
      "length (map ex_request (ids_upto 1001)) = HASHTABLE_SIZE + 1"
    using ids_upto [of 1001] by (simp_all only: ex_request_ids length_map HASHTABLE_SIZE_def) simp_all
  from capacity_is_1001 [OF this, of ex_rng]
  obtain s T where s: "run_all add_ok (map ex_request (ids_upto 1001)) (server_init ex_rng) = Some s"
    and inv: "server_inv s T" and len: "length T = HASHTABLE_SIZE + 1"
    and full: "\<exists>s'. opof_add_session_server (ex_request 5000) s = Some (status_code RESOURCE_EXHAUSTED, s') \<and> server_inv s' T"
    by blast
  have "length T = 1001" using len by (simp add: HASHTABLE_SIZE_def)
  then show ?thesis using s inv full by blast
qed

lemma ex_reachable: "run_all add_ok ps s = Some s' \<Longrightarrow> server_reachable g s \<Longrightarrow> server_reachable g s'"
proof (induction ps arbitrary: s)
  case (Cons p ps)
  obtain s1 where a: "add_ok p s = Some s1" and r: "run_all add_ok ps s1 = Some s'"
    using Cons.prems(1) by (auto split: Option.bind_splits)
  have s1: "opof_add_session_server p s = Some (status_code OK, s1)"
    using a by (auto simp: add_ok_def split: Option.bind_splits if_splits)
  have "server_reachable g s1" by (rule server_reachable.step [OF Cons.prems(2) server_step.add [OF s1]])
  then show ?case using Cons.IH r by blast
qed simp

lemma reachable_invariant_witness:
  "\<exists>s T. run_all add_ok (map ex_request [1, 2, 3]) (server_init ex_rng) = Some s \<and> server_inv s T \<and> table_inv T"
  using ex_three reachable_invariant ex_reachable [OF _ server_reachable.init] by metis

lemma reachable_safe_witness:
  "\<exists>s. run_all add_ok (map ex_request [1, 2, 3]) (server_init ex_rng) = Some s \<and>
     opof_add_session_server (ex_request 2) s \<noteq> None"
  using ex_three reachable_safe ex_reachable [OF _ server_reachable.init] by metis

end
