(* ===== verification/Session_Backend.thy ===== *)
theory Session_Backend
  imports Session_Server
begin

text \<open>
  The contract of an offload device behind the C server interface (\<open>include/opof_serverlib.h\<close>),
  as far as session ids go, and what the gRPC handlers guarantee over any device that keeps it.
\<close>

subsection \<open>Admission\<close>

text \<open>
  What a device with sessions \<open>ids\<close> answers to a request for session \<open>k\<close>, when it refuses
  requests once it holds more than \<open>limit\<close> sessions; the ids it holds after the requests
  \<open>ks\<close>, and the errors of the response to them.
\<close>

definition admit_status :: "nat \<Rightarrow> u64 list \<Rightarrow> u64 \<Rightarrow> SESSION_STATUS_T" where
  "admit_status limit ids k =
     (if limit < length ids then RESOURCE_EXHAUSTED
      else if k \<in> set ids then ALREADY_EXISTS else OK)"

fun admit :: "nat \<Rightarrow> u64 list \<Rightarrow> u64 list \<Rightarrow> u64 list" where
  "admit limit ids [] = ids"
| "admit limit ids (k # ks) =
     admit limit (if admit_status limit ids k = OK then ids @ [k] else ids) ks"

fun rejects :: "nat \<Rightarrow> u64 list \<Rightarrow> u64 list \<Rightarrow> pb_sessionResponseError list" where
  "rejects limit ids [] = []"
| "rejects limit ids (k # ks) =
     (if admit_status limit ids k = OK then rejects limit (ids @ [k]) ks
      else \<lparr>pbe_sessionId = k, pbe_errorStatus = status_code (admit_status limit ids k)\<rparr> # rejects limit ids ks)"

lemma admit_append: "admit limit ids (ks @ ks') = admit limit (admit limit ids ks) ks'"
  by (induction ks arbitrary: ids) auto

lemma rejects_append:
  "rejects limit ids (ks @ ks') = rejects limit ids ks @ rejects limit (admit limit ids ks) ks'"
  by (induction ks arbitrary: ids) auto

text \<open>New ids that fit are all admitted.\<close>

lemma admit_new:
  assumes "distinct (ids @ ks)" and "length ids + length ks \<le> Suc limit"
  shows "admit limit ids ks = ids @ ks \<and> rejects limit ids ks = []"
  using assms by (induction ks arbitrary: ids) (auto simp: admit_status_def)

lemma rejects_length: "length (rejects limit ids ks) \<le> length ks"
  by (induction ks arbitrary: ids) (auto simp: le_SucI)

lemma admit_distinct: "distinct ids \<Longrightarrow> distinct (admit limit ids ks)"
  by (induction ks arbitrary: ids) (auto simp: admit_status_def)

lemma admit_length: "length ids \<le> Suc limit \<Longrightarrow> length (admit limit ids ks) \<le> Suc limit"
  by (induction ks arbitrary: ids) (auto simp: admit_status_def)

text \<open>A message that converts: its IPv6 addresses have their 16 bytes.\<close>

definition wf_message :: "pb_sessionRequest \<Rightarrow> bool" where
  "wf_message m \<longleftrightarrow> (pb_ipVersion m = ipver_code IPV6 \<longrightarrow>
     16 \<le> length (pb_sourceIpV6 m) \<and> 16 \<le> length (pb_destinationIpV6 m) \<and>
     16 \<le> length (pb_actionNextHopV6 (pb_action m)))"

lemma convert_wf:
  "wf_message m \<Longrightarrow> \<exists>c'. convertSessionRequest2c m c = Some c' \<and> sessId c' = pb_sessionId m"
  by (auto simp: wf_message_def convertSessionRequest2c_def copy_in6_def Let_def)

lemma convert_not_wf: "\<not> wf_message m \<Longrightarrow> convertSessionRequest2c m c = None"
  by (auto simp: wf_message_def convertSessionRequest2c_def copy_in6_def Let_def split: Option.bind_splits)

subsection \<open>The arrays of responses\<close>

lemma add_sessionInfos_ok:
  "\<forall>i\<in>set is. i < length cs \<Longrightarrow> add_sessionInfos cs is m =
     Some (m\<lparr>pb_sessionInfo := pb_sessionInfo m @ map (\<lambda>i. sessionInfo_of (cs ! i)) is\<rparr>)"
  by (induction "is" arbitrary: m) auto

lemma write_closed_ok:
  "\<forall>i\<in>set is. i < length cs \<Longrightarrow>
     write_closed cs is m = Some (map (\<lambda>i. closed_message (cs ! i) default_sessionResponse) is)"
proof (induction "is" arbitrary: m)
  case (Cons i "is")
  have "closed_message (cs ! i) m = closed_message (cs ! i) default_sessionResponse"
    by (simp add: closed_message_def)
  then show ?case using Cons by simp
qed simp

lemma closed_message_id [simp]: "pbr_sessionId (closed_message c m) = rsp_sessionId c"
  by (simp add: closed_message_def)

lemma sessionInfo_id [simp]: "pbr_sessionId (sessionInfo_of c) = rsp_sessionId c"
  by (simp add: sessionInfo_of_def)

lemma map_nth_take: "n \<le> length xs \<Longrightarrow> map (\<lambda>i. f (xs ! i)) [0..<n] = map f (take n xs)"
  by (rule nth_equalityI) auto

subsection \<open>The contract\<close>

text \<open>
  \<open>at s ids k\<close>: the device holds the sessions \<open>ids\<close>, in this order, and its listing stands
  before the one with index \<open>k\<close>; \<open>inv s ids\<close> is the same without the position. The key
  \<open>UINT_MAX\<close> puts the listing back to the beginning, wherever it stands; deleting a session that
  has been listed does not disturb the listing.
\<close>

locale session_backend =
  fixes inv :: "'s \<Rightarrow> u64 list \<Rightarrow> bool"
    and at :: "'s \<Rightarrow> u64 list \<Rightarrow> nat \<Rightarrow> bool"
    and limit :: nat
    and add_server :: "sessionRequest_t \<Rightarrow> 's \<Rightarrow> (u32 \<times> 's) option"
    and get_server :: "u64 \<Rightarrow> sessionResponse_t \<Rightarrow> 's \<Rightarrow> (u32 \<times> sessionResponse_t \<times> 's) option"
    and del_server :: "u64 \<Rightarrow> sessionResponse_t \<Rightarrow> 's \<Rightarrow> (u32 \<times> sessionResponse_t \<times> 's) option"
    and closed_server ::
      "statisticsRequestArgs_t \<Rightarrow> sessionResponse_t list \<Rightarrow> 's \<Rightarrow> (nat \<times> sessionResponse_t list \<times> 's) option"
    and all_server ::
      "int \<Rightarrow> u64 \<Rightarrow> int \<Rightarrow> sessionResponse_t list \<Rightarrow> 's \<Rightarrow> (nat \<times> u64 \<times> sessionResponse_t list \<times> 's) option"
  assumes inv_distinct: "inv s ids \<Longrightarrow> distinct ids"
    and at_inv: "at s ids pos \<Longrightarrow> inv s ids"
    and add_law: "inv s ids \<Longrightarrow>
      \<exists>s'. add_server p s = Some (status_code (admit_status limit ids (sessId p)), s') \<and>
        inv s' (if admit_status limit ids (sessId p) = OK then ids @ [sessId p] else ids)"
    and get_law: "inv s ids \<Longrightarrow>
      if k \<in> set ids then \<exists>r. get_server k c s = Some (status_code OK, r, s) \<and> rsp_sessionId r = k
      else get_server k c s = Some (status_code NOT_FOUND, c, s)"
    and del_law: "inv s ids \<Longrightarrow>
      if k \<in> set ids
      then \<exists>r s'. del_server k c s = Some (status_code OK, r, s') \<and> rsp_sessionId r = k \<and> inv s' (removeAll k ids)
      else del_server k c s = Some (status_code NOT_FOUND, c, s)"
    and closed_law: "inv s ids \<Longrightarrow> 0 < sint (stat_pageSize q) \<Longrightarrow> sint (stat_pageSize q) \<le> int (length cs) \<Longrightarrow>
      \<exists>n cs' s'. closed_server q cs s = Some (n, cs', s') \<and> n \<le> nat (sint (stat_pageSize q)) \<and>
        length cs' = length cs \<and> distinct (map rsp_sessionId (take n cs')) \<and>
        set (map rsp_sessionId (take n cs')) \<subseteq> set ids \<and>
        inv s' (filter (\<lambda>k. k \<notin> set (map rsp_sessionId (take n cs'))) ids)"
    and all_law: "at s ids pos \<Longrightarrow> 0 < psize \<Longrightarrow> psize \<le> int (length cs) \<Longrightarrow>
      page = take (nat psize) (drop (if key = UINT_MAX then 0 else pos) ids) \<Longrightarrow>
      \<exists>cs' s'. all_server psize key pc cs s = Some (length page, last (key # page), cs', s') \<and>
        length cs' = length cs \<and> map rsp_sessionId (take (length page) cs') = page \<and>
        at s' ids ((if key = UINT_MAX then 0 else pos) + length page)"
    and restart_law: "inv s ids \<Longrightarrow>
      \<exists>s0. at s0 ids 0 \<and> (\<forall>psize pc cs. all_server psize UINT_MAX pc cs s = all_server psize UINT_MAX pc cs s0)"
    and del_at_law: "at s ids pos \<Longrightarrow> k \<in> set (take pos ids) \<Longrightarrow> del_server k c s = Some (st, r, s') \<Longrightarrow>
      at s' (removeAll k ids) (pos - 1)"
begin

text \<open>The requests before the first cancellation are applied one after the other.\<close>

lemma addSession_loop_prefix:
  assumes "inv s ids" and "\<forall>m\<in>set ms. wf_message m" and "\<forall>j<length ms. \<not> cancelled (i + j)"
  shows "\<exists>c' s'. addSession_loop add_server cancelled i (ms @ ms') c response s =
      addSession_loop add_server cancelled (i + length ms) ms' c'
        (response\<lparr>pb_responseError := pb_responseError response @ rejects limit ids (map pb_sessionId ms)\<rparr>) s' \<and>
    inv s' (admit limit ids (map pb_sessionId ms))"
  using assms
proof (induction ms arbitrary: s ids i c response)
  case Nil
  then show ?case by auto
next
  case (Cons m ms)
  obtain c1 where c1: "convertSessionRequest2c m c = Some c1" "sessId c1 = pb_sessionId m"
    using convert_wf Cons.prems(2) by fastforce
  have nc: "\<not> cancelled i" using Cons.prems(3) by force
  let ?st = "admit_status limit ids (pb_sessionId m)"
  let ?ids = "if ?st = OK then ids @ [pb_sessionId m] else ids"
  let ?resp = "if ?st = OK then response
    else response\<lparr>pb_responseError := pb_responseError response @
      [\<lparr>pbe_sessionId = pb_sessionId m, pbe_errorStatus = status_code ?st\<rparr>]\<rparr>"
  obtain s1 where s1: "add_server c1 s = Some (status_code ?st, s1)" and inv1: "inv s1 ?ids"
    using add_law [OF Cons.prems(1), of c1] unfolding c1(2) by blast
  have nc': "\<forall>j<length ms. \<not> cancelled (Suc i + j)"
    using Cons.prems(3) by (metis Suc_less_eq add_Suc_shift length_Cons)
  have step: "addSession_loop add_server cancelled i ((m # ms) @ ms') c response s =
      addSession_loop add_server cancelled (Suc i) (ms @ ms') c1 ?resp s1"
    using c1 nc s1 by (simp del: status_code.simps)
  obtain c' s' where r: "addSession_loop add_server cancelled (Suc i) (ms @ ms') c1 ?resp s1 =
      addSession_loop add_server cancelled (Suc i + length ms) ms' c'
        (?resp\<lparr>pb_responseError := pb_responseError ?resp @ rejects limit ?ids (map pb_sessionId ms)\<rparr>) s'"
    and inv': "inv s' (admit limit ?ids (map pb_sessionId ms))"
    using Cons.IH [OF inv1 _ nc', of c1 ?resp] Cons.prems(2) by auto
  have eq: "?resp\<lparr>pb_responseError := pb_responseError ?resp @ rejects limit ?ids (map pb_sessionId ms)\<rparr> =
      response\<lparr>pb_responseError := pb_responseError response @ rejects limit ids (map pb_sessionId (m # ms))\<rparr>"
    by simp
  show ?case
    unfolding step r eq using inv' by (intro exI [of _ c'] exI [of _ s']) simp
qed

lemma addSession_all:
  assumes "inv s ids" and "\<forall>m\<in>set ms. wf_message m" and "\<forall>j<length ms. \<not> cancelled j"
  shows "\<exists>s'. addSession add_server cancelled c ms response s =
      Some (Status_OK, response\<lparr>pb_responseError := rejects limit ids (map pb_sessionId ms)\<rparr>, s') \<and>
    inv s' (admit limit ids (map pb_sessionId ms))"
  using addSession_loop_prefix [of s ids ms cancelled 0 "[]" c "response\<lparr>pb_responseError := []\<rparr>"] assms
  by (auto simp: addSession_def)

lemma addSession_cancelled:
  assumes "inv s ids" and "\<forall>m\<in>set (ms @ [m]). wf_message m" and "\<forall>j<length ms. \<not> cancelled j"
    and "cancelled (length ms)"
  shows "\<exists>s'. addSession add_server cancelled c (ms @ m # ms') response s =
      Some (Status_cancelled, response\<lparr>pb_responseError := rejects limit ids (map pb_sessionId ms)\<rparr>, s') \<and>
    inv s' (admit limit ids (map pb_sessionId ms))"
proof -
  obtain c' s' where r: "addSession_loop add_server cancelled 0 (ms @ m # ms') c (response\<lparr>pb_responseError := []\<rparr>) s =
      addSession_loop add_server cancelled (length ms) (m # ms') c'
        (response\<lparr>pb_responseError := rejects limit ids (map pb_sessionId ms)\<rparr>) s'"
    and inv': "inv s' (admit limit ids (map pb_sessionId ms))"
    using addSession_loop_prefix [of s ids ms cancelled 0 "m # ms'" c "response\<lparr>pb_responseError := []\<rparr>"] assms
    by auto
  obtain c1 where "convertSessionRequest2c m c' = Some c1" using convert_wf assms(2) by fastforce
  then show ?thesis using r inv' assms(4) by (auto simp: addSession_def)
qed

lemma getSession_ok:
  assumes "inv s ids"
  shows "if k \<in> set ids
    then \<exists>m. getSession get_server False c k response s = Some (Status_OK, m, s) \<and> pbr_sessionId m = k
    else getSession get_server False c k response s =
      Some (\<lparr>error_code = NOT_FOUND, error_message = ''Get Session Not Found''\<rparr>, response, s)"
  using get_law [OF assms, of k c]
  by (auto simp: getSession_def convertSessionResponse2cpp_def)

lemma deleteSession_ok:
  assumes "inv s ids"
  shows "if k \<in> set ids
    then \<exists>m s'. deleteSession del_server False c k response s = Some (Status_OK, m, s') \<and>
      pbr_sessionId m = k \<and> inv s' (removeAll k ids)
    else deleteSession del_server False c k response s =
      Some (\<lparr>error_code = NOT_FOUND, error_message = ''Delete Session Not Found''\<rparr>, response, s)"
  using del_law [OF assms, of k c]
  by (auto simp: deleteSession_def convertSessionResponse2cpp_def)

lemma getClosedSessions_ok:
  assumes inv: "inv s ids" and size: "0 < sint (pb_pageSize q)" "sint (pb_pageSize q) \<le> int BUFFER_MAX"
  shows "\<exists>st ms s'. getClosedSessions closed_server False uninit page q s = Some (st, ms, s') \<and>
    error_code st = (if ms = [] then NOT_FOUND else OK) \<and> length ms \<le> nat (sint (pb_pageSize q)) \<and>
    distinct (map pbr_sessionId ms) \<and> set (map pbr_sessionId ms) \<subseteq> set ids \<and>
    inv s' (filter (\<lambda>k. k \<notin> set (map pbr_sessionId ms)) ids)"
proof -
  let ?q = "\<lparr>stat_pageSize = pb_pageSize q, stat_page = page\<rparr>" and ?cs = "map uninit [0..<BUFFER_MAX]"
  obtain n cs' s' where r: "closed_server ?q ?cs s = Some (n, cs', s')" and n: "n \<le> nat (sint (pb_pageSize q))"
    and len: "length cs' = BUFFER_MAX"
    and ids: "distinct (map rsp_sessionId (take n cs'))" "set (map rsp_sessionId (take n cs')) \<subseteq> set ids"
    and inv': "inv s' (filter (\<lambda>k. k \<notin> set (map rsp_sessionId (take n cs'))) ids)"
    using closed_law [OF inv, of ?q ?cs] size by auto
  have nb: "n \<le> length cs'" using n len size(2) by simp
  let ?ms = "map (\<lambda>c. closed_message c default_sessionResponse) (take n cs')"
  have w: "write_closed cs' [0..<n] default_sessionResponse = Some ?ms"
    using write_closed_ok [of "[0..<n]" cs' default_sessionResponse] nb
      map_nth_take [OF nb, of "\<lambda>c. closed_message c default_sessionResponse"] by simp
  have map_ids: "map pbr_sessionId ?ms = map rsp_sessionId (take n cs')" by simp
  show ?thesis
  proof (cases "n = 0")
    case True
    then show ?thesis using r inv' by (auto simp: getClosedSessions_def)
  next
    case False
    then have ne: "?ms \<noteq> []" using nb by auto
    have "getClosedSessions closed_server False uninit page q s = Some (Status_OK, ?ms, s')"
      using r w False by (simp add: getClosedSessions_def)
    then show ?thesis
      using ne n nb ids inv' unfolding map_ids [symmetric]
      by (intro exI [of _ Status_OK] exI [of _ ?ms] exI [of _ s']) (auto simp: Status_OK_def)
  qed
qed

lemma getAllSessions_ok:
  fixes q :: pb_sessionRequestArgs
  assumes at: "at s ids k"
  defines "j \<equiv> (if pb_startSession q = UINT_MAX then 0 else k)"
  defines "page \<equiv> take BUFFER_MAX (drop j ids)"
  shows "\<exists>infos s'. getAllSessions all_server False uninit q m s =
      Some (Status_OK, m\<lparr>pb_nextkey := last (pb_startSession q # page), pb_sessionInfo := pb_sessionInfo m @ infos\<rparr>, s') \<and>
    map pbr_sessionId infos = page \<and> at s' ids (j + length page)"
proof -
  let ?cs = "map uninit [0..<BUFFER_MAX]"
  have p: "page = take (nat (int BUFFER_MAX)) (drop j ids)" by (simp add: page_def)
  obtain cs' s' where r: "all_server (int BUFFER_MAX) (pb_startSession q) 0 ?cs s =
      Some (length page, last (pb_startSession q # page), cs', s')"
    and len: "length cs' = BUFFER_MAX" and ids: "map rsp_sessionId (take (length page) cs') = page"
    and at': "at s' ids (j + length page)"
    using all_law [OF at, of "int BUFFER_MAX" ?cs page "pb_startSession q" 0] p unfolding j_def
    by (auto simp: BUFFER_MAX_def)
  have nb: "length page \<le> length cs'" using len by (simp add: page_def)
  let ?infos = "map sessionInfo_of (take (length page) cs')"
  have "add_sessionInfos cs' [0..<length page] (m\<lparr>pb_nextkey := last (pb_startSession q # page)\<rparr>) =
      Some (m\<lparr>pb_nextkey := last (pb_startSession q # page), pb_sessionInfo := pb_sessionInfo m @ ?infos\<rparr>)"
    using add_sessionInfos_ok [of "[0..<length page]" cs'] nb map_nth_take [OF nb, of sessionInfo_of] by simp
  then have "getAllSessions all_server False uninit q m s =
      Some (Status_OK, m\<lparr>pb_nextkey := last (pb_startSession q # page), pb_sessionInfo := pb_sessionInfo m @ ?infos\<rparr>, s')"
    using r by (simp add: getAllSessions_def)
  moreover have "map pbr_sessionId ?infos = page" using ids by (simp add: comp_def)
  ultimately show ?thesis using at' by blast
qed

end

text \<open>
  The listing from the beginning, wherever it stood: the answer is the first page.
\<close>

context session_backend
begin

lemma getAllSessions_restart:
  fixes q :: pb_sessionRequestArgs
  assumes inv: "inv s ids" and q: "pb_startSession q = UINT_MAX"
  shows "\<exists>infos s'. getAllSessions all_server False uninit q m s =
      Some (Status_OK, m\<lparr>pb_nextkey := last (UINT_MAX # take BUFFER_MAX ids), pb_sessionInfo := pb_sessionInfo m @ infos\<rparr>, s') \<and>
    map pbr_sessionId infos = take BUFFER_MAX ids \<and> at s' ids (length (take BUFFER_MAX ids))"
proof -
  obtain s0 where at: "at s0 ids 0"
    and eq: "\<And>psize pc cs. all_server psize UINT_MAX pc cs s = all_server psize UINT_MAX pc cs s0"
    using restart_law [OF inv] by blast
  have "getAllSessions all_server False uninit q m s = getAllSessions all_server False uninit q m s0"
    by (simp add: getAllSessions_def q eq)
  then show ?thesis using getAllSessions_ok [OF at, of uninit q m] q by simp
qed

end

text \<open>
  A device all of whose sessions are closed, and which reports as many as the page size allows,
  in its order.
\<close>

locale eager_backend = session_backend +
  assumes eager_law: "inv s ids \<Longrightarrow> 0 < sint (stat_pageSize q) \<Longrightarrow> sint (stat_pageSize q) \<le> int (length cs) \<Longrightarrow>
    closed_server q cs s = Some (n, cs', s') \<Longrightarrow>
    map rsp_sessionId (take n cs') = take (nat (sint (stat_pageSize q))) ids"
begin

lemma getClosedSessions_eager:
  assumes inv: "inv s ids" and size: "0 < sint (pb_pageSize q)" "sint (pb_pageSize q) \<le> int BUFFER_MAX"
  shows "\<exists>st ms s'. getClosedSessions closed_server False uninit page q s = Some (st, ms, s') \<and>
    error_code st = (if ids = [] then NOT_FOUND else OK) \<and>
    map pbr_sessionId ms = take (nat (sint (pb_pageSize q))) ids \<and>
    inv s' (drop (nat (sint (pb_pageSize q))) ids)"
proof -
  let ?q = "\<lparr>stat_pageSize = pb_pageSize q, stat_page = page\<rparr>" and ?cs = "map uninit [0..<BUFFER_MAX]"
    and ?p = "nat (sint (pb_pageSize q))"
  obtain n cs' s' where r: "closed_server ?q ?cs s = Some (n, cs', s')" and len: "length cs' = BUFFER_MAX"
    and np: "n \<le> ?p" and inv': "inv s' (filter (\<lambda>k. k \<notin> set (map rsp_sessionId (take n cs'))) ids)"
    using closed_law [OF inv, of ?q ?cs] size by auto
  have ids: "map rsp_sessionId (take n cs') = take ?p ids"
    using eager_law [OF inv _ _ r] size by simp
  have d: "distinct (take ?p ids @ drop ?p ids)" using inv_distinct [OF inv] by simp
  have "filter (\<lambda>k. k \<notin> set (take ?p ids)) (take ?p ids @ drop ?p ids) = drop ?p ids"
    using d by (subst filter_append) (auto simp: filter_empty_conv filter_id_conv simp del: append_take_drop_id)
  then have inv'': "inv s' (drop ?p ids)" using inv' unfolding ids by simp
  have nb: "n \<le> length cs'" using np len size(2) by simp
  have n: "n = length (take ?p ids)" using arg_cong [OF ids, of length] nb by simp
  let ?ms = "map (\<lambda>c. closed_message c default_sessionResponse) (take n cs')"
  have w: "write_closed cs' [0..<n] default_sessionResponse = Some ?ms"
    using write_closed_ok [of "[0..<n]" cs' default_sessionResponse] nb
      map_nth_take [OF nb, of "\<lambda>c. closed_message c default_sessionResponse"] by simp
  have ms: "map pbr_sessionId ?ms = take ?p ids" using ids by (simp add: comp_def)
  have n0: "n = 0 \<longleftrightarrow> ids = []" using n size(1) by (auto simp: min_def split: if_splits)
  show ?thesis
  proof (cases "n = 0")
    case True
    then show ?thesis using r inv'' n0 by (auto simp: getClosedSessions_def)
  next
    case False
    then have "getClosedSessions closed_server False uninit page q s = Some (Status_OK, ?ms, s')"
      using r w by (simp add: getClosedSessions_def)
    then show ?thesis using False n0 ms inv'' by (auto simp: Status_OK_def)
  qed
qed

end

end
