(* ===== verification/Server_Backend.thy ===== *)
theory Server_Backend
  imports Server_Theorems Session_Backend
begin

text \<open>
  The test server keeps the contract of an offload device, so the handlers of the gRPC service
  over the session store have the properties proved for every such device.
\<close>

subsection \<open>The session store as an offload device\<close>

text \<open>
  The store holds the sessions \<open>ids\<close>; every session of it is closed, from its creation on.
\<close>

definition holds_ids :: "server \<Rightarrow> u64 list \<Rightarrow> bool" where
  "holds_ids s ids \<longleftrightarrow> (\<exists>T. server_inv s T \<and> map key T = ids \<and> (\<forall>r\<in>set T. is_closed r))"

definition holds_at :: "server \<Rightarrow> u64 list \<Rightarrow> nat \<Rightarrow> bool" where
  "holds_at s ids k \<longleftrightarrow> (\<exists>T. server_at s T k \<and> map key T = ids \<and> (\<forall>r\<in>set T. is_closed r))"

lemma holds_idsE:
  assumes "holds_ids s ids"
  obtains T as where "store_rel s as T" and "map key T = ids" and "\<forall>r\<in>set T. is_closed r"
  using assms unfolding holds_ids_def server_inv_def by blast

lemma holds_idsI:
  "store_rel s as T \<Longrightarrow> map key T = ids \<Longrightarrow> \<forall>r\<in>set T. is_closed r \<Longrightarrow> holds_ids s ids"
  unfolding holds_ids_def server_inv_def by blast

lemma new_session_closed [simp]: "is_closed (new_session p st)" "key (new_session p st) = sessId p"
  by (simp_all add: new_session_def split: prod.split)

lemma admit_status_spec:
  "admit_status HASHTABLE_SIZE (map key T) (sessId p) = fst (spec_add p (T, g))"
  by (simp add: admit_status_def spec_add_def)

lemma holds_ids_add:
  assumes "holds_ids s ids"
  shows "\<exists>s'. opof_add_session_server p s =
      Some (status_code (admit_status HASHTABLE_SIZE ids (sessId p)), s') \<and>
    holds_ids s' (if admit_status HASHTABLE_SIZE ids (sessId p) = OK then ids @ [sessId p] else ids)"
proof -
  obtain T as where rel: "store_rel s as T" and ids: "map key T = ids" and cl: "\<forall>r\<in>set T. is_closed r"
    using assms by (rule holds_idsE)
  have st: "admit_status HASHTABLE_SIZE ids (sessId p) = fst (spec_add p (T, gen s))"
    using admit_status_spec ids by metis
  obtain s' as' where s': "opof_add_session_server p s = Some (status_code (fst (spec_add p (T, gen s))), s')"
    and rel': "store_rel s' as' (fst (snd (spec_add p (T, gen s))))"
    using add_session_refines [OF rel, of p] by blast
  have T': "map key (fst (snd (spec_add p (T, gen s)))) =
      (if fst (spec_add p (T, gen s)) = OK then ids @ [sessId p] else ids)"
    "\<forall>r\<in>set (fst (snd (spec_add p (T, gen s)))). is_closed r"
    using ids cl by (auto simp: spec_add_def)
  show ?thesis using s' holds_idsI [OF rel' T'] unfolding st by blast
qed

lemma holds_ids_get:
  assumes "holds_ids s ids"
  shows "if k \<in> set ids
    then \<exists>r. opof_get_session_server k c s = Some (status_code OK, r, s) \<and> rsp_sessionId r = k
    else opof_get_session_server k c s = Some (status_code NOT_FOUND, c, s)"
proof -
  obtain T as where rel: "store_rel s as T" and ids: "map key T = ids"
    using assms by (rule holds_idsE)
  have mem: "k \<in> set ids \<longleftrightarrow> find (\<lambda>r. key r = k) T \<noteq> None"
    using ids find_key_None [of k T] by auto
  show ?thesis
    using get_session_refines [OF rel, of k c] mem
    by (cases "find (\<lambda>r. key r = k) T") (auto simp: got_response_def dest: find_SomeD)
qed

lemma holds_ids_del:
  assumes "holds_ids s ids"
  shows "if k \<in> set ids
    then \<exists>r s'. opof_del_session_server k c s = Some (status_code OK, r, s') \<and> rsp_sessionId r = k \<and>
      holds_ids s' (removeAll k ids)
    else opof_del_session_server k c s = Some (status_code NOT_FOUND, c, s)"
proof -
  obtain T as where rel: "store_rel s as T" and ids: "map key T = ids" and cl: "\<forall>r\<in>set T. is_closed r"
    using assms by (rule holds_idsE)
  have mem: "k \<in> set ids \<longleftrightarrow> find (\<lambda>r. key r = k) T \<noteq> None"
    using ids find_key_None [of k T] by auto
  have rem: "map key (filter (\<lambda>r. key r \<noteq> k) T) = removeAll k ids"
    using ids by (auto simp: removeAll_filter_not_eq filter_map comp_def eq_commute)
  show ?thesis
  proof (cases "find (\<lambda>r. key r = k) T")
    case None
    then show ?thesis using del_session_refines [OF rel, of k c] mem by simp
  next
    case (Some r)
    obtain s' a where "opof_del_session_server k c s =
        Some (status_code OK, (got_response r)\<lparr>rsp_sessionState := state_code CLOSED\<rparr>, s')"
      and "store_rel s' (remove1 a as) (filter (\<lambda>r. key r \<noteq> k) T)"
      using del_session_refines [OF rel, of k c] Some by auto
    moreover have "rsp_sessionId ((got_response r)\<lparr>rsp_sessionState := state_code CLOSED\<rparr>) = k"
      using find_SomeD [OF Some] by (simp add: got_response_def)
    ultimately show ?thesis using mem Some rem cl by (auto intro!: holds_idsI)
  qed
qed

lemma reported_subset: "set (reported n T) \<subseteq> set T"
  by (auto simp: reported_def dest: in_set_takeD)

lemma reported_distinct: "distinct (map key T) \<Longrightarrow> distinct (map key (reported n T))"
  by (simp add: reported_def distinct_map_filter flip: take_map)

lemma filter_keys:
  assumes "distinct (map key T)" and "set R \<subseteq> set T"
  shows "map key (filter (\<lambda>r. r \<notin> set R) T) = filter (\<lambda>k. k \<notin> set (map key R)) (map key T)"
proof -
  have "r \<notin> set R \<longleftrightarrow> key r \<notin> set (map key R)" if "r \<in> set T" for r
    using assms that by (auto simp: distinct_map inj_on_def)
  then show ?thesis by (simp add: filter_map comp_def cong: filter_cong)
qed

lemma holds_ids_closed:
  assumes "holds_ids s ids" and size: "0 < sint (stat_pageSize q)" "sint (stat_pageSize q) \<le> int (length cs)"
  shows "\<exists>n cs' s'. opof_get_closed_sessions_server q cs s = Some (n, cs', s') \<and>
    n \<le> nat (sint (stat_pageSize q)) \<and> length cs' = length cs \<and>
    distinct (map rsp_sessionId (take n cs')) \<and> set (map rsp_sessionId (take n cs')) \<subseteq> set ids \<and>
    holds_ids s' (filter (\<lambda>k. k \<notin> set (map rsp_sessionId (take n cs'))) ids)"
proof -
  obtain T as where rel: "store_rel s as T" and ids: "map key T = ids" and cl: "\<forall>r\<in>set T. is_closed r"
    using assms(1) by (rule holds_idsE)
  let ?R = "reported (sint (stat_pageSize q)) T" and ?cs = "overwrite cs 0 (listing (gen s) (reported (sint (stat_pageSize q)) T))"
  have n: "length ?R \<le> nat (sint (stat_pageSize q))" using size(1) by (simp add: reported_def)
  then have room: "length ?R \<le> length cs" using size by linarith
  obtain s' as' where r: "opof_get_closed_sessions_server q cs s = Some (length ?R, ?cs, s')"
    and rel': "store_rel s' as' (filter (\<lambda>r. r \<notin> set ?R) T)"
    using get_closed_refines [OF rel, of q cs] room by auto
  have take: "map rsp_sessionId (take (length ?R) ?cs) = map key ?R"
    by (simp add: overwrite_def listing_ids)
  have keys: "distinct (map key T)" using store_rel_keys [OF rel] .
  have "set (map key ?R) \<subseteq> set ids" using ids reported_subset by fastforce
  moreover have "holds_ids s' (filter (\<lambda>k. k \<notin> set (map key ?R)) ids)"
    by (rule holds_idsI [OF rel']) (use filter_keys [OF keys reported_subset] ids cl in auto)
  ultimately show ?thesis
    using r n room reported_distinct [OF keys] take by (intro exI [of _ "length ?R"] exI [of _ ?cs] exI [of _ s']) auto
qed

lemma take_length_take: "take (length (take n xs)) xs = take n xs"
  by (cases "n \<le> length xs") auto

lemma holds_at_all:
  assumes "holds_at s ids pos" and size: "0 < psize" "psize \<le> int (length cs)"
    and page: "page = take (nat psize) (drop (if k = UINT_MAX then 0 else pos) ids)"
  shows "\<exists>cs' s'. opof_get_all_sessions_server psize k pc cs s = Some (length page, last (k # page), cs', s') \<and>
    length cs' = length cs \<and> map rsp_sessionId (take (length page) cs') = page \<and>
    holds_at s' ids ((if k = UINT_MAX then 0 else pos) + length page)"
proof -
  obtain T where at: "server_at s T pos" and ids: "map key T = ids" and cl: "\<forall>r\<in>set T. is_closed r"
    using assms(1) by (auto simp: holds_at_def)
  let ?j = "if k = UINT_MAX then 0 else pos"
  let ?page = "take (nat psize) (drop ?j T)"
  have keys: "map key ?page = page" unfolding page ids [symmetric] by (simp add: take_map drop_map)
  have len: "length ?page = length page" using arg_cong [OF keys, of length] by simp
  have pl: "page_len psize 0 (length T - ?j) = length page"
    using size(1) len by (simp add: page_len_def)
  have tk: "take (length page) (drop ?j T) = ?page"
    unfolding len [symmetric] by (rule take_length_take)
  have room: "length page \<le> length cs" using size len by simp
  obtain s' where r: "opof_get_all_sessions_server psize k pc cs s =
      Some (length page, last (k # page), overwrite cs 0 (listing (gen s) ?page), s')"
    and at': "server_at s' T (?j + length page)"
    using page_step [OF at, of psize k cs pc] room unfolding pl tk keys by blast
  have "map rsp_sessionId (take (length page) (overwrite cs 0 (listing (gen s) ?page))) = page"
    using len keys by (simp add: overwrite_def listing_ids)
  moreover have "length (overwrite cs 0 (listing (gen s) ?page)) = length cs"
    using room len by (intro length_overwrite) simp
  ultimately show ?thesis using r at' ids cl unfolding holds_at_def by blast
qed

lemma holds_ids_restart:
  assumes "holds_ids s ids"
  shows "\<exists>s0. holds_at s0 ids 0 \<and> (\<forall>psize pc cs. opof_get_all_sessions_server psize UINT_MAX pc cs s =
    opof_get_all_sessions_server psize UINT_MAX pc cs s0)"
proof -
  obtain T as where rel: "store_rel s as T" and ids: "map key T = ids" and cl: "\<forall>r\<in>set T. is_closed r"
    using assms by (rule holds_idsE)
  let ?s0 = "s\<lparr>start := head (ut s)\<rparr>"
  have "head (ut s) = hd_ptr as"
    using rel ut_inv_head [of "ut s" as] by (simp add: store_rel_def hd_ptr_def)
  then have "server_at ?s0 T 0" unfolding server_at_def cursor_at_def using rel by (intro exI [of _ as]) simp
  then have "holds_at ?s0 ids 0" using ids cl unfolding holds_at_def by blast
  then show ?thesis
    by (intro exI [of _ ?s0]) (simp add: opof_get_all_sessions_server_def getAllSessionsPage_def)
qed

lemma drop_remove1:
  assumes "distinct xs" and "x \<in> set (take n xs)"
  shows "drop (n - 1) (remove1 x xs) = drop n xs"
proof -
  have d: "distinct (take n xs @ drop n xs)" using assms(1) by simp
  have "remove1 x (take n xs @ drop n xs) = remove1 x (take n xs) @ drop n xs"
    using assms(2) by (subst remove1_append) simp
  moreover have "length (remove1 x (take n xs)) \<le> n - 1"
    using assms(2) by (simp add: length_remove1)
  moreover have "n - 1 - length (remove1 x (take n xs)) = 0 \<or> drop n xs = []"
    using assms(2) by (auto simp: length_remove1)
  ultimately show ?thesis by auto
qed

lemma holds_at_del:
  assumes "holds_at s ids pos" and k: "k \<in> set (take pos ids)"
    and del: "opof_del_session_server k c s = Some (st, r, s')"
  shows "holds_at s' (removeAll k ids) (pos - 1)"
proof -
  obtain T as where rel: "store_rel s as T" and cur: "cursor_at s as pos" and ids: "map key T = ids"
    and cl: "\<forall>r\<in>set T. is_closed r"
    using assms(1) by (auto simp: holds_at_def server_at_def)
  have L: "list_all2 (holds (records s)) as T" and inv: "ut_inv (ut s) as" using rel by (simp_all add: store_rel_def)
  have len: "length as = length T" using list_all2_lengthD [OF L] .
  have "find (\<lambda>r. key r = k) T \<noteq> None" using k ids by (auto simp: find_key_None dest: in_set_takeD)
  then obtain a where a: "a \<in> set as" "key_at (records s) a = Some k" "start s' = start s"
    and rel': "store_rel s' (remove1 a as) (filter (\<lambda>r. key r \<noteq> k) T)"
    using del_session_refines [OF rel, of k c] del by (auto split: option.splits)
  obtain i where i: "i < pos" "i < length T" "key (T ! i) = k"
    using k unfolding ids [symmetric] take_map by (auto simp: in_set_conv_nth)
  have "key_at (records s) (as ! i) = Some k"
    using holds_key list_all2_nthD2 [OF L i(2)] i(3) by blast
  then have "a = as ! i"
    using inv a(1,2) i(2) len nth_mem unfolding ut_inv_def inj_on_def by metis
  then have "a \<in> set (take pos as)" using i(1,2) len by (auto simp: in_set_conv_nth intro!: exI [of _ i])
  from drop_remove1 [OF _ this] have "cursor_at s' (remove1 a as) (pos - 1)"
    using cur a(3) store_rel_distinct [OF rel] by (simp add: cursor_at_def)
  then have "server_at s' (filter (\<lambda>r. key r \<noteq> k) T) (pos - 1)" using rel' by (auto simp: server_at_def)
  moreover have "map key (filter (\<lambda>r. key r \<noteq> k) T) = removeAll k ids"
    using ids by (auto simp: removeAll_filter_not_eq filter_map comp_def eq_commute)
  ultimately show ?thesis using cl unfolding holds_at_def by auto
qed

lemma holds_ids_eager:
  assumes "holds_ids s ids" and size: "0 < sint (stat_pageSize q)" "sint (stat_pageSize q) \<le> int (length cs)"
    and closed: "opof_get_closed_sessions_server q cs s = Some (n, cs', s')"
  shows "map rsp_sessionId (take n cs') = take (nat (sint (stat_pageSize q))) ids"
proof -
  obtain T as where rel: "store_rel s as T" and ids: "map key T = ids" and cl: "\<forall>r\<in>set T. is_closed r"
    using assms(1) by (rule holds_idsE)
  let ?R = "reported (sint (stat_pageSize q)) T"
  have R: "?R = take (nat (sint (stat_pageSize q))) T"
    using size(1) cl by (simp add: reported_def filter_id_conv)
  have "length ?R \<le> length cs" using size by (simp add: R)
  then have "n = length ?R" "cs' = overwrite cs 0 (listing (gen s) ?R)"
    using get_closed_refines [OF rel, of q cs] closed by auto
  then show ?thesis by (simp add: overwrite_def listing_ids R ids [symmetric] take_map)
qed

interpretation store: eager_backend holds_ids holds_at HASHTABLE_SIZE
  opof_add_session_server opof_get_session_server opof_del_session_server
  opof_get_closed_sessions_server opof_get_all_sessions_server
proof unfold_locales
  show "distinct ids" if "holds_ids s ids" for s ids
    using that server_inv_keys by (auto simp: holds_ids_def)
  show "holds_ids s ids" if "holds_at s ids pos" for s ids pos
    using that server_at_inv by (auto simp: holds_ids_def holds_at_def)
qed (fact holds_ids_add holds_ids_get holds_ids_del holds_ids_closed holds_at_all holds_ids_restart
  holds_at_del holds_ids_eager)+

subsection \<open>The service over the session store\<close>

text \<open>
  C11: \<open>addSession\<close> over the session store, when the call is not cancelled and
  every message converts: the response lists exactly the requests that were refused, in their
  order, each with its status, and the others have been added in their order; the call returns
  \<open>Status::OK\<close> in any case.
\<close>

theorem addSession_correct:
  assumes "holds_ids s ids" and "\<forall>m\<in>set ms. wf_message m" and "\<forall>j<length ms. \<not> cancelled j"
  shows "\<exists>s'. addSession opof_add_session_server cancelled c ms response s =
      Some (Status_OK, response\<lparr>pb_responseError := rejects HASHTABLE_SIZE ids (map pb_sessionId ms)\<rparr>, s') \<and>
    holds_ids s' (admit HASHTABLE_SIZE ids (map pb_sessionId ms))"
  using assms by (rule store.addSession_all)

text \<open>
  When the client cancels or the deadline passes, exactly the
  requests read before that have been applied; they are not rolled back, and the call returns
  \<open>CANCELLED\<close>.
\<close>

theorem addSession_cancelled_prefix:
  assumes "holds_ids s ids" and "\<forall>m\<in>set (ms @ [m]). wf_message m" and "\<forall>j<length ms. \<not> cancelled j"
    and "cancelled (length ms)"
  shows "\<exists>response' s'. addSession opof_add_session_server cancelled c (ms @ m # ms') response s =
      Some (Status_cancelled, response', s') \<and> holds_ids s' (admit HASHTABLE_SIZE ids (map pb_sessionId ms))"
  using store.addSession_cancelled [OF assms, of c ms' response] by blast

text \<open>
  C34: a request that says it is IPv6 but carries an address of less than 16
  bytes makes the conversion read past the end of the vector, whatever the device does. (The elements beyond
  the size of a vector must not be read, also where the memory behind them is still allocated.)
\<close>

theorem addSession_short_address:
  assumes "\<not> wf_message m" and "holds_ids s ids" and "\<forall>m\<in>set ms. wf_message m" and "\<forall>j<length ms. \<not> cancelled j"
  shows "addSession opof_add_session_server cancelled c (ms @ m # ms') response s = None"
proof -
  obtain c' s' response' where "addSession_loop opof_add_session_server cancelled 0 (ms @ m # ms') c
      (response\<lparr>pb_responseError := []\<rparr>) s =
    addSession_loop opof_add_session_server cancelled (length ms) (m # ms') c' response' s'"
    using store.addSession_loop_prefix [OF assms(2,3), of cancelled 0 "m # ms'"] assms(4) by fastforce
  then show ?thesis using convert_not_wf [OF assms(1)] by (simp add: addSession_def)
qed

text \<open>
  C36: the struct the requests of one stream are converted into is reused, and
  the store copies its IPv4 source and destination whatever the IP version is: an IPv6 session
  that follows an IPv4 session is stored with the addresses of that session.
\<close>

theorem addSession_stale_address:
  assumes inv: "server_inv s T" and room: "length T < HASHTABLE_SIZE"
    and new: "pb_sessionId m4 \<notin> key ` set T" "pb_sessionId m6 \<notin> key ` set T" "pb_sessionId m6 \<noteq> pb_sessionId m4"
    and v: "pb_ipVersion m4 = ipver_code IPV4" "pb_ipVersion m6 = ipver_code IPV6" "wf_message m6"
  shows "\<exists>response' s' T' r. addSession opof_add_session_server (\<lambda>_. False) c [m4, m6] response s =
      Some (Status_OK, response', s') \<and> server_inv s' T' \<and> r \<in> set T' \<and> key r = pb_sessionId m6 \<and>
      ipVersion r = ipver_code IPV6 \<and> sourceIp r = pb_sourceIp m4 \<and> dstIp r = pb_destinationIp m4"
proof -
  obtain as where rel: "store_rel s as T" using inv by (auto simp: server_inv_def)
  obtain c4 where c4: "convertSessionRequest2c m4 c = Some c4" "sessId c4 = pb_sessionId m4"
    "srcIP c4 = pb_sourceIp m4" "dstIP c4 = pb_destinationIp m4"
    using v(1) by (auto simp: convertSessionRequest2c_def Let_def)
  obtain c6 where c6: "convertSessionRequest2c m6 c4 = Some c6" "sessId c6 = pb_sessionId m6"
    "srcIP c6 = srcIP c4" "dstIP c6 = dstIP c4" "ipver c6 = ipver_code IPV6"
    using v(2,3) by (auto simp: convertSessionRequest2c_def Let_def wf_message_def copy_in6_def)
  let ?r4 = "new_session c4 (stats_of (gen s))"
  have k4: "key ?r4 = pb_sessionId m4" using c4(2) by (simp add: new_session_def split: prod.split)
  have "spec_add c4 (T, gen s) = (OK, T @ [?r4], advance 4 (gen s))"
    using room new(1) c4(2) by (simp add: spec_add_def)
  then obtain s1 as1 where s1: "opof_add_session_server c4 s = Some (status_code OK, s1)"
    and rel1: "store_rel s1 as1 (T @ [?r4])"
    using add_session_refines [OF rel, of c4] by auto
  let ?r6 = "new_session c6 (stats_of (gen s1))"
  have "spec_add c6 (T @ [?r4], gen s1) = (OK, (T @ [?r4]) @ [?r6], advance 4 (gen s1))"
    using room new(2,3) c6(2) k4 by (simp add: spec_add_def)
  then obtain s2 as2 where s2: "opof_add_session_server c6 s1 = Some (status_code OK, s2)"
    and rel2: "store_rel s2 as2 ((T @ [?r4]) @ [?r6])"
    using add_session_refines [OF rel1, of c6] by auto
  have "addSession opof_add_session_server (\<lambda>_. False) c [m4, m6] response s =
      Some (Status_OK, response\<lparr>pb_responseError := []\<rparr>, s2)"
    using c4(1) c6(1) s1 s2 by (simp add: addSession_def)
  moreover have "key ?r6 = pb_sessionId m6 \<and> ipVersion ?r6 = ipver_code IPV6 \<and>
      sourceIp ?r6 = pb_sourceIp m4 \<and> dstIp ?r6 = pb_destinationIp m4"
    using c4 c6 by (simp add: new_session_def split: prod.split)
  ultimately show ?thesis using rel2 unfolding server_inv_def by force
qed

text \<open>
  \<open>getSession\<close> and \<open>deleteSession\<close> answer for the requested id: the session when the
  server holds it, else \<open>NOT_FOUND\<close> with an empty response; deleting removes this id only.
\<close>

theorem get_delete_service:
  assumes "holds_ids s ids"
  shows "if k \<in> set ids
    then (\<exists>m. getSession opof_get_session_server False c k response s = Some (Status_OK, m, s) \<and> pbr_sessionId m = k) \<and>
      (\<exists>m s'. deleteSession opof_del_session_server False c k response s = Some (Status_OK, m, s') \<and>
        pbr_sessionId m = k \<and> holds_ids s' (removeAll k ids))
    else getSession opof_get_session_server False c k response s =
        Some (\<lparr>error_code = NOT_FOUND, error_message = ''Get Session Not Found''\<rparr>, response, s) \<and>
      deleteSession opof_del_session_server False c k response s =
        Some (\<lparr>error_code = NOT_FOUND, error_message = ''Delete Session Not Found''\<rparr>, response, s)"
  using store.getSession_ok [OF assms, of k c response] store.deleteSession_ok [OF assms, of k c response] by argo

text \<open>
  With a page size between 1 and \<open>BUFFER_MAX\<close>, \<open>getClosedSessions\<close> streams the
  first sessions of the server, as many as the page size allows, and removes exactly them; it
  returns \<open>NOT_FOUND\<close> exactly when there are none.
\<close>

theorem getClosedSessions_service:
  assumes "holds_ids s ids" and "0 < sint (pb_pageSize q)" and "sint (pb_pageSize q) \<le> int BUFFER_MAX"
  shows "\<exists>st ms s'. getClosedSessions opof_get_closed_sessions_server False uninit page q s = Some (st, ms, s') \<and>
    error_code st = (if ids = [] then NOT_FOUND else OK) \<and>
    map pbr_sessionId ms = take (nat (sint (pb_pageSize q))) ids \<and>
    holds_ids s' (drop (nat (sint (pb_pageSize q))) ids)"
  using assms by (rule store.getClosedSessions_eager)

text \<open>
  \<open>getAllSessions\<close> answers with the next \<open>BUFFER_MAX\<close> sessions after the cursor,
  or from the first one when the key is \<open>UINT_MAX\<close>, whatever page size the request asks for,
  and with the last id as the next key.
\<close>

theorem getAllSessions_service:
  fixes q :: pb_sessionRequestArgs
  assumes "holds_at s ids pos"
  defines "j \<equiv> (if pb_startSession q = UINT_MAX then 0 else pos)"
  defines "page \<equiv> take BUFFER_MAX (drop j ids)"
  shows "\<exists>infos s'. getAllSessions opof_get_all_sessions_server False uninit q default_sessionResponses s =
      Some (Status_OK, \<lparr>pb_sessionInfo = infos, pb_nextkey = last (pb_startSession q # page)\<rparr>, s') \<and>
    map pbr_sessionId infos = page \<and> holds_at s' ids (j + length page)"
  using store.getAllSessions_ok [OF assms(1), of uninit q default_sessionResponses]
  unfolding j_def [symmetric] page_def [symmetric] by (auto simp: default_sessionResponses_def)

subsection \<open>The properties on concrete servers\<close>

definition ex_message :: "u64 \<Rightarrow> pb_sessionRequest" where
  "ex_message k = default_sessionRequest\<lparr>pb_sessionId := k, pb_sourceIp := 0x0A000101\<rparr>"

definition ex_message6 :: "u64 \<Rightarrow> nat \<Rightarrow> pb_sessionRequest" where
  "ex_message6 k n = default_sessionRequest\<lparr>pb_sessionId := k, pb_ipVersion := ipver_code IPV6,
     pb_sourceIpV6 := replicate n 1, pb_destinationIpV6 := replicate n 2,
     pb_action := default_actionParameters\<lparr>pb_actionNextHopV6 := replicate n 3\<rparr>\<rparr>"

lemma ex_message_simps [simp]:
  "pb_sessionId (ex_message k) = k" "pb_ipVersion (ex_message k) = ipver_code IPV4" "wf_message (ex_message k)"
  "pb_sourceIp (ex_message k) = 0x0A000101"
  "pb_sessionId (ex_message6 k n) = k" "pb_ipVersion (ex_message6 k n) = ipver_code IPV6"
  "wf_message (ex_message6 k n) \<longleftrightarrow> 16 \<le> n"
  by (auto simp: ex_message_def ex_message6_def default_sessionRequest_def wf_message_def)

lemma ex_holds:
  obtains s where "run_all add_ok (map ex_request [1, 2, 3]) (server_init ex_rng) = Some s"
    and "holds_ids s [1, 2, 3]" and "holds_at s [1, 2, 3] 3"
proof -
  obtain s r1 r2 r3 where s: "run_all add_ok (map ex_request [1, 2, 3]) (server_init ex_rng) = Some s"
    and inv: "server_inv s [r1, r2, r3]" "server_at s [r1, r2, r3] 3" and k: "key r1 = 1" "key r2 = 2" "key r3 = 3"
    and cl: "is_closed r1" "is_closed r2" "is_closed r3"
    by (rule ex_three)
  have "holds_ids s [1, 2, 3]" "holds_at s [1, 2, 3] 3"
    using inv k cl unfolding holds_ids_def holds_at_def
    by (auto intro: exI [of _ "[r1, r2, r3]"])
  then show thesis using that s by blast
qed

lemma addSession_correct_witness:
  "\<exists>s response s'. run_all add_ok (map ex_request [1, 2, 3]) (server_init ex_rng) = Some s \<and>
     addSession opof_add_session_server (\<lambda>_. False) (ex_request 0) [ex_message 2, ex_message 4] default_addSessionResponse s =
       Some (Status_OK, response, s') \<and>
     pb_responseError response = [\<lparr>pbe_sessionId = 2, pbe_errorStatus = status_code ALREADY_EXISTS\<rparr>] \<and>
     holds_ids s' [1, 2, 3, 4]"
proof -
  obtain s where s: "run_all add_ok (map ex_request [1, 2, 3]) (server_init ex_rng) = Some s"
    and h: "holds_ids s [1, 2, 3]" by (rule ex_holds)
  show ?thesis
    using s addSession_correct [OF h, of "[ex_message 2, ex_message 4]" "\<lambda>_. False" "ex_request 0" default_addSessionResponse]
    by (auto simp: admit_status_def HASHTABLE_SIZE_def)
qed

lemma addSession_cancelled_prefix_witness:
  "\<exists>s response s'. run_all add_ok (map ex_request [1, 2, 3]) (server_init ex_rng) = Some s \<and>
     addSession opof_add_session_server (\<lambda>i. i = 1) (ex_request 0) [ex_message 4, ex_message 5] default_addSessionResponse s =
       Some (Status_cancelled, response, s') \<and> holds_ids s' [1, 2, 3, 4]"
proof -
  obtain s where s: "run_all add_ok (map ex_request [1, 2, 3]) (server_init ex_rng) = Some s"
    and h: "holds_ids s [1, 2, 3]" by (rule ex_holds)
  show ?thesis
    using s addSession_cancelled_prefix [OF h, of "[ex_message 4]" "ex_message 5" "\<lambda>i. i = 1" "ex_request 0" "[]" default_addSessionResponse]
    by (auto simp: admit_status_def HASHTABLE_SIZE_def)
qed

lemma addSession_short_address_witness:
  "\<exists>s. run_all add_ok (map ex_request [1, 2, 3]) (server_init ex_rng) = Some s \<and>
     addSession opof_add_session_server (\<lambda>_. False) (ex_request 0) [ex_message 4, ex_message6 5 4] default_addSessionResponse s = None"
proof -
  obtain s where s: "run_all add_ok (map ex_request [1, 2, 3]) (server_init ex_rng) = Some s"
    and h: "holds_ids s [1, 2, 3]" by (rule ex_holds)
  show ?thesis
    using s addSession_short_address [OF _ h, of "ex_message6 5 4" "[ex_message 4]" "\<lambda>_. False" "ex_request 0" "[]" default_addSessionResponse]
    by auto
qed

lemma addSession_stale_address_witness:
  "\<exists>s response s' T' r. run_all add_ok (map ex_request [1, 2, 3]) (server_init ex_rng) = Some s \<and>
     addSession opof_add_session_server (\<lambda>_. False) (ex_request 0) [ex_message 4, ex_message6 5 16] default_addSessionResponse s =
       Some (Status_OK, response, s') \<and>
     server_inv s' T' \<and> r \<in> set T' \<and> key r = 5 \<and> ipVersion r = ipver_code IPV6 \<and> sourceIp r = 0x0A000101"
proof -
  obtain s r1 r2 r3 where s: "run_all add_ok (map ex_request [1, 2, 3]) (server_init ex_rng) = Some s"
    and inv: "server_inv s [r1, r2, r3]" and k: "key r1 = 1" "key r2 = 2" "key r3 = 3"
    by (rule ex_three)
  have "length [r1, r2, r3] < HASHTABLE_SIZE" "pb_sessionId (ex_message 4) \<notin> key ` set [r1, r2, r3]"
    "pb_sessionId (ex_message6 5 16) \<notin> key ` set [r1, r2, r3]"
    "pb_sessionId (ex_message6 5 16) \<noteq> pb_sessionId (ex_message 4)"
    "pb_ipVersion (ex_message 4) = ipver_code IPV4" "pb_ipVersion (ex_message6 5 16) = ipver_code IPV6"
    "wf_message (ex_message6 5 16)"
    using k by (simp_all add: HASHTABLE_SIZE_def)
  from addSession_stale_address [OF inv this, of "ex_request 0" default_addSessionResponse] show ?thesis
    using s by (simp del: ipver_code.simps) blast
qed

lemma get_delete_service_witness:
  "\<exists>s m s'. run_all add_ok (map ex_request [1, 2, 3]) (server_init ex_rng) = Some s \<and>
     deleteSession opof_del_session_server False ex_rsp 2 default_sessionResponse s = Some (Status_OK, m, s') \<and>
     pbr_sessionId m = 2 \<and> holds_ids s' [1, 3]"
proof -
  obtain s where s: "run_all add_ok (map ex_request [1, 2, 3]) (server_init ex_rng) = Some s"
    and h: "holds_ids s [1, 2, 3]" by (rule ex_holds)
  show ?thesis using s get_delete_service [OF h, of 2 ex_rsp default_sessionResponse] by auto
qed

lemma getClosedSessions_service_witness:
  "\<exists>s st ms s'. run_all add_ok (map ex_request [1, 2, 3]) (server_init ex_rng) = Some s \<and>
     getClosedSessions opof_get_closed_sessions_server False (\<lambda>_. ex_rsp) 0
       \<lparr>pb_pageSize = 2, pb_page = 0, pb_startSession = 0\<rparr> s = Some (st, ms, s') \<and>
     map pbr_sessionId ms = [1, 2] \<and> holds_ids s' [3]"
proof -
  obtain s where s: "run_all add_ok (map ex_request [1, 2, 3]) (server_init ex_rng) = Some s"
    and h: "holds_ids s [1, 2, 3]" by (rule ex_holds)
  let ?q = "\<lparr>pb_pageSize = 2, pb_page = 0, pb_startSession = 0\<rparr>"
  have "0 < sint (pb_pageSize ?q)" "sint (pb_pageSize ?q) \<le> int BUFFER_MAX" by (simp_all add: BUFFER_MAX_def)
  from getClosedSessions_service [OF h this, of "\<lambda>_. ex_rsp" 0] show ?thesis using s by fastforce
qed

lemma getAllSessions_service_witness:
  "\<exists>s infos s'. run_all add_ok (map ex_request [1, 2, 3]) (server_init ex_rng) = Some s \<and>
     getAllSessions opof_get_all_sessions_server False (\<lambda>_. ex_rsp)
       \<lparr>pb_pageSize = 1, pb_page = 0, pb_startSession = UINT_MAX\<rparr> default_sessionResponses s =
       Some (Status_OK, \<lparr>pb_sessionInfo = infos, pb_nextkey = 3\<rparr>, s') \<and> map pbr_sessionId infos = [1, 2, 3]"
proof -
  obtain s where s: "run_all add_ok (map ex_request [1, 2, 3]) (server_init ex_rng) = Some s"
    and h: "holds_at s [1, 2, 3] 3" by (rule ex_holds)
  show ?thesis
    using s getAllSessions_service [OF h, where q = "\<lparr>pb_pageSize = 1, pb_page = 0, pb_startSession = UINT_MAX\<rparr>" and uninit = "\<lambda>_. ex_rsp"]
    by (auto simp: BUFFER_MAX_def)
qed

end
