(* ===== verification/Client_Library.thy ===== *)
theory Client_Library
  imports Session_Client Session_Backend
begin

text \<open>
  What the client library guarantees, call by call, when its stub is connected to the handlers
  of the service over a device that keeps the contract of \<open>Session_Backend\<close>.
\<close>

subsection \<open>The connection\<close>

text \<open>
  A call that ends before its deadline: the status and the response message of the handler; a
  response message is only sent with the status \<open>OK\<close>, the client's stays as it was otherwise.
\<close>

definition reply :: "'m \<Rightarrow> (Status \<times> 'm \<times> 's) option \<Rightarrow> (Status \<times> 'm \<times> 's) option" where
  "reply unset r = do {
     (status, m, s) \<leftarrow> r;
     Some (status, if error_code status = OK then m else unset, s) }"

text \<open>
  A connected stub performs each call by the handler, with some contents of the handler's
  variables, and without cancellation, as long as there is a device behind it.
\<close>

locale session_client = eager_backend +
  fixes connected :: "'a stub \<Rightarrow> bool"
  assumes add_call: "connected stub \<Longrightarrow> inv s ids \<Longrightarrow> \<exists>request_c. stub_addSession stub d ms s =
      reply default_addSessionResponse
        (addSession add_server (\<lambda>_. False) request_c ms default_addSessionResponse s)"
    and get_call: "connected stub \<Longrightarrow> inv s ids \<Longrightarrow> \<exists>c. stub_getSession stub d sid s =
      reply default_sessionResponse (getSession get_server False c sid default_sessionResponse s)"
    and del_call: "connected stub \<Longrightarrow> inv s ids \<Longrightarrow> \<exists>c. stub_deleteSession stub d sid s =
      reply default_sessionResponse (deleteSession del_server False c sid default_sessionResponse s)"
    and closed_call: "connected stub \<Longrightarrow> inv s ids \<Longrightarrow> \<exists>uninit page. stub_getClosedSessions stub d q s =
      getClosedSessions closed_server False uninit page q s"
    and all_call: "connected stub \<Longrightarrow> inv s ids \<Longrightarrow> \<exists>uninit. stub_getAllSessions stub d q s =
      reply default_sessionResponses
        (getAllSessions all_server False uninit q default_sessionResponses s)"

subsection \<open>Messages and arrays\<close>

text \<open>A struct whose message the server can convert.\<close>

definition sendable :: "sessionRequest_t \<Rightarrow> bool" where
  "sendable r \<longleftrightarrow> (ipver r = ipver_code IPV6 \<longrightarrow> wf_sessionRequest_t r)"

lemma sendable_message: "sendable r \<Longrightarrow> wf_message (convertSessionRequest2cpp r m)"
  by (auto simp: sendable_def wf_message_def wf_sessionRequest_t_def convertSessionRequest2cpp_def Let_def)

lemma message_id [simp]: "pb_sessionId (convertSessionRequest2cpp r m) = sessId r"
  by (simp add: convertSessionRequest2cpp_def Let_def)

lemma write_requests_ok:
  assumes "\<forall>i\<in>set is. i < length req \<and> sendable (req ! i)"
  shows "\<exists>ms. write_requests req is m = Some ms \<and> (\<forall>m\<in>set ms. wf_message m) \<and>
    map pb_sessionId ms = map (\<lambda>i. sessId (req ! i)) is"
  using assms
proof (induction "is" arbitrary: m)
  case (Cons i "is")
  obtain ms where "write_requests req is (convertSessionRequest2cpp (req ! i) m) = Some ms"
    "\<forall>m\<in>set ms. wf_message m" "map pb_sessionId ms = map (\<lambda>i. sessId (req ! i)) is"
    using Cons.IH [of "convertSessionRequest2cpp (req ! i) m"] Cons.prems by auto
  then show ?case using Cons.prems sendable_message by auto
qed simp

lemma response2c_id [simp]: "rsp_sessionId (convertSessionResponse2c m c) = pbr_sessionId m"
  by (simp add: convertSessionResponse2c_def)

lemma response2c_any: "convertSessionResponse2c m c = convertSessionResponse2c m c'"
  by (simp add: convertSessionResponse2c_def)

text \<open>The ids of the first \<open>n\<close> responses of an array.\<close>

definition first_ids :: "nat \<Rightarrow> sessionResponse_t list \<Rightarrow> u64 list" where
  "first_ids n responses = map rsp_sessionId (take n responses)"

lemma read_closed_ok:
  assumes "i + length ms \<le> length responses"
  shows "\<exists>responses'. read_closed ms i responses = Some (i + length ms, responses') \<and>
    length responses' = length responses \<and>
    first_ids (i + length ms) responses' = first_ids i responses @ map pbr_sessionId ms"
  using assms
proof (induction ms arbitrary: i responses)
  case (Cons m ms)
  let ?r = "responses[i := convertSessionResponse2c m (responses ! i)]"
  have i: "i < length responses" "Suc i + length ms \<le> length ?r" using Cons.prems by simp_all
  have "first_ids (Suc i) ?r = first_ids i responses @ [pbr_sessionId m]"
    using i(1) by (simp add: first_ids_def take_Suc_conv_app_nth)
  then show ?case using Cons.IH [OF i(2)] i(1) by auto
qed simp

lemma read_closed_overrun:
  "i \<le> length responses \<Longrightarrow> length responses < i + length ms \<Longrightarrow> read_closed ms i responses = None"
proof (induction ms arbitrary: i responses)
  case (Cons m ms)
  then show ?case by (cases "i < length responses") (auto simp: load_def)
qed simp

lemma read_infos_ok:
  assumes "i + n = length ms" and "length ms \<le> length responses"
  shows "\<exists>responses'. read_infos ms [i..<i + n] responses = Some responses' \<and>
    length responses' = length responses \<and>
    first_ids (i + n) responses' = first_ids i responses @ map pbr_sessionId (drop i ms)"
  using assms
proof (induction n arbitrary: i responses)
  case (Suc n)
  let ?r = "responses[i := convertSessionResponse2c (ms ! i) (responses ! i)]"
  have i: "i < length ms" "i < length responses" "Suc i + n = length ms" "length ms \<le> length ?r"
    using Suc.prems by simp_all
  have "first_ids (Suc i) ?r = first_ids i responses @ [pbr_sessionId (ms ! i)]"
    using i(2) by (simp add: first_ids_def take_Suc_conv_app_nth)
  moreover have "drop i ms = ms ! i # drop (Suc i) ms" using i(1) by (simp add: Cons_nth_drop_Suc)
  moreover have "[i..<i + Suc n] = i # [Suc i..<Suc i + n]" by (simp add: upt_conv_Cons)
  ultimately show ?case using Suc.IH [OF i(3,4)] i(1,2) by auto
qed (simp add: first_ids_def)

lemma convert_errors_ok:
  assumes "length (pb_responseError m) \<le> length (sessionErrors c)"
  shows "\<exists>c'. convertAddSessionResponse2c c m = Some c' \<and>
    length (sessionErrors c') = length (sessionErrors c) \<and>
    number_errors c' = of_nat (length (pb_responseError m)) \<and>
    take (length (pb_responseError m)) (sessionErrors c') =
      map (\<lambda>e. \<lparr>err_sessionId = pbe_sessionId e, err_errorStatus = pbe_errorStatus e\<rparr>) (pb_responseError m)"
  using copy_errors_ok [of 0 "pb_responseError m" "sessionErrors c"] assms
  by (auto simp: convertAddSessionResponse2c_def)

subsection \<open>The calls of the C interface\<close>

text \<open>The id that reaches the server: the low 32 bits of the id, read as a signed number.\<close>

definition sent_id :: "u64 \<Rightarrow> u64" where
  "sent_id sid = scast (ucast sid :: 32 word)"

lemma bit_small:
  assumes "(sid::u64) < 2 ^ 31" "31 \<le> n"
  shows "\<not> bit sid n"
proof -
  have "sid = take_bit 31 sid"
    using less_mask_eq [OF assms(1)] by (simp add: take_bit_eq_mask)
  then show ?thesis using assms(2) by (metis bit_take_bit_iff not_le)
qed

lemma sent_id_small:
  assumes "sid < 2 ^ 31"
  shows "sent_id sid = sid"
  using bit_small [OF assms]
  by (intro bit_word_eqI) (auto simp: sent_id_def bit_signed_iff bit_unsigned_iff min_def)

text \<open>What the client reads of a list of errors.\<close>

definition client_errors :: "pb_sessionResponseError list \<Rightarrow> addSessionErrors list" where
  "client_errors = map (\<lambda>e. \<lparr>err_sessionId = pbe_sessionId e, err_errorStatus = pbe_errorStatus e\<rparr>)"

context session_client
begin

lemma opof_add_session_ok:
  assumes inv: "inv (world c) ids" and h: "connected (obj h)"
    and n: "sz = int n" "n \<le> length req" "\<forall>r\<in>set (take n req). sendable r"
    and room: "length (rejects limit ids (map sessId (take n req))) \<le> length (sessionErrors resp)"
  shows "\<exists>resp' w. opof_add_session sz h req resp c = Some (status_code OK, resp', c\<lparr>world := w\<rparr>) \<and>
    inv w (admit limit ids (map sessId (take n req))) \<and>
    length (sessionErrors resp') = length (sessionErrors resp) \<and>
    number_errors resp' = of_nat (length (rejects limit ids (map sessId (take n req)))) \<and>
    take (length (rejects limit ids (map sessId (take n req)))) (sessionErrors resp') =
      client_errors (rejects limit ids (map sessId (take n req)))"
proof -
  have ok: "\<forall>i\<in>set [0..<n]. i < length req \<and> sendable (req ! i)"
    using n(2,3) by (auto simp: all_set_conv_all_nth)
  obtain ms where ms: "write_requests req [0..<n] default_sessionRequest = Some ms" "\<forall>m\<in>set ms. wf_message m"
    "map pb_sessionId ms = map (\<lambda>i. sessId (req ! i)) [0..<n]"
    using write_requests_ok [OF ok] by blast
  have ids: "map pb_sessionId ms = map sessId (take n req)"
    using ms(3) map_nth_take [OF n(2), of sessId] by simp
  obtain rc where call: "stub_addSession (obj h) (opof_get_deadline c) ms (world c) =
      reply default_addSessionResponse (addSession add_server (\<lambda>_. False) rc ms default_addSessionResponse (world c))"
    using add_call [OF h inv] by blast
  let ?R = "rejects limit ids (map sessId (take n req))"
  let ?m = "default_addSessionResponse\<lparr>pb_responseError := ?R\<rparr>"
  obtain w where w: "addSession add_server (\<lambda>_. False) rc ms default_addSessionResponse (world c) = Some (Status_OK, ?m, w)"
    and inv': "inv w (admit limit ids (map sessId (take n req)))"
    using addSession_all [OF inv ms(2), of "\<lambda>_. False" rc default_addSessionResponse] unfolding ids by auto
  obtain resp' where resp': "convertAddSessionResponse2c resp ?m = Some resp'"
    "length (sessionErrors resp') = length (sessionErrors resp)"
    "number_errors resp' = of_nat (length ?R)" "take (length ?R) (sessionErrors resp') = client_errors ?R"
    using convert_errors_ok [of ?m resp] room by (auto simp: client_errors_def)
  have "opof_add_session sz h req resp c = Some (status_code OK, resp', c\<lparr>world := w\<rparr>)"
    using ms(1) call w resp'(1) n(1)
    by (simp add: opof_add_session_def addSessionClient_def reply_def Status_OK_def)
  then show ?thesis using inv' resp'(2-4) by blast
qed

lemma opof_get_session_ok:
  assumes inv: "inv (world c) ids" and h: "connected (obj h)"
  shows "\<exists>resp'. opof_get_session h sid resp c =
      Some (status_code (if sent_id sid \<in> set ids then OK else NOT_FOUND), resp', c) \<and>
    (if sent_id sid \<in> set ids then rsp_sessionId resp' = sent_id sid
     else resp' = convertSessionResponse2c default_sessionResponse resp)"
proof -
  obtain c0 where call: "stub_getSession (obj h) (opof_get_deadline c) (sent_id sid) (world c) =
      reply default_sessionResponse
        (getSession get_server False c0 (sent_id sid) default_sessionResponse (world c))"
    using get_call [OF h inv] by blast
  have c: "c\<lparr>world := world c\<rparr> = c" by simp
  show ?thesis
    using getSession_ok [OF inv, of "sent_id sid" c0 default_sessionResponse] call
    unfolding opof_get_session_def getSessionClient_def sent_id_def [symmetric]
    by (auto simp: reply_def Status_OK_def c split: if_splits)
qed

lemma opof_del_session_ok:
  assumes inv: "inv (world c) ids" and h: "connected (obj h)"
  shows "\<exists>resp' w. opof_del_session h sid resp c =
      Some (status_code (if sent_id sid \<in> set ids then OK else NOT_FOUND), resp', c\<lparr>world := w\<rparr>) \<and>
    inv w (removeAll (sent_id sid) ids) \<and>
    (sent_id sid \<in> set ids \<longrightarrow> rsp_sessionId resp' = sent_id sid) \<and>
    (\<forall>k. at (world c) ids k \<and> sent_id sid \<in> set (take k ids) \<longrightarrow> at w (removeAll (sent_id sid) ids) (k - 1)) \<and>
    (sent_id sid \<notin> set ids \<longrightarrow> w = world c)"
proof -
  obtain c0 where call: "stub_deleteSession (obj h) (opof_get_deadline c) (sent_id sid) (world c) =
      reply default_sessionResponse
        (deleteSession del_server False c0 (sent_id sid) default_sessionResponse (world c))"
    using del_call [OF h inv] by blast
  show ?thesis
  proof (cases "sent_id sid \<in> set ids")
    case True
    obtain r w where r: "del_server (sent_id sid) c0 (world c) = Some (status_code OK, r, w)"
      "rsp_sessionId r = sent_id sid" "inv w (removeAll (sent_id sid) ids)"
      using del_law [OF inv, of "sent_id sid" c0] True by auto
    have "at w (removeAll (sent_id sid) ids) (k - 1)"
      if "at (world c) ids k" "sent_id sid \<in> set (take k ids)" for k
      using del_at_law [OF that r(1)] .
    then show ?thesis
      using r call True unfolding opof_del_session_def deleteSessionClient_def sent_id_def [symmetric]
      by (auto simp: reply_def Status_OK_def deleteSession_def convertSessionResponse2cpp_def)
  next
    case False
    then have "del_server (sent_id sid) c0 (world c) = Some (status_code NOT_FOUND, c0, world c)"
      using del_law [OF inv, of "sent_id sid" c0] by auto
    then show ?thesis
      using inv call False unfolding opof_del_session_def deleteSessionClient_def sent_id_def [symmetric]
      by (auto simp: reply_def Status_OK_def deleteSession_def dest: in_set_takeD intro!: exI [of _ "world c"])
  qed
qed

lemma opof_get_closed_sessions_ok:
  assumes inv: "inv (world c) ids" and h: "connected (obj (handle args))"
    and size: "0 < sint (str_pageSize args)" "sint (str_pageSize args) \<le> int BUFFER_MAX"
    and room: "sint (str_pageSize args) \<le> int (length responses)"
  defines "page \<equiv> take (nat (sint (str_pageSize args))) ids"
  shows "\<exists>responses' w. opof_get_closed_sessions args responses c =
      Some (status_code (if ids = [] then NOT_FOUND else OK), length page, responses', c\<lparr>world := w\<rparr>) \<and>
    length responses' = length responses \<and> first_ids (length page) responses' = page \<and>
    inv w (drop (nat (sint (str_pageSize args))) ids)"
proof -
  let ?q = "default_sessionRequestArgs\<lparr>pb_pageSize := str_pageSize args\<rparr>"
  obtain u p where call: "stub_getClosedSessions (obj (handle args)) (opof_get_deadline c) ?q (world c) =
      getClosedSessions closed_server False u p ?q (world c)"
    using closed_call [OF h inv] by blast
  obtain st ms w where r: "getClosedSessions closed_server False u p ?q (world c) = Some (st, ms, w)"
    "error_code st = (if ids = [] then NOT_FOUND else OK)" "map pbr_sessionId ms = page"
    "inv w (drop (nat (sint (str_pageSize args))) ids)"
    using getClosedSessions_eager [OF inv, of ?q u p] size by (auto simp: page_def)
  have len: "length ms = length page" using arg_cong [OF r(3), of length] by simp
  moreover have "length page \<le> nat (sint (str_pageSize args))" by (simp add: page_def)
  ultimately have "0 + length ms \<le> length responses" using room by linarith
  from read_closed_ok [OF this] obtain responses' where
    "read_closed ms 0 responses = Some (length page, responses')" "length responses' = length responses"
    "first_ids (length page) responses' = page"
    unfolding len using r(3) by (auto simp: first_ids_def)
  then show ?thesis
    using call r by (auto simp: opof_get_closed_sessions_def getClosedSessions_client_def Let_def)
qed

text \<open>Listing: from the beginning, and from where the listing stands.\<close>

lemma opof_get_all_sessions_reply:
  assumes inv: "inv (world c) ids" and h: "connected (obj h)" and room: "length page \<le> length responses"
    and handler: "\<And>uninit q. pb_startSession q = key \<Longrightarrow>
      \<exists>infos w. getAllSessions all_server False uninit q default_sessionResponses (world c) =
        Some (Status_OK, default_sessionResponses\<lparr>pb_nextkey := last (key # page), pb_sessionInfo := infos\<rparr>, w) \<and>
      map pbr_sessionId infos = page \<and> P w"
  shows "\<exists>responses' w. opof_get_all_sessions h key pageSize responses c =
      Some (status_code OK, last (key # page), length page, responses', c\<lparr>world := w\<rparr>) \<and>
    length responses' = length responses \<and> first_ids (length page) responses' = page \<and> P w"
proof -
  let ?q = "default_sessionRequestArgs\<lparr>pb_pageSize := of_int pageSize, pb_startSession := key\<rparr>"
  obtain u where call: "stub_getAllSessions (obj h) (opof_get_deadline c) ?q (world c) =
      reply default_sessionResponses (getAllSessions all_server False u ?q default_sessionResponses (world c))"
    using all_call [OF h inv] by blast
  obtain infos w where r: "getAllSessions all_server False u ?q default_sessionResponses (world c) =
      Some (Status_OK, default_sessionResponses\<lparr>pb_nextkey := last (key # page), pb_sessionInfo := infos\<rparr>, w)"
    and infos: "map pbr_sessionId infos = page" and P: "P w"
    using handler [of ?q u] by auto
  have len: "length infos = length page" using arg_cong [OF infos, of length] by simp
  obtain responses' where "read_infos infos [0..<length page] responses = Some responses'"
    "length responses' = length responses" "first_ids (length page) responses' = page"
    using read_infos_ok [of 0 "length page" infos responses] len infos room by (auto simp: first_ids_def)
  then show ?thesis
    using call r len P
    by (intro exI [of _ responses'] exI [of _ w])
      (simp add: opof_get_all_sessions_def getAllSessions_client_def reply_def Status_OK_def Let_def)
qed

lemma opof_get_all_sessions_first:
  assumes inv: "inv (world c) ids" and h: "connected (obj h)" and room: "BUFFER_MAX \<le> length responses"
  defines "page \<equiv> take BUFFER_MAX ids"
  shows "\<exists>responses' w. opof_get_all_sessions h UINT_MAX pageSize responses c =
      Some (status_code OK, last (UINT_MAX # page), length page, responses', c\<lparr>world := w\<rparr>) \<and>
    length responses' = length responses \<and> first_ids (length page) responses' = page \<and> at w ids (length page)"
proof (rule opof_get_all_sessions_reply [OF inv h])
  show "length page \<le> length responses" using room by (simp add: page_def)
  show "\<exists>infos w. getAllSessions all_server False uninit q default_sessionResponses (world c) =
      Some (Status_OK, default_sessionResponses\<lparr>pb_nextkey := last (UINT_MAX # page), pb_sessionInfo := infos\<rparr>, w) \<and>
      map pbr_sessionId infos = page \<and> at w ids (length page)"
    if "pb_startSession q = UINT_MAX" for uninit q
    using getAllSessions_restart [OF inv that, of uninit default_sessionResponses]
    by (simp add: page_def default_sessionResponses_def)
qed

lemma opof_get_all_sessions_next:
  assumes at: "at (world c) ids k" and h: "connected (obj h)" and room: "BUFFER_MAX \<le> length responses"
    and key: "key \<noteq> UINT_MAX"
  defines "page \<equiv> take BUFFER_MAX (drop k ids)"
  shows "\<exists>responses' w. opof_get_all_sessions h key pageSize responses c =
      Some (status_code OK, last (key # page), length page, responses', c\<lparr>world := w\<rparr>) \<and>
    length responses' = length responses \<and> first_ids (length page) responses' = page \<and> at w ids (k + length page)"
proof (rule opof_get_all_sessions_reply [OF at_inv [OF at] h])
  show "length page \<le> length responses" using room by (simp add: page_def)
  show "\<exists>infos w. getAllSessions all_server False uninit q default_sessionResponses (world c) =
      Some (Status_OK, default_sessionResponses\<lparr>pb_nextkey := last (key # page), pb_sessionInfo := infos\<rparr>, w) \<and>
      map pbr_sessionId infos = page \<and> at w ids (k + length page)"
    if "pb_startSession q = key" for uninit q
    using getAllSessions_ok [OF at, of uninit q default_sessionResponses] that key
    by (simp add: page_def default_sessionResponses_def)
qed

end

end
