(* ===== verification/Test_Client.thy ===== *)
theory Test_Client
  imports Client_Library Run_Tests
begin

text \<open>
  The loops of the client's test programs, connected to a device that keeps the contract: they
  end, they report success, and what they leave on the server. Ids are below \<open>2^31\<close>, so that
  they survive the client's conversion to \<open>int\<close>.
\<close>

subsection \<open>Numbers\<close>

lemma sint_nat [simp]: "n < 2 ^ 31 \<Longrightarrow> sint (of_nat n :: 32 word) = int n"
  by (simp add: signed_of_nat signed_take_bit_int_eq_self_iff)

lemma sint_diff_neg:
  assumes "m < n" "n < 2 ^ 31"
  shows "sint (of_nat m - of_nat n :: 32 word) < 0"
proof -
  have "(of_nat m - of_nat n :: 32 word) = of_int (int m - int n)" by simp
  also have "sint \<dots> = int m - int n"
    using assms by (subst signed_of_int) (simp add: signed_take_bit_int_eq_self_iff)
  finally show ?thesis using assms by simp
qed

lemma scast_nat [simp]: "n < 2 ^ 31 \<Longrightarrow> (scast (of_nat n :: 32 word) :: u64) = of_nat n"
  using sint_nat [of n] by (metis of_int_sint of_int_of_nat_eq)

lemma ucast_scast [simp]: "(ucast (scast (x :: 32 word) :: u64) :: 32 word) = x"
  by (rule bit_word_eqI) (auto simp: bit_signed_iff bit_unsigned_iff)

lemma sent_id_scast [simp]: "sent_id (scast (x :: 32 word)) = scast x"
  by (simp add: sent_id_def)

text \<open>Ids that fit in an \<open>int\<close> reach the server unchanged, and none of them is \<open>UINT_MAX\<close>.\<close>

definition small :: "u64 list \<Rightarrow> bool" where
  "small ids \<longleftrightarrow> (\<forall>k\<in>set ids. k < 2 ^ 31)"

lemma small_simps [simp]:
  "small []" "small (k # ks) \<longleftrightarrow> k < 2 ^ 31 \<and> small ks" "small (xs @ ys) \<longleftrightarrow> small xs \<and> small ys"
  by (auto simp: small_def)

lemma small_take: "small ids \<Longrightarrow> small (take n ids)"
  by (auto simp: small_def dest: in_set_takeD)

lemma small_drop: "small ids \<Longrightarrow> small (drop n ids)"
  by (auto simp: small_def dest: in_set_dropD)

lemma small_last: "small ks \<Longrightarrow> ks \<noteq> [] \<Longrightarrow> last (k # ks) \<noteq> UINT_MAX"
  by (auto simp: small_def UINT_MAX_def dest!: last_in_set)

lemma of_nat_small: "n < 2 ^ 31 \<Longrightarrow> (of_nat n :: u64) < 2 ^ 31"
  by (simp add: word_less_nat_alt unat_of_nat)

lemmas of_nat_small_numeral [simp] = of_nat_small [simplified]

subsection \<open>Retries\<close>

lemma with_retry_first:
  "call r c = Some (status, r', c') \<Longrightarrow> status \<noteq> 14 \<Longrightarrow> with_retry env st call r c = Some (status, r', c')"
  by (simp add: with_retry_def)

text \<open>
  The tries of a call that is repeated: \<open>sts i\<close>, \<open>rs (Suc i)\<close> and \<open>cs (Suc i)\<close> are what try \<open>i\<close>
  returns, from \<open>rs i\<close> and \<open>cs i\<close>.
\<close>

lemma retry_loop_stops:
  assumes "\<forall>i<n. call (rs i) (pause (cs i)) = Some (sts (Suc i), rs (Suc i), cs (Suc i))"
    and "\<forall>i<n. i < j \<longrightarrow> sts i = 14" and "0 < j" "j \<le> n" "sts j \<noteq> 14 \<or> j = n" "\<forall>i<j. sts i = 14"
  shows "retry_loop n pause call status (rs 0) (cs 0) = Some (sts j, rs j, cs j)"
  using assms
proof (induction n arbitrary: j status rs cs sts)
  case (Suc n)
  have c: "call (rs 0) (pause (cs 0)) = Some (sts (Suc 0), rs (Suc 0), cs (Suc 0))" using Suc.prems(1) by blast
  show ?case
  proof (cases "sts (Suc 0) = 14")
    case False
    then have "j = Suc 0" using Suc.prems(3,6) by (cases "j = Suc 0") (auto simp: gr0_conv_Suc)
    then show ?thesis using c False by simp
  next
    case True
    show ?thesis
    proof (cases "j = Suc 0")
      case True1: True
      then have "n = 0" using Suc.prems(5) True by auto
      then show ?thesis using c True1 True by simp
    next
      case False
      then have "retry_loop n pause call (sts (Suc 0)) (rs (Suc 0)) (cs (Suc 0)) =
          Some (sts (Suc (j - 1)), rs (Suc (j - 1)), cs (Suc (j - 1)))"
        using Suc.prems
        by (intro Suc.IH [of "\<lambda>i. rs (Suc i)" "\<lambda>i. cs (Suc i)" "\<lambda>i. sts (Suc i)" "j - 1"]) auto
      then show ?thesis using c True False Suc.prems(3) by simp
    qed
  qed
qed simp

subsection \<open>The last id of a page\<close>

lemma last_id_ok:
  "\<forall>i\<in>set is. i < length responses \<Longrightarrow>
   last_id responses is key = Some (last (key # map (\<lambda>i. rsp_sessionId (responses ! i)) is))"
  by (induction "is" arbitrary: key) auto

lemma last_id_page:
  assumes "n \<le> length responses"
  shows "last_id responses [0..<n] key = Some (last (key # first_ids n responses))"
proof -
  have "map (\<lambda>i. rsp_sessionId (responses ! i)) [0..<n] = first_ids n responses"
    using map_nth_take [OF assms, of rsp_sessionId] by (simp add: first_ids_def)
  then show ?thesis using last_id_ok [of "[0..<n]" responses key] assms by simp
qed

context session_client
begin

subsection \<open>Listing\<close>

text \<open>The next page with this key is that from index \<open>k\<close> on.\<close>

definition listing_at :: "u64 \<Rightarrow> 'a \<Rightarrow> u64 list \<Rightarrow> nat \<Rightarrow> bool" where
  "listing_at key w ids k \<longleftrightarrow> (if key = UINT_MAX then k = 0 \<and> inv w ids else at w ids k)"

lemma next_page:
  assumes "listing_at key (world c) ids k" and h: "connected (obj h)" and room: "length responses = BUFFER_MAX"
  defines "page \<equiv> take BUFFER_MAX (drop k ids)"
  shows "\<exists>responses' w. opof_get_all_sessions h key pageSize responses c =
      Some (status_code OK, last (key # page), length page, responses', c\<lparr>world := w\<rparr>) \<and>
    length responses' = BUFFER_MAX \<and> first_ids (length page) responses' = page \<and> at w ids (k + length page)"
proof (cases "key = UINT_MAX")
  case True
  then show ?thesis
    using opof_get_all_sessions_first [of c ids h responses pageSize] assms(1) h room
    by (auto simp: listing_at_def page_def)
next
  case False
  then show ?thesis
    using opof_get_all_sessions_next [of c ids k h responses key pageSize] assms(1) h room
    by (auto simp: listing_at_def page_def)
qed

lemma listing_at_next:
  assumes "at w ids k" and "small page" and "page \<noteq> []"
  shows "listing_at (last (key # page)) w ids k"
  using assms small_last [OF assms(2,3), of key] by (simp add: listing_at_def)

lemma list_until_none_ok:
  assumes "listing_at key (world c) ids k" and h: "connected (obj h)" and room: "length responses = BUFFER_MAX"
    and sm: "small ids" and n: "n \<noteq> 0"
  shows "\<exists>w. list_until_none h pageSize key n responses seen c = Some (seen @ drop k ids, c\<lparr>world := w\<rparr>) \<and> inv w ids"
  using assms
proof (induction "length ids - k" arbitrary: key c k responses seen n rule: less_induct)
  case less
  let ?page = "take BUFFER_MAX (drop k ids)"
  obtain responses' w where r: "opof_get_all_sessions h key pageSize responses c =
      Some (status_code OK, last (key # ?page), length ?page, responses', c\<lparr>world := w\<rparr>)"
    and len: "length responses' = BUFFER_MAX" and ids: "first_ids (length ?page) responses' = ?page"
    and at: "at w ids (k + length ?page)"
    using next_page [OF less.prems(1,2,3)] by blast
  have pl: "length ?page \<le> length responses'" using len by simp
  have lid: "last_id responses' [0..<length ?page] (last (key # ?page)) = Some (last (key # ?page))"
    using last_id_page [OF pl, of "last (key # ?page)"] unfolding ids by simp
  have step: "list_until_none h pageSize key n responses seen c =
      list_until_none h pageSize (last (key # ?page)) (length ?page) responses' (seen @ ?page) (c\<lparr>world := w\<rparr>)"
    using r lid ids \<open>n \<noteq> 0\<close> by (subst list_until_none.simps) (simp add: first_ids_def)
  show ?case
  proof (cases "?page = []")
    case True
    then have "drop k ids = []" by (simp add: BUFFER_MAX_def)
    then show ?thesis using step at_inv [OF at] True by (auto simp: list_until_none.simps)
  next
    case False
    have la: "listing_at (last (key # ?page)) (world (c\<lparr>world := w\<rparr>)) ids (k + length ?page)"
      using listing_at_next [OF at _ False] small_take [OF small_drop [OF less.prems(4)]] by simp
    have lt: "length ids - (k + length ?page) < length ids - k" using False by auto
    have ne: "length ?page \<noteq> 0" using False by simp
    obtain w' where w': "list_until_none h pageSize (last (key # ?page)) (length ?page) responses'
        (seen @ ?page) (c\<lparr>world := w\<rparr>) = Some ((seen @ ?page) @ drop (k + length ?page) ids, c\<lparr>world := w\<rparr>\<lparr>world := w'\<rparr>)"
      "inv w' ids"
      using less.hyps [OF lt la less.prems(2) len less.prems(4) ne] by blast
    have "?page @ drop (k + length ?page) ids = drop k ids"
      using append_take_drop_id [of BUFFER_MAX "drop k ids"] by (cases "BUFFER_MAX \<le> length (drop k ids)") (simp_all add: add.commute)
    then have "(seen @ ?page) @ drop (k + length ?page) ids = seen @ drop k ids" by simp
    then show ?thesis using step w' by (intro exI [of _ w']) simp
  qed
qed

end

context session_client
begin

subsection \<open>Deleting all sessions\<close>

lemma delete_page_ok:
  assumes "at (world c) (ks @ rest) (length ks)" and h: "connected (obj h)" and "small ks"
    and "map (\<lambda>i. rsp_sessionId (responses ! i)) js = ks" and "\<forall>i\<in>set js. i < length responses"
  shows "\<exists>status' resp' w. delete_page env st h responses js status resp c =
      Some (status', resp', c\<lparr>world := w\<rparr>) \<and> at w rest 0 \<and> (js = [] \<longrightarrow> status' = status)"
  using assms
proof (induction js arbitrary: c ks status resp)
  case Nil
  then show ?case by (auto intro!: exI [of _ "world c"])
next
  case (Cons i js)
  let ?k = "rsp_sessionId (responses ! i)" and ?ks = "map (\<lambda>i. rsp_sessionId (responses ! i)) js"
  have ks: "ks = ?k # ?ks" and i: "i < length responses" using Cons.prems(4,5) by auto
  have d: "distinct (ks @ rest)" using inv_distinct [OF at_inv [OF Cons.prems(1)]] .
  have k: "sent_id (scast (ucast ?k :: 32 word)) = ?k"
    using Cons.prems(3) sent_id_small [of ?k] ks by (simp add: sent_id_def [symmetric])
  have rem: "removeAll ?k (ks @ rest) = ?ks @ rest"
    using d ks by (simp add: removeAll_id)
  obtain resp1 w1 where del: "opof_del_session h (scast (ucast ?k :: 32 word)) resp c =
      Some (status_code OK, resp1, c\<lparr>world := w1\<rparr>)" and at1: "at w1 (?ks @ rest) (length ?ks)"
  proof -
    obtain resp1 w1 where r: "opof_del_session h (scast (ucast ?k :: 32 word)) resp c =
        Some (status_code (if ?k \<in> set (ks @ rest) then OK else NOT_FOUND), resp1, c\<lparr>world := w1\<rparr>)"
      and a: "\<forall>j. at (world c) (ks @ rest) j \<and> ?k \<in> set (take j (ks @ rest)) \<longrightarrow> at w1 (removeAll ?k (ks @ rest)) (j - 1)"
      using opof_del_session_ok [OF at_inv [OF Cons.prems(1)] h, of "scast (ucast ?k :: 32 word)" resp] unfolding k by blast
    have mem: "?k \<in> set (ks @ rest)" "?k \<in> set (take (length ks) (ks @ rest))" by (simp_all add: ks)
    have "at w1 (?ks @ rest) (length ?ks)"
      using a Cons.prems(1) mem(2) unfolding rem by (metis diff_Suc_1 ks length_Cons)
    with r mem(1) that show thesis by (simp del: status_code.simps)
  qed
  have "with_retry env st (del_call h (ucast ?k)) resp c = Some (status_code OK, resp1, c\<lparr>world := w1\<rparr>)"
    using del by (intro with_retry_first) (simp_all add: Run_Tests.del_call_def)
  then have step: "delete_page env st h responses (i # js) status resp c =
      delete_page env st h responses js (status_code OK) resp1 (c\<lparr>world := w1\<rparr>)"
    using i by simp
  have "at (world (c\<lparr>world := w1\<rparr>)) (?ks @ rest) (length ?ks)" using at1 by simp
  from Cons.IH [OF this h, of "status_code OK" resp1] show ?case
    unfolding step using Cons.prems(3,5) ks by auto
qed

lemma delete_all_loop_ok:
  assumes "listing_at key (world c) ids 0" and h: "connected (obj h)" and room: "length responses = BUFFER_MAX"
    and sm: "small ids" and n: "n \<noteq> 0"
  shows "\<exists>w. delete_all_loop env st h pageSize (key, n, responses) status resp c =
    Some (status_code OK, c\<lparr>world := w\<rparr>) \<and> inv w []"
  using assms
proof (induction "length ids" arbitrary: ids key c responses n status resp rule: less_induct)
  case less
  let ?page = "take BUFFER_MAX ids" and ?rest = "drop BUFFER_MAX ids"
  obtain responses' w where r: "opof_get_all_sessions h key pageSize responses c =
      Some (status_code OK, last (key # ?page), length ?page, responses', c\<lparr>world := w\<rparr>)"
    and len: "length responses' = BUFFER_MAX" and ids: "first_ids (length ?page) responses' = ?page"
    and at: "at w (?page @ ?rest) (length ?page)"
    using next_page [OF less.prems(1,2,3)] by (metis add_0 append_take_drop_id drop_0)
  have get: "with_retry env st (get_all_call h pageSize) (key, n, responses) c =
      Some (status_code OK, (last (key # ?page), length ?page, responses'), c\<lparr>world := w\<rparr>)"
    using r by (intro with_retry_first) (simp_all add: get_all_call_def)
  have pl: "length ?page \<le> length responses'" using len by simp
  have "at (world (c\<lparr>world := w\<rparr>)) (?page @ ?rest) (length ?page)" using at by simp
  from delete_page_ok [OF this h small_take [OF less.prems(4)], where responses = responses' and js = "[0..<length ?page]"]
  obtain status' resp' w' where del: "delete_page env st h responses' [0..<length ?page] (status_code OK) resp (c\<lparr>world := w\<rparr>) =
      Some (status', resp', c\<lparr>world := w'\<rparr>)" and at': "at w' ?rest 0"
    and nil: "[0..<length ?page] = [] \<longrightarrow> status' = status_code OK"
    using map_nth_take [OF pl, of rsp_sessionId] ids pl by (fastforce simp: first_ids_def)
  have step: "delete_all_loop env st h pageSize (key, n, responses) status resp c =
      delete_all_loop env st h pageSize (last (key # ?page), length ?page, responses') status' resp' (c\<lparr>world := w'\<rparr>)"
    using get del less.prems(5) by (subst delete_all_loop.simps) simp
  show ?case
  proof (cases "?page = []")
    case True
    then have "?rest = []" by (auto simp: BUFFER_MAX_def)
    then show ?thesis using step nil at_inv [OF at'] True by (auto simp: delete_all_loop.simps)
  next
    case False
    have la: "listing_at (last (key # ?page)) (world (c\<lparr>world := w'\<rparr>)) ?rest 0"
      using listing_at_next [OF at' small_take [OF less.prems(4)] False] by simp
    have lt: "length ?rest < length ids" using False by (auto simp: BUFFER_MAX_def)
    have ne: "length ?page \<noteq> 0" using False by simp
    show ?thesis
      using less.hyps [OF lt la less.prems(2) len small_drop [OF less.prems(4)] ne, of status' resp']
      unfolding step by simp
  qed
qed

lemma opof_delete_all_sessions_ok:
  assumes "inv (world (conn st)) ids" and "connected (obj h)" and "small ids"
  shows "\<exists>w. opof_delete_all_sessions env h pageSize st =
    Some (SUCCESS, st\<lparr>conn := (conn st)\<lparr>world := w\<rparr>\<rparr>) \<and> inv w []"
proof -
  have "listing_at UINT_MAX (world (conn st)) ids 0" using assms(1) by (simp add: listing_at_def)
  from delete_all_loop_ok [OF this assms(2) _ assms(3), of "responses_init env" 1 env st pageSize SUCCESS "uninit_rsp env 0"]
  obtain w where "delete_all_loop env st h pageSize (UINT_MAX, 1, responses_init env) SUCCESS (uninit_rsp env 0) (conn st) =
      Some (status_code OK, (conn st)\<lparr>world := w\<rparr>)" "inv w []"
    by (auto simp: responses_init_def)
  then show ?thesis by (intro exI [of _ w]) (simp add: opof_delete_all_sessions_def SUCCESS_def)
qed

end

subsection \<open>Admission on a device with room for some\<close>

lemma admit_take:
  assumes "distinct (ids @ ks)" and "length ids \<le> Suc limit"
  shows "admit limit ids ks = ids @ take (Suc limit - length ids) ks"
  using assms by (induction ks arbitrary: ids) (auto simp: admit_status_def Suc_diff_le)

lemma admit_known: "set ks \<subseteq> set ids \<Longrightarrow> admit limit ids ks = ids"
  by (induction ks arbitrary: ids) (auto simp: admit_status_def)

lemma admit_set: "set ids \<subseteq> set (admit limit ids ks) \<and> set (admit limit ids ks) \<subseteq> set ids \<union> set ks"
proof (induction ks arbitrary: ids)
  case (Cons k ks)
  show ?case using Cons.IH [of ids] Cons.IH [of "ids @ [k]"] by auto
qed simp

subsection \<open>Admission of sessions that were offered before\<close>

lemma admit_status_again:
  "admit_status limit ids k \<noteq> OK \<Longrightarrow> admit_status limit (admit limit ids ks) k \<noteq> OK"
proof (induction ks arbitrary: ids)
  case (Cons k' ks)
  have "admit_status limit (if admit_status limit ids k' = OK then ids @ [k'] else ids) k \<noteq> OK"
    using Cons.prems by (auto simp: admit_status_def split: if_splits)
  then show ?case using Cons.IH by simp
qed simp

lemma admit_refused: "k \<in> set ks \<Longrightarrow> admit_status limit (admit limit ids ks) k \<noteq> OK"
proof (induction ks arbitrary: ids)
  case (Cons k' ks)
  let ?ids = "if admit_status limit ids k' = OK then ids @ [k'] else ids"
  show ?case
  proof (cases "k = k'")
    case True
    have "admit_status limit ?ids k' \<noteq> OK" by (auto simp: admit_status_def)
    then show ?thesis using admit_status_again [of limit ?ids k' ks] True by simp
  next
    case False
    then show ?thesis using Cons.IH [of ?ids] Cons.prems by simp
  qed
qed simp

lemma admit_none:
  "\<forall>k\<in>set ks. admit_status limit ids k \<noteq> OK \<Longrightarrow>
    admit limit ids ks = ids \<and> map pbe_sessionId (rejects limit ids ks) = ks"
  by (induction ks) auto

text \<open>
  Once more after a part of them: the same are admitted in the end as in one go. The sessions of the
  first part are all refused the second time.
\<close>

lemma admit_again:
  "admit limit (admit limit ids (take j ks)) ks = admit limit ids ks \<and>
   map pbe_sessionId (rejects limit (admit limit ids (take j ks)) ks) =
     take j ks @ map pbe_sessionId (rejects limit (admit limit ids (take j ks)) (drop j ks))"
proof -
  let ?ids = "admit limit ids (take j ks)"
  have "\<forall>k\<in>set (take j ks). admit_status limit ?ids k \<noteq> OK" using admit_refused [of _ "take j ks"] by blast
  note none = admit_none [OF this]
  have "admit limit ?ids (take j ks @ drop j ks) = admit limit ?ids (drop j ks)" using none by (simp only: admit_append)
  also have "\<dots> = admit limit ids (take j ks @ drop j ks)" by (simp only: admit_append)
  finally have "admit limit ?ids ks = admit limit ids ks" by simp
  moreover have "map pbe_sessionId (rejects limit ?ids (take j ks @ drop j ks)) =
      take j ks @ map pbe_sessionId (rejects limit ?ids (drop j ks))"
    using none by (simp only: rejects_append map_append)
  ultimately show ?thesis by simp
qed

subsection \<open>Batches of sessions\<close>

text \<open>The ids of the sessions \<open>b\<close> up to \<open>e\<close>.\<close>

definition ids_from :: "nat \<Rightarrow> nat \<Rightarrow> u64 list" where
  "ids_from b e = map of_nat [b..<e]"

lemma ids_from_append: "b \<le> m \<Longrightarrow> m \<le> e \<Longrightarrow> ids_from b m @ ids_from m e = ids_from b e"
  using upt_add_eq_append [of b m "e - m"] by (simp add: ids_from_def flip: map_append)

lemma ids_from_small: "e \<le> 2 ^ 31 \<Longrightarrow> small (ids_from b e)"
  by (auto simp: ids_from_def small_def)

lemma ids_from_distinct: "e \<le> 2 ^ 31 \<Longrightarrow> distinct (ids_from b e)"
  by (auto simp: ids_from_def distinct_map inj_on_def word_of_nat_eq_iff take_bit_nat_eq_self)

text \<open>What a generator of requests has to give: requests with consecutive ids that can be sent.\<close>

definition makes_requests :: "(32 word \<Rightarrow> u64 \<Rightarrow> sessionRequest_t list option) \<Rightarrow> bool" where
  "makes_requests mk \<longleftrightarrow> (\<forall>n k. n < 2 ^ 31 \<longrightarrow> (\<exists>rs. mk (of_nat n) k = Some rs \<and> length rs = n \<and>
     map sessId rs = map (\<lambda>i. of_nat i + k) [0..<n] \<and> (\<forall>r\<in>set rs. sendable r)))"

lemma makes_requestsD:
  assumes "makes_requests mk" and "mk (of_nat n) k = Some rs" and "n < 2 ^ 31"
  shows "length rs = n" and "map sessId rs = map (\<lambda>i. of_nat i + k) [0..<n]" and "\<forall>r\<in>set rs. sendable r"
proof -
  obtain rs' where "mk (of_nat n) k = Some rs'" "length rs' = n" "map sessId rs' = map (\<lambda>i. of_nat i + k) [0..<n]"
    "\<forall>r\<in>set rs'. sendable r"
    using assms(1,3) unfolding makes_requests_def by blast
  then show "length rs = n" and "map sessId rs = map (\<lambda>i. of_nat i + k) [0..<n]" and "\<forall>r\<in>set rs. sendable r"
    using assms(2) by simp_all
qed

lemma makes_createSessionRequest: "makes_requests (createSessionRequest u)"
  unfolding makes_requests_def
proof (intro allI impI)
  fix n :: nat and k assume n: "n < 2 ^ 31"
  obtain rs where "createSessionRequest u (of_nat n) k = Some rs" "length rs = n"
    "map sessId rs = map (\<lambda>i. of_nat i + k) [0..<n]" "\<forall>r\<in>set rs. ipver r = ipver_code IPV4"
    using createSessionRequest_ids [of "of_nat n" u k] n by auto
  then show "\<exists>rs. createSessionRequest u (of_nat n) k = Some rs \<and> length rs = n \<and>
      map sessId rs = map (\<lambda>i. of_nat i + k) [0..<n] \<and> (\<forall>r\<in>set rs. sendable r)"
    by (auto simp: sendable_def)
qed

lemma makes_createSessionRequest6: "makes_requests (createSessionRequest6 u)"
  unfolding makes_requests_def
proof (intro allI impI)
  fix n :: nat and k assume n: "n < 2 ^ 31"
  obtain rs where "createSessionRequest6 u (of_nat n) k = Some rs" "length rs = n"
    "map sessId rs = map (\<lambda>i. of_nat i + k) [0..<n]"
    "\<forall>r\<in>set rs. length (srcIPV6 r) = 16 \<and> length (dstIPV6 r) = 16 \<and> length (nextHopV6 r) = 16"
    using createSessionRequest6_ids [of "of_nat n" u k] n by auto
  then show "\<exists>rs. createSessionRequest6 u (of_nat n) k = Some rs \<and> length rs = n \<and>
      map sessId rs = map (\<lambda>i. of_nat i + k) [0..<n] \<and> (\<forall>r\<in>set rs. sendable r)"
    by (auto simp: sendable_def wf_sessionRequest_t_def)
qed

lemma shifted_ids: "map (\<lambda>i. of_nat i + of_nat b) [0..<n] = ids_from b (b + n)"
proof -
  have "[b..<b + n] = map (\<lambda>i. i + b) [0..<n]" by (simp add: map_add_upt add.commute)
  then show ?thesis by (simp add: ids_from_def)
qed

text \<open>
  The functions the tests send batches and ask for closed sessions with: the call of the client
  library, except when its status is one of those a connected stub does not return.
\<close>

definition sends_batch ::
  "'w sessionTable_t \<Rightarrow> (int \<Rightarrow> sessionRequest_t list \<Rightarrow> addSessionResponse_t \<Rightarrow> 'w client \<Rightarrow>
   (u32 \<times> addSessionResponse_t \<times> 'w client) option) \<Rightarrow> bool" where
  "sends_batch h add \<longleftrightarrow> (\<forall>n rs a c a' w. opof_add_session n h rs a c = Some (status_code OK, a', c\<lparr>world := w\<rparr>) \<longrightarrow>
     add n rs a c = Some (status_code OK, a', c\<lparr>world := w\<rparr>))"

definition asks_closed ::
  "'w streamArgs_t \<Rightarrow> (sessionResponse_t list \<Rightarrow> 'w client \<Rightarrow>
   (u32 \<times> nat \<times> sessionResponse_t list \<times> 'w client) option) \<Rightarrow> bool" where
  "asks_closed args get \<longleftrightarrow> (\<forall>rs c st n rs' w. opof_get_closed_sessions args rs c = Some (st, n, rs', c\<lparr>world := w\<rparr>) \<longrightarrow>
     st = status_code OK \<or> st = status_code NOT_FOUND \<longrightarrow> get rs c = Some (st, n, rs', c\<lparr>world := w\<rparr>))"

lemma sends_batchD:
  "sends_batch h add \<Longrightarrow> opof_add_session n h rs a c = Some (status_code OK, a', c\<lparr>world := w\<rparr>) \<Longrightarrow>
   add n rs a c = Some (status_code OK, a', c\<lparr>world := w\<rparr>)"
  unfolding sends_batch_def by blast

lemma asks_closedD:
  "asks_closed args get \<Longrightarrow> opof_get_closed_sessions args rs c = Some (st, n, rs', c\<lparr>world := w\<rparr>) \<Longrightarrow>
   st = status_code OK \<or> st = status_code NOT_FOUND \<Longrightarrow> get rs c = Some (st, n, rs', c\<lparr>world := w\<rparr>)"
  unfolding asks_closed_def by blast

lemma sends_batch_calls: "sends_batch h (add_call_plain h)" "sends_batch h (add_call_deadline h)"
  by (auto simp: sends_batch_def add_call_plain_def add_call_deadline_def)

lemma asks_closed_calls: "asks_closed args (opof_get_closed_sessions args)" "asks_closed args (closed_call_deadline args)"
  by (auto simp: asks_closed_def closed_call_deadline_def)

subsection \<open>The loops over batches and pages\<close>

text \<open>The size of the next batch, as the loop computes it with a signed difference.\<close>

lemma buffer_size:
  assumes "M < 2 ^ 31" and "p < 2 ^ 31"
  shows "(if sint (of_nat M - of_nat p :: 32 word) < 0 then of_nat M else of_nat p) = (of_nat (min M p) :: 32 word)"
proof (cases "M < p")
  case True
  then show ?thesis using sint_diff_neg [OF True assms(2)] by (simp add: min_def)
next
  case False
  then have "sint (of_nat M - of_nat p :: 32 word) = int (M - p)"
    using sint_nat [of "M - p"] assms(1) by (simp add: of_nat_diff)
  then show ?thesis using False by (simp add: min_def)
qed

text \<open>
  The loop of the tests that adds sessions in batches, for any function that adds a batch: \<open>R c b\<close> says
  of the state \<open>c\<close> that the sessions before \<open>b\<close> have been dealt with.
\<close>

lemma add_loop_rounds:
  fixes R :: "'c \<Rightarrow> nat \<Rightarrow> bool"
  assumes "R c b" and p: "0 < p" "p \<le> BUFFER_MAX" and M: "b + M < 2 ^ 31"
    and room: "length (sessionErrors addResp) = BUFFER_MAX" and f: "\<not> failed (status_code OK)"
    and batch: "\<And>c n b addResp. R c b \<Longrightarrow> n \<le> BUFFER_MAX \<Longrightarrow> length (sessionErrors addResp) = BUFFER_MAX \<Longrightarrow>
      \<exists>rs addResp' c'. mk (of_nat n) (of_nat b) = Some rs \<and> add (int n) rs addResp c = Some (status_code OK, addResp', c') \<and>
        R c' (b + n) \<and> length (sessionErrors addResp') = BUFFER_MAX"
  shows "\<exists>addResp' c'. add_loop mk failed add (of_nat p) (of_nat M) (of_nat b) addResp c = Some (False, addResp', c') \<and>
    R c' (b + M) \<and> length (sessionErrors addResp') = BUFFER_MAX"
  using assms(1,4,5)
proof (induction M arbitrary: b c addResp rule: less_induct)
  case (less M)
  have p31: "p < 2 ^ 31" using p by (simp add: BUFFER_MAX_def)
  let ?n = "min M p"
  obtain rs a1 c1 where rs: "mk (of_nat ?n) (of_nat b) = Some rs"
    and add1: "add (int ?n) rs addResp c = Some (status_code OK, a1, c1)"
    and inv1: "R c1 (b + ?n)" and r1: "length (sessionErrors a1) = BUFFER_MAX"
    using batch [OF less.prems(1) min.coboundedI2 [OF p(2)] less.prems(3), of M] by blast
  show ?case
  proof (cases "M = 0")
    case True
    then show ?thesis
      using less.prems(1,3) by (auto simp: add_loop.simps)
  next
    case False
    have buf: "(if sint (of_nat M - of_nat p :: 32 word) < 0 then of_nat M else of_nat p) = (of_nat ?n :: 32 word)"
      using less.prems(2) p31 by (intro buffer_size) simp_all
    have bounds: "b < 2 ^ 31" "?n < 2 ^ 31" "M < 2 ^ 31" using less.prems(2) p31 by simp_all
    have step: "add_loop mk failed add (of_nat p) (of_nat M) (of_nat b) addResp c =
        add_loop mk failed add (of_nat p) (of_nat M - of_nat p) (of_nat (b + ?n)) a1 c1"
      using False rs add1 f bounds buf
      by (subst add_loop.simps) (simp add: Let_def del: status_code.simps min_def)
    show ?thesis
    proof (cases "M < p")
      case True
      then show ?thesis
        using step sint_diff_neg [OF True p31] inv1 r1 by (auto simp: add_loop.simps)
    next
      case False2: False
      have d: "(of_nat M - of_nat p :: 32 word) = of_nat (M - p)" using False2 by (simp add: of_nat_diff)
      have n: "?n = p" using False2 by simp
      have inv1': "R c1 (b + p)" using inv1 n by simp
      have M': "M - p < M" "b + p + (M - p) < 2 ^ 31" "b + p + (M - p) = b + M"
        using p(1) False False2 less.prems(2) by auto
      show ?thesis
        using less.IH [OF M'(1) inv1' M'(2) r1] unfolding step d n M'(3) by simp
    qed
  qed
qed

text \<open>The same when \<open>Q c ids\<close> says that in the state \<open>c\<close> the device holds \<open>ids\<close>.\<close>

lemma add_loop_batches:
  fixes Q :: "'c \<Rightarrow> u64 list \<Rightarrow> bool"
  assumes "Q c ids" and p: "0 < p" "p \<le> BUFFER_MAX" and M: "b + M < 2 ^ 31"
    and room: "length (sessionErrors addResp) = BUFFER_MAX" and f: "\<not> failed (status_code OK)"
    and batch: "\<And>c ids n b addResp. Q c ids \<Longrightarrow> n \<le> BUFFER_MAX \<Longrightarrow> length (sessionErrors addResp) = BUFFER_MAX \<Longrightarrow>
      \<exists>rs addResp' c'. mk (of_nat n) (of_nat b) = Some rs \<and> add (int n) rs addResp c = Some (status_code OK, addResp', c') \<and>
        Q c' (admit limit ids (ids_from b (b + n))) \<and> length (sessionErrors addResp') = BUFFER_MAX"
  shows "\<exists>addResp' c'. add_loop mk failed add (of_nat p) (of_nat M) (of_nat b) addResp c = Some (False, addResp', c') \<and>
    Q c' (admit limit ids (ids_from b (b + M))) \<and> length (sessionErrors addResp') = BUFFER_MAX"
proof -
  let ?R = "\<lambda>c e. b \<le> e \<and> Q c (admit limit ids (ids_from b e))"
  have R0: "?R c b" using assms(1) by (simp add: ids_from_def)
  have round: "\<exists>rs addResp' c'. mk (of_nat n) (of_nat e) = Some rs \<and> add (int n) rs addResp c = Some (status_code OK, addResp', c') \<and>
      ?R c' (e + n) \<and> length (sessionErrors addResp') = BUFFER_MAX"
    if R: "?R c e" and n: "n \<le> BUFFER_MAX" "length (sessionErrors addResp) = BUFFER_MAX" for c n e addResp
  proof -
    have "admit limit (admit limit ids (ids_from b e)) (ids_from e (e + n)) = admit limit ids (ids_from b (e + n))"
      using R by (simp add: admit_append [symmetric] ids_from_append)
    then show ?thesis using batch [OF _ n, of c "admit limit ids (ids_from b e)" e] R by auto
  qed
  show ?thesis
    using add_loop_rounds [where R = ?R and c = c and b = b and failed = failed and add = add and mk = mk, OF R0 p M room f round]
    by blast
qed

text \<open>
  The loop that asks for closed sessions until there are none, for any function that takes at least one
  session from the device if there is one to report.
\<close>

lemma closed_loop_pages:
  fixes Q :: "'c \<Rightarrow> u64 list \<Rightarrow> bool"
  assumes "Q c ids" and "length responses = BUFFER_MAX" and "n \<noteq> 0"
    and page: "\<And>c ids responses. Q c ids \<Longrightarrow> length responses = BUFFER_MAX \<Longrightarrow>
      \<exists>st n responses' c' ids'. get responses c = Some (st, n, responses', c') \<and> Q c' ids' \<and>
        length responses' = BUFFER_MAX \<and> (if n = 0 then ids' = [] else length ids' < length ids \<and> \<not> failed st)"
  shows "\<exists>c'. closed_until_none failed get n responses c = Some (False, c') \<and> Q c' []"
  using assms(1-3)
proof (induction "length ids" arbitrary: ids c responses n rule: less_induct)
  case less
  obtain st k responses' c' ids' where r: "get responses c = Some (st, k, responses', c')" "Q c' ids'"
      "length responses' = BUFFER_MAX" "if k = 0 then ids' = [] else length ids' < length ids \<and> \<not> failed st"
    using page [OF less.prems(1,2)] by blast
  have step: "closed_until_none failed get n responses c = closed_until_none failed get k responses' c'"
    using r(1,4) less.prems(3) by (subst closed_until_none.simps) auto
  show ?case
  proof (cases "k = 0")
    case True
    then show ?thesis using r(2,4) unfolding step by (subst closed_until_none.simps) simp
  next
    case False
    then show ?thesis using less.hyps [OF _ r(2,3) False] r(4) unfolding step by simp
  qed
qed

context session_client
begin

subsection \<open>Adding and closing\<close>

lemma add_batch:
  assumes "inv (world c) ids" and h: "connected (obj h)" and mk: "makes_requests mk"
    and n: "n \<le> BUFFER_MAX" and room: "length (sessionErrors addResp) = BUFFER_MAX"
  shows "\<exists>rs addResp' w. mk (of_nat n) (of_nat b) = Some rs \<and>
    opof_add_session (int n) h rs addResp c = Some (status_code OK, addResp', c\<lparr>world := w\<rparr>) \<and>
    inv w (admit limit ids (ids_from b (b + n))) \<and> length (sessionErrors addResp') = BUFFER_MAX \<and>
    number_errors addResp' = of_nat (length (rejects limit ids (ids_from b (b + n)))) \<and>
    take (length (rejects limit ids (ids_from b (b + n)))) (sessionErrors addResp') =
      client_errors (rejects limit ids (ids_from b (b + n)))"
proof -
  have "n < 2 ^ 31" using n by (simp add: BUFFER_MAX_def)
  then obtain rs where rs: "mk (of_nat n) (of_nat b) = Some rs" "length rs = n"
    "map sessId rs = ids_from b (b + n)" "\<forall>r\<in>set rs. sendable r"
    using mk unfolding makes_requests_def shifted_ids [symmetric] by blast
  have "length (rejects limit ids (map sessId (take n rs))) \<le> length (sessionErrors addResp)"
    using rejects_length [of limit ids "map sessId (take n rs)"] rs(2) n room by simp
  from opof_add_session_ok [OF assms(1) h refl _ _ this] show ?thesis using rs room by auto
qed

lemma add_loop_ok:
  assumes "inv (world c) ids" and h: "connected (obj h)" and mk: "makes_requests mk"
    and p: "0 < p" "p \<le> BUFFER_MAX" and M: "b + M < 2 ^ 31"
    and room: "length (sessionErrors addResp) = BUFFER_MAX" and f: "\<not> failed (status_code OK)"
    and add: "sends_batch h add"
  shows "\<exists>addResp' w. add_loop mk failed add (of_nat p) (of_nat M) (of_nat b) addResp c =
      Some (False, addResp', c\<lparr>world := w\<rparr>) \<and>
    inv w (admit limit ids (ids_from b (b + M))) \<and> length (sessionErrors addResp') = BUFFER_MAX"
proof -
  let ?Q = "\<lambda>c' ids. \<exists>w. c' = c\<lparr>world := w\<rparr> \<and> inv w ids"
  have Q0: "?Q c ids" using assms(1) by (intro exI [of _ "world c"]) simp
  have batch: "\<exists>rs addResp' c2. mk (of_nat n) (of_nat b) = Some rs \<and>
      add (int n) rs addResp c1 = Some (status_code OK, addResp', c2) \<and> ?Q c2 (admit limit ids (ids_from b (b + n))) \<and>
      length (sessionErrors addResp') = BUFFER_MAX"
    if Q: "?Q c1 ids" and n: "n \<le> BUFFER_MAX" "length (sessionErrors addResp) = BUFFER_MAX" for c1 ids n b addResp
  proof -
    obtain w where w: "c1 = c\<lparr>world := w\<rparr>" "inv (world c1) ids" using Q by auto
    obtain rs a w' where "mk (of_nat n) (of_nat b) = Some rs"
      "opof_add_session (int n) h rs addResp c1 = Some (status_code OK, a, c1\<lparr>world := w'\<rparr>)"
      "inv w' (admit limit ids (ids_from b (b + n)))" "length (sessionErrors a) = BUFFER_MAX"
      using add_batch [OF w(2) h mk n, of b] by blast
    then show ?thesis using sends_batchD [OF add] w(1) by (auto simp del: status_code.simps)
  qed
  have "\<exists>addResp' c'. add_loop mk failed add (of_nat p) (of_nat M) (of_nat b) addResp c = Some (False, addResp', c') \<and>
      ?Q c' (admit limit ids (ids_from b (b + M))) \<and> length (sessionErrors addResp') = BUFFER_MAX"
    by (rule add_loop_batches [where Q = ?Q and c = c and ids = ids and failed = failed, OF Q0 p M room f]) (rule batch)
  then show ?thesis by metis
qed

lemma closed_until_none_ok:
  assumes "inv (world c) ids" and h: "connected (obj (handle args))"
    and p: "str_pageSize args = of_nat p" "0 < p" "p \<le> BUFFER_MAX"
    and room: "length responses = BUFFER_MAX" and n: "n \<noteq> 0" and f: "\<not> failed (status_code OK)"
    and get: "asks_closed args get"
  shows "\<exists>w. closed_until_none failed get n responses c = Some (False, c\<lparr>world := w\<rparr>) \<and> inv w []"
proof -
  let ?Q = "\<lambda>c' ids. \<exists>w. c' = c\<lparr>world := w\<rparr> \<and> inv w ids"
  have sp: "sint (str_pageSize args) = int p" using p by (simp add: BUFFER_MAX_def)
  have Q0: "?Q c ids" using assms(1) by (intro exI [of _ "world c"]) simp
  have page: "\<exists>st n responses' c2 ids'. get responses c1 = Some (st, n, responses', c2) \<and> ?Q c2 ids' \<and>
      length responses' = BUFFER_MAX \<and> (if n = 0 then ids' = [] else length ids' < length ids \<and> \<not> failed st)"
    if Q: "?Q c1 ids" and len: "length responses = BUFFER_MAX" for c1 ids responses
  proof -
    obtain w where w: "c1 = c\<lparr>world := w\<rparr>" "inv (world c1) ids" using Q by auto
    obtain responses' w' where r0: "opof_get_closed_sessions args responses c1 =
        Some (status_code (if ids = [] then NOT_FOUND else OK), length (take p ids), responses', c1\<lparr>world := w'\<rparr>)"
      and r: "length responses' = BUFFER_MAX" "inv w' (drop p ids)"
      using opof_get_closed_sessions_ok [OF w(2) h, of responses] p len unfolding sp by auto
    have "get responses c1 = Some (status_code (if ids = [] then NOT_FOUND else OK), length (take p ids), responses', c1\<lparr>world := w'\<rparr>)"
      by (rule asks_closedD [OF get r0]) simp
    then show ?thesis using r w(1) p(2) f by (cases "ids = []") (auto simp del: status_code.simps)
  qed
  have "\<exists>c'. closed_until_none failed get n responses c = Some (False, c') \<and> ?Q c' []"
    by (rule closed_loop_pages [where Q = ?Q and c = c and ids = ids, OF Q0 room n]) (rule page)
  then show ?thesis by metis
qed

subsection \<open>Getting and deleting each session\<close>

lemma each_get_ok:
  assumes "inv (world c) ids" and "connected (obj h)"
  shows "each_session (opof_get_session h) js resp c = Some c"
proof (induction js arbitrary: resp)
  case (Cons i js)
  obtain resp' where "opof_get_session h (of_nat i) resp c =
      Some (status_code (if sent_id (of_nat i) \<in> set ids then OK else NOT_FOUND), resp', c)"
    using opof_get_session_ok [OF assms, of "of_nat i" resp] by blast
  then show ?case using Cons.IH [of resp'] by (simp add: FAILURE_def)
qed simp

lemma each_del_ok:
  assumes "inv (world c) ids" and h: "connected (obj h)" and "\<forall>i\<in>set js. i < 2 ^ 31"
  shows "\<exists>w. each_session (opof_del_session h) js resp c = Some (c\<lparr>world := w\<rparr>) \<and>
    inv w (filter (\<lambda>k. k \<notin> of_nat ` set js) ids)"
  using assms
proof (induction js arbitrary: resp c ids)
  case Nil
  then show ?case by (auto intro!: exI [of _ "world c"])
next
  case (Cons i js)
  have k: "sent_id (of_nat i) = of_nat i" using Cons.prems(3) by (intro sent_id_small) simp
  obtain resp' w where r: "opof_del_session h (of_nat i) resp c =
      Some (status_code (if of_nat i \<in> set ids then OK else NOT_FOUND), resp', c\<lparr>world := w\<rparr>)"
    and inv: "inv w (removeAll (of_nat i) ids)"
    using opof_del_session_ok [OF Cons.prems(1) h, of "of_nat i" resp] unfolding k by blast
  have i: "inv (world (c\<lparr>world := w\<rparr>)) (removeAll (of_nat i) ids)" using inv by simp
  have eq: "filter (\<lambda>k. k \<notin> of_nat ` set js) (removeAll (of_nat i) ids) =
      filter (\<lambda>k. k \<notin> of_nat ` set (i # js)) ids"
    by (auto simp: removeAll_filter_not_eq intro!: filter_cong)
  show ?case
    using Cons.IH [OF i h, of resp'] Cons.prems(3) r unfolding eq by (auto simp: FAILURE_def)
qed

end

context session_client
begin

subsection \<open>The tests\<close>

text \<open>
  What a run of the tests needs: every client is connected, the array of the uninitialised
  response has its length, and the sessions on the server have small ids.
\<close>

definition test_env :: "'a env \<Rightarrow> bool" where
  "test_env env \<longleftrightarrow> (\<forall>address cert. connected (new_client env address cert)) \<and>
     length (sessionErrors (uninit_add env)) = BUFFER_MAX"

definition test_state :: "'a tester \<Rightarrow> bool" where
  "test_state st \<longleftrightarrow> (\<exists>ids. inv (world (conn st)) ids \<and> small ids)"

definition holds_sessions :: "'a tester \<Rightarrow> u64 list \<Rightarrow> bool" where
  "holds_sessions st ids \<longleftrightarrow> inv (world (conn st)) ids"

lemma test_env_connected [simp]:
  "test_env env \<Longrightarrow> connected (obj (opof_create_sessionTable (new_client env) s a p c))"
  by (simp add: test_env_def opof_create_sessionTable_def Let_def)

lemma test_env_room [simp]: "test_env env \<Longrightarrow> length (sessionErrors (uninit_add env)) = BUFFER_MAX"
  by (simp add: test_env_def)

lemma responses_init_length [simp]: "length (responses_init env) = BUFFER_MAX"
  by (simp add: responses_init_def)

lemma deleted_all:
  assumes "test_env env" and "test_state st"
  shows "\<exists>w. opof_delete_all_sessions env (opof_create_sessionTable (new_client env) s a p c) n st =
    Some (SUCCESS, st\<lparr>conn := (conn st)\<lparr>world := w\<rparr>\<rparr>) \<and> inv w []"
  using assms opof_delete_all_sessions_ok [of st] unfolding test_state_def
  by (metis test_env_connected)

text \<open>The sessions a device that was empty holds after \<open>M\<close> have been offered to it.\<close>

definition offered :: "nat \<Rightarrow> u64 list" where
  "offered M = admit limit [] (ids_from 0 M)"

lemma offered_eq: "M < 2 ^ 31 \<Longrightarrow> offered M = ids_from 0 (min M (Suc limit))"
  using admit_take [of "[]" "ids_from 0 M" limit] ids_from_distinct [of M 0]
  by (simp add: offered_def ids_from_def take_map min_def)

lemma offered_small: "M < 2 ^ 31 \<Longrightarrow> small (offered M)"
  using ids_from_small by (simp add: offered_eq)

lemma added:
  assumes "inv w []" and env: "test_env env" and "0 < p" "p \<le> BUFFER_MAX" and "M < 2 ^ 31"
    and "makes_requests mk" and "\<not> failed (status_code OK)"
    and "sends_batch h add" and "connected (obj h)"
  shows "\<exists>a w'. add_loop mk failed add (of_nat p) (of_nat M) 0 (uninit_add env) (c\<lparr>world := w\<rparr>) =
      Some (False, a, c\<lparr>world := w'\<rparr>) \<and> inv w' (offered M) \<and> length (sessionErrors a) = BUFFER_MAX"
proof -
  have "inv (world (c\<lparr>world := w\<rparr>)) []" and "0 + M < 2 ^ 31" using assms(1,5) by simp_all
  from add_loop_ok [where failed = failed, OF this(1) assms(9,6,3,4) this(2) test_env_room [OF env] assms(7,8)]
  show ?thesis by (simp add: offered_def)
qed

lemma closed:
  assumes "inv w ids" and "connected (obj (handle args))" and "str_pageSize args = of_nat p" and "0 < p" "p \<le> BUFFER_MAX"
    and "\<not> failed (status_code OK)"
    and "asks_closed args get"
  shows "\<exists>w'. closed_until_none failed get 1 (responses_init env) (c\<lparr>world := w\<rparr>) =
      Some (False, c\<lparr>world := w'\<rparr>) \<and> inv w' []"
proof -
  have "inv (world (c\<lparr>world := w\<rparr>)) ids" using assms(1) by simp
  from closed_until_none_ok [where failed = failed, OF this assms(2-5) responses_init_length one_neq_zero assms(6,7)] show ?thesis by simp
qed

lemma FAILURE_SUCCESS [simp]: "SUCCESS \<noteq> FAILURE" "FAILURE \<noteq> SUCCESS"
  by (simp_all add: SUCCESS_def FAILURE_def)

lemma status_FAILURE [simp]: "status_code OK \<noteq> FAILURE" "status_code NOT_FOUND \<noteq> FAILURE"
  by (simp_all add: FAILURE_def)

lemma add_then_close:
  assumes "inv w []" and env: "test_env env" and p: "0 < p" "p \<le> BUFFER_MAX" and M: "M < 2 ^ 31"
    and "makes_requests mk" and "\<not> failed (status_code OK)" and "\<not> refused (status_code OK)"
    and "sends_batch h add" and "connected (obj h)" and "asks_closed args get"
    and "connected (obj (handle args))" and "str_pageSize args = of_nat p"
  shows "\<exists>r w2 w3. add_loop mk failed add (of_nat p) (of_nat M) 0 (uninit_add env) (c\<lparr>world := w\<rparr>) =
      Some (False, r, c\<lparr>world := w2\<rparr>) \<and>
    closed_until_none refused get 1 (responses_init env) (c\<lparr>world := w2\<rparr>) = Some (False, c\<lparr>world := w3\<rparr>) \<and> inv w3 []"
  using added [where failed = failed, OF assms(1-7,9,10), of c] closed [where failed = refused, OF _ assms(12,13,3,4,8,11)]
  by blast

text \<open>
  The tests that add sessions and take them back by asking for closed ones: 1, 5, 8, 10, 11, and
  6, which adds them twice. They end, report success, and leave the server empty.
\<close>

lemma test1_ok:
  assumes env: "test_env env" and st: "test_state st" and p: "0 < p" "p \<le> BUFFER_MAX" and M: "M < 2 ^ 31"
  shows "\<exists>st'. opof_test1 env a (of_nat M) (of_nat p) port cert st = Some (SUCCESS, st') \<and> holds_sessions st' []"
proof -
  let ?h = "opof_create_sessionTable (new_client env) (ssl env) a (ucast port) cert"
  obtain w where w: "opof_delete_all_sessions env ?h (sint (of_nat p :: u32)) st =
      Some (SUCCESS, st\<lparr>conn := (conn st)\<lparr>world := w\<rparr>\<rparr>)" "inv w []"
    using deleted_all [OF env st] by blast
  show ?thesis
    using w add_then_close [where h = ?h and c = "conn st" and failed = "\<lambda>status. status \<noteq> status_code OK" and
        refused = "\<lambda>status. status = status_code NOT_FOUND" and args = "\<lparr>handle = ?h, str_pageSize = of_nat p\<rparr>",
        OF w(2) env p M makes_createSessionRequest [of "uninit_request env"] _ _ sends_batch_calls(1) test_env_connected [OF env] asks_closed_calls(1)] env
    by (auto simp: opof_test1_def Let_def holds_sessions_def simp del: status_code.simps One_nat_def)
qed

lemma test5_ok:
  assumes env: "test_env env" and st: "test_state st" and p: "0 < p" "p \<le> BUFFER_MAX" and M: "M < 2 ^ 31"
  shows "\<exists>st'. opof_test5 env a (of_nat M) (of_nat p) port cert st = Some (SUCCESS, st') \<and> holds_sessions st' []"
proof -
  let ?h = "opof_create_sessionTable (new_client env) (ssl env) a (ucast port) cert"
  obtain w where w: "opof_delete_all_sessions env ?h (sint (of_nat p :: u32)) st =
      Some (SUCCESS, st\<lparr>conn := (conn st)\<lparr>world := w\<rparr>\<rparr>)" "inv w []"
    using deleted_all [OF env st] by blast
  show ?thesis
    using w add_then_close [where h = ?h and c = "conn st" and failed = "\<lambda>status. status = FAILURE" and
        refused = "\<lambda>status. False" and args = "\<lparr>handle = ?h, str_pageSize = of_nat p\<rparr>",
        OF w(2) env p M makes_createSessionRequest [of "uninit_request env"] _ _ sends_batch_calls(1) test_env_connected [OF env] asks_closed_calls(1)] env
    by (auto simp: opof_test5_def Let_def holds_sessions_def simp del: status_code.simps One_nat_def)
qed

lemma test8_ok:
  assumes env: "test_env env" and st: "test_state st" and p: "0 < p" "p \<le> BUFFER_MAX" and M: "M < 2 ^ 31"
  shows "\<exists>st'. opof_test8 env a (of_nat M) (of_nat p) port cert st = Some (SUCCESS, st') \<and> holds_sessions st' []"
proof -
  let ?h = "opof_create_sessionTable (new_client env) (ssl env) a (ucast port) cert"
  obtain w where w: "opof_delete_all_sessions env ?h (sint (of_nat p :: u32)) st =
      Some (SUCCESS, st\<lparr>conn := (conn st)\<lparr>world := w\<rparr>\<rparr>)" "inv w []"
    using deleted_all [OF env st] by blast
  show ?thesis
    using w add_then_close [where h = ?h and c = "conn st" and failed = "\<lambda>status. status \<noteq> status_code OK" and
        refused = "\<lambda>status. False" and args = "\<lparr>handle = ?h, str_pageSize = of_nat p\<rparr>",
        OF w(2) env p M makes_createSessionRequest [of "uninit_request env"] _ _ sends_batch_calls(1) test_env_connected [OF env] asks_closed_calls(1)] env
    by (auto simp: opof_test8_def Let_def holds_sessions_def simp del: status_code.simps One_nat_def)
qed

lemma test11_ok:
  assumes env: "test_env env" and st: "test_state st" and p: "0 < p" "p \<le> BUFFER_MAX" and M: "M < 2 ^ 31"
  shows "\<exists>st'. opof_test11 env a (of_nat M) (of_nat p) port cert st = Some (SUCCESS, st') \<and> holds_sessions st' []"
proof -
  let ?h = "opof_create_sessionTable (new_client env) (ssl env) a (ucast port) cert"
  obtain w where w: "opof_delete_all_sessions env ?h (sint (of_nat p :: u32)) st =
      Some (SUCCESS, st\<lparr>conn := (conn st)\<lparr>world := w\<rparr>\<rparr>)" "inv w []"
    using deleted_all [OF env st] by blast
  show ?thesis
    using w add_then_close [where h = ?h and c = "conn st" and failed = "\<lambda>status. status \<noteq> status_code OK" and
        refused = "\<lambda>status. False" and args = "\<lparr>handle = ?h, str_pageSize = of_nat p\<rparr>",
        OF w(2) env p M makes_createSessionRequest6 [of "uninit_request env"] _ _ sends_batch_calls(1) test_env_connected [OF env] asks_closed_calls(1)] env
    by (auto simp: opof_test11_def Let_def holds_sessions_def simp del: status_code.simps One_nat_def)
qed

lemma test10_ok:
  assumes env: "test_env env" and st: "test_state st" and p: "0 < p" "p \<le> BUFFER_MAX" and M: "M < 2 ^ 31"
  shows "\<exists>st'. opof_test10 env a (of_nat M) (of_nat p) port cert st = Some (SUCCESS, st') \<and> holds_sessions st' []"
proof -
  let ?h = "opof_create_sessionTable (new_client env) (ssl env) a (ucast port) cert"
  let ?c = "(conn st)\<lparr>g_deadline := 1\<rparr>"
  obtain w where w: "opof_delete_all_sessions env ?h (sint (of_nat p :: u32)) st =
      Some (SUCCESS, st\<lparr>conn := (conn st)\<lparr>world := w\<rparr>\<rparr>)" "inv w []"
    using deleted_all [OF env st] by blast
  have d: "snd (opof_set_deadline 1 ((conn st)\<lparr>world := w\<rparr>)) = ?c\<lparr>world := w\<rparr>"
    "snd (opof_set_deadline 1 (?c\<lparr>world := w'\<rparr>)) = ?c\<lparr>world := w'\<rparr>" for w'
    by (simp_all add: opof_set_deadline_def Let_def)
  show ?thesis
    using w d add_then_close [where h = ?h and c = ?c and failed = "\<lambda>status. status \<noteq> status_code OK" and
        refused = "\<lambda>status. False" and args = "\<lparr>handle = ?h, str_pageSize = of_nat p\<rparr>",
        OF w(2) env p M makes_createSessionRequest [of "uninit_request env"] _ _ sends_batch_calls(2) test_env_connected [OF env] asks_closed_calls(2)] env
    by (auto simp: opof_test10_def Let_def holds_sessions_def simp del: status_code.simps One_nat_def)
qed

end

context session_client
begin

text \<open>
  The other tests: test 6 offers the sessions twice, test 2 lists them, 3 gets and 4 deletes each,
  7 asks for one that does not exist.
\<close>

lemma added_uncond:
  assumes "inv w []" and env: "test_env env" and p: "0 < p" "p \<le> BUFFER_MAX" and M: "M < 2 ^ 31"
    and "\<not> failed (status_code OK)"
  shows "\<exists>r w'. add_loop (createSessionRequest (uninit_request env)) failed
      (add_call_plain (opof_create_sessionTable (new_client env) (ssl env) a q cert)) (of_nat p) (of_nat M) 0
      (uninit_add env) (c\<lparr>world := w\<rparr>) = Some (False, r, c\<lparr>world := w'\<rparr>) \<and>
    inv w' (offered M) \<and> length (sessionErrors r) = BUFFER_MAX"
  using added [where failed = failed, OF assms(1-5) makes_createSessionRequest assms(6) sends_batch_calls(1)
      test_env_connected [OF env]] .

lemma offered_set: "set (offered M) \<subseteq> set (ids_from 0 M)"
  unfolding offered_def using admit_set [of "[]" limit "ids_from 0 M"] by simp

lemma test2_ok:
  assumes env: "test_env env" and st: "test_state st" and p: "0 < p" "p \<le> BUFFER_MAX" and M: "M < 2 ^ 31"
  shows "\<exists>st'. opof_test2 env a (of_nat M) (of_nat p) port cert st = Some (SUCCESS, offered M, st') \<and>
    holds_sessions st' (offered M)"
proof -
  let ?h = "opof_create_sessionTable (new_client env) (ssl env) a (ucast port) cert"
  obtain w where w: "opof_delete_all_sessions env ?h (sint (of_nat p :: u32)) st =
      Some (SUCCESS, st\<lparr>conn := (conn st)\<lparr>world := w\<rparr>\<rparr>)" "inv w []"
    using deleted_all [OF env st] by blast
  obtain r w2 where add: "add_loop (createSessionRequest (uninit_request env)) (\<lambda>status. status \<noteq> status_code OK)
      (add_call_plain ?h) (of_nat p) (of_nat M) 0 (uninit_add env) ((conn st)\<lparr>world := w\<rparr>) =
      Some (False, r, (conn st)\<lparr>world := w2\<rparr>)" "inv w2 (offered M)"
    using added_uncond [where failed = "\<lambda>status. status \<noteq> status_code OK", OF w(2) env p M] by blast
  have "listing_at UINT_MAX (world ((conn st)\<lparr>world := w2\<rparr>)) (offered M) 0" using add(2) by (simp add: listing_at_def)
  from list_until_none_ok [where h = ?h and pageSize = "sint (of_nat p :: u32)" and seen = "[]" and responses = "responses_init env",
      OF this test_env_connected [OF env] responses_init_length offered_small [OF M] one_neq_zero]
  obtain w3 where "list_until_none ?h (sint (of_nat p :: u32)) UINT_MAX 1 (responses_init env) [] ((conn st)\<lparr>world := w2\<rparr>) =
      Some (offered M, (conn st)\<lparr>world := w3\<rparr>)" "inv w3 (offered M)"
    by auto
  then show ?thesis
    using w add by (simp add: opof_test2_def Let_def holds_sessions_def del: status_code.simps One_nat_def)
qed

lemma test3_ok:
  assumes env: "test_env env" and st: "test_state st" and p: "0 < p" "p \<le> BUFFER_MAX" and M: "M < 2 ^ 31"
  shows "\<exists>st'. opof_test3 env a (of_nat M) (of_nat p) port cert st = Some (SUCCESS, st') \<and> holds_sessions st' (offered M)"
proof -
  let ?h = "opof_create_sessionTable (new_client env) (ssl env) a (ucast port) cert"
  obtain w where w: "opof_delete_all_sessions env ?h (sint (of_nat p :: u32)) st =
      Some (SUCCESS, st\<lparr>conn := (conn st)\<lparr>world := w\<rparr>\<rparr>)" "inv w []"
    using deleted_all [OF env st] by blast
  obtain r w2 where add: "add_loop (createSessionRequest (uninit_request env)) (\<lambda>status. status = FAILURE)
      (add_call_plain ?h) (of_nat p) (of_nat M) 0 (uninit_add env) ((conn st)\<lparr>world := w\<rparr>) =
      Some (False, r, (conn st)\<lparr>world := w2\<rparr>)" "inv w2 (offered M)"
    using added_uncond [where failed = "\<lambda>status. status = FAILURE", OF w(2) env p M status_FAILURE(1)] by blast
  have "inv (world ((conn st)\<lparr>world := w2\<rparr>)) (offered M)" using add(2) by simp
  from each_get_ok [OF this test_env_connected [OF env]] show ?thesis
    using w add by (simp add: opof_test3_def Let_def holds_sessions_def del: status_code.simps)
qed

lemma test4_ok:
  assumes env: "test_env env" and st: "test_state st" and p: "0 < p" "p \<le> BUFFER_MAX" and M: "M < 2 ^ 31"
  shows "\<exists>st'. opof_test4 env a (of_nat M) (of_nat p) port cert st = Some (SUCCESS, st') \<and> holds_sessions st' []"
proof -
  let ?h = "opof_create_sessionTable (new_client env) (ssl env) a (ucast port) cert"
  obtain w where w: "opof_delete_all_sessions env ?h (sint (of_nat p :: u32)) st =
      Some (SUCCESS, st\<lparr>conn := (conn st)\<lparr>world := w\<rparr>\<rparr>)" "inv w []"
    using deleted_all [OF env st] by blast
  obtain r w2 where add: "add_loop (createSessionRequest (uninit_request env)) (\<lambda>status. status = FAILURE)
      (add_call_plain ?h) (of_nat p) (of_nat M) 0 (uninit_add env) ((conn st)\<lparr>world := w\<rparr>) =
      Some (False, r, (conn st)\<lparr>world := w2\<rparr>)" "inv w2 (offered M)"
    using added_uncond [where failed = "\<lambda>status. status = FAILURE", OF w(2) env p M status_FAILURE(1)] by blast
  have i: "inv (world ((conn st)\<lparr>world := w2\<rparr>)) (offered M)" using add(2) by simp
  have all: "filter (\<lambda>k. k \<notin> of_nat ` set [0..<M]) (offered M) = []"
    using offered_set [of M] by (auto simp: filter_empty_conv ids_from_def)
  have js: "\<forall>i\<in>set [0..<nat (sint (of_nat M :: u32))]. i < 2 ^ 31" using M by simp
  obtain w3 where "each_session (opof_del_session ?h) [0..<M] (uninit_rsp env 0) ((conn st)\<lparr>world := w2\<rparr>) =
      Some ((conn st)\<lparr>world := w3\<rparr>)" "inv w3 []"
    using each_del_ok [where h = ?h and resp = "uninit_rsp env 0", OF i test_env_connected [OF env] js] M all by auto
  then show ?thesis
    using w add M by (simp add: opof_test4_def Let_def holds_sessions_def del: status_code.simps)
qed

lemma test6_ok:
  assumes env: "test_env env" and st: "test_state st" and p: "0 < p" "p \<le> BUFFER_MAX" and M: "M < 2 ^ 31"
  shows "\<exists>st'. opof_test6 env a (of_nat M) (of_nat p) port cert st = Some (SUCCESS, st') \<and> holds_sessions st' []"
proof -
  let ?h = "opof_create_sessionTable (new_client env) (ssl env) a (ucast port) cert"
  let ?args = "\<lparr>handle = ?h, str_pageSize = of_nat p\<rparr>" and ?mk = "createSessionRequest (uninit_request env)"
  obtain w where w: "opof_delete_all_sessions env ?h (sint (of_nat p :: u32)) st =
      Some (SUCCESS, st\<lparr>conn := (conn st)\<lparr>world := w\<rparr>\<rparr>)" "inv w []"
    using deleted_all [OF env st] by blast
  obtain r w2 where add: "add_loop ?mk (\<lambda>status. status \<noteq> status_code OK)
      (add_call_plain ?h) (of_nat p) (of_nat M) 0 (uninit_add env) ((conn st)\<lparr>world := w\<rparr>) =
      Some (False, r, (conn st)\<lparr>world := w2\<rparr>)" "inv w2 (offered M)" "length (sessionErrors r) = BUFFER_MAX"
    using added_uncond [where failed = "\<lambda>status. status \<noteq> status_code OK", OF w(2) env p M] by blast
  have i: "inv (world ((conn st)\<lparr>world := w2\<rparr>)) (offered M)" and M0: "0 + M < 2 ^ 31" using add(2) M by simp_all
  obtain r3 w3 where add3: "add_loop ?mk (\<lambda>status. status \<noteq> status_code OK)
      (add_call_plain ?h) (of_nat p) (of_nat M) 0 r ((conn st)\<lparr>world := w2\<rparr>) =
      Some (False, r3, (conn st)\<lparr>world := w3\<rparr>)" "inv w3 (admit limit (offered M) (ids_from 0 M))"
    using add_loop_ok [where failed = "\<lambda>status. status \<noteq> status_code OK", OF i test_env_connected [OF env]
        makes_createSessionRequest [of "uninit_request env"] p M0 add(3) _ sends_batch_calls(1)] by fastforce
  obtain w4 where "closed_until_none (\<lambda>status. False) (opof_get_closed_sessions ?args) 1 (responses_init env)
      ((conn st)\<lparr>world := w3\<rparr>) = Some (False, (conn st)\<lparr>world := w4\<rparr>)" "inv w4 []"
    using closed [where failed = "\<lambda>status. False" and args = ?args, OF add3(2) _ _ p _ asks_closed_calls(1)] env by auto
  then show ?thesis
    using w add add3 by (simp add: opof_test6_def Let_def holds_sessions_def del: status_code.simps One_nat_def)
qed

lemma test7_ok:
  assumes env: "test_env env" and st: "test_state st" and p: "0 < p" "p \<le> BUFFER_MAX" and M: "M + 1 < 2 ^ 31"
  shows "\<exists>st'. opof_test7 env a (of_nat M) (of_nat p) port cert st = Some (SUCCESS, st') \<and> holds_sessions st' (offered M)"
proof -
  let ?h = "opof_create_sessionTable (new_client env) (ssl env) a (ucast port) cert"
  have M': "M < 2 ^ 31" using M by simp
  obtain w where w: "opof_delete_all_sessions env ?h (sint (of_nat p :: u32)) st =
      Some (SUCCESS, st\<lparr>conn := (conn st)\<lparr>world := w\<rparr>\<rparr>)" "inv w []"
    using deleted_all [OF env st] by blast
  obtain r w2 where add: "add_loop (createSessionRequest (uninit_request env)) (\<lambda>status. status = FAILURE)
      (add_call_plain ?h) (of_nat p) (of_nat M) 0 (uninit_add env) ((conn st)\<lparr>world := w\<rparr>) =
      Some (False, r, (conn st)\<lparr>world := w2\<rparr>)" "inv w2 (offered M)"
    using added_uncond [where failed = "\<lambda>status. status = FAILURE", OF w(2) env p M' status_FAILURE(1)] by blast
  let ?k = "scast (of_nat M + 1 :: 32 word) :: u64" and ?c = "(conn st)\<lparr>world := w2\<rparr>"
  have i: "inv (world ?c) (offered M)" using add(2) by simp
  have k: "?k = of_nat (M + 1)" using scast_nat [OF M] by (simp add: add.commute)
  have u: "unat (of_nat n :: u64) = n" if "n < 2 ^ 31" for n using that by (simp add: unat_of_nat)
  have "of_nat (M + 1) \<noteq> (of_nat x :: u64)" if "x < M" for x
    using u [OF M] u [of x] M that by (metis add.commute less_trans not_add_less2 M')
  then have "?k \<notin> set (ids_from 0 M)"
    unfolding k ids_from_def by force
  then have k: "sent_id ?k \<notin> set (offered M)" using offered_set [of M] by auto
  obtain r1 where get: "opof_get_session ?h ?k (uninit_rsp env 0) ?c = Some (status_code NOT_FOUND, r1, ?c)"
    using opof_get_session_ok [where h = ?h and sid = ?k and resp = "uninit_rsp env 0", OF i test_env_connected [OF env]] k by auto
  obtain r4 where del: "opof_del_session ?h ?k r1 ?c = Some (status_code NOT_FOUND, r4, ?c)"
    using opof_del_session_ok [where h = ?h and sid = ?k and resp = r1, OF i test_env_connected [OF env]] k by auto
  show ?thesis
    using w add get del by (simp add: opof_test7_def Let_def holds_sessions_def del: status_code.simps)
qed

end

subsection \<open>The full suite\<close>

lemma run_suite_append:
  "run_suite (ts @ us) st = do {
     (status, st') \<leftarrow> run_suite ts st;
     if status = SUCCESS then run_suite us st' else Some (status, st') }"
  by (induction ts arbitrary: st) (auto simp: SUCCESS_def FAILURE_def split: Option.bind_splits)

text \<open>
  Tests that succeed in every state with \<open>P\<close> and keep it succeed one after the other, and the
  last one decides what holds at the end.
\<close>

lemma run_suite_ok:
  assumes "\<forall>t\<in>set ts. \<forall>st. P st \<longrightarrow> (\<exists>st'. t st = Some (SUCCESS, st') \<and> P st')" and "P st"
  shows "\<exists>st'. run_suite ts st = Some (SUCCESS, st') \<and> P st'"
  using assms
proof (induction ts arbitrary: st)
  case (Cons t ts)
  obtain st' where "t st = Some (SUCCESS, st')" "P st'" using Cons.prems by auto
  then show ?case using Cons.IH [of st'] Cons.prems(1) by simp
qed simp

lemma run_suite_last:
  assumes "\<forall>t\<in>set ts. \<forall>st. P st \<longrightarrow> (\<exists>st'. t st = Some (SUCCESS, st') \<and> P st')" and "P st"
    and "\<And>st. P st \<Longrightarrow> \<exists>st'. t st = Some (SUCCESS, st') \<and> Q st'"
  shows "\<exists>st'. run_suite (ts @ [t]) st = Some (SUCCESS, st') \<and> Q st'"
proof -
  obtain st1 where r: "run_suite ts st = Some (SUCCESS, st1)" "P st1"
    using run_suite_ok [of ts P, OF assms(1,2)] by blast
  then obtain st2 where "t st1 = Some (SUCCESS, st2)" "Q st2" using assms(3) by blast
  then show ?thesis using r by (simp add: run_suite_append)
qed

context session_client
begin

lemma holds_test_state: "holds_sessions st ids \<Longrightarrow> small ids \<Longrightarrow> test_state st"
  by (auto simp: holds_sessions_def test_state_def)

lemma opof_fullTestSuite_ok:
  assumes env: "test_env env" and st: "test_state st"
  shows "\<exists>st'. opof_fullTestSuite env a port cert st = Some (SUCCESS, st') \<and> holds_sessions st' []"
proof -
  have p: "0 < BUFFER_MAX" "BUFFER_MAX \<le> BUFFER_MAX" by (simp_all add: BUFFER_MAX_def)
  let ?P = "of_nat BUFFER_MAX :: u32"
  have keep: "\<exists>st'. opof_test1 env a (of_nat M) ?P port cert st = Some (SUCCESS, st') \<and> test_state st'"
    "\<exists>st'. (do { (status, _, st) \<leftarrow> opof_test2 env a (of_nat M) ?P port cert st; Some (status, st) }) =
      Some (SUCCESS, st') \<and> test_state st'"
    "\<exists>st'. opof_test3 env a (of_nat M) ?P port cert st = Some (SUCCESS, st') \<and> test_state st'"
    "\<exists>st'. opof_test4 env a (of_nat M) ?P port cert st = Some (SUCCESS, st') \<and> test_state st'"
    "\<exists>st'. opof_test5 env a (of_nat M) ?P port cert st = Some (SUCCESS, st') \<and> test_state st'"
    "\<exists>st'. opof_test6 env a (of_nat M) ?P port cert st = Some (SUCCESS, st') \<and> test_state st'"
    "\<exists>st'. opof_test7 env a (of_nat M) ?P port cert st = Some (SUCCESS, st') \<and> test_state st'"
    "\<exists>st'. opof_test8 env a (of_nat M) ?P port cert st = Some (SUCCESS, st') \<and> test_state st'"
    "\<exists>st'. opof_test11 env a (of_nat M) ?P port cert st = Some (SUCCESS, st') \<and> test_state st'"
    if st: "test_state st" and M: "M < 2000" for M st
  proof -
    have M: "M + 1 < 2 ^ 31" "M < 2 ^ 31" using that by simp_all
    note emp = holds_test_state [OF _ small_simps(1)] and off = holds_test_state [OF _ offered_small [OF M(2)]]
    show "\<exists>st'. opof_test1 env a (of_nat M) ?P port cert st = Some (SUCCESS, st') \<and> test_state st'"
      using test1_ok [OF env st p M(2)] emp by blast
    show "\<exists>st'. (do { (status, _, st) \<leftarrow> opof_test2 env a (of_nat M) ?P port cert st; Some (status, st) }) =
      Some (SUCCESS, st') \<and> test_state st'"
      using test2_ok [OF env st p M(2), of a port cert] off by fastforce
    show "\<exists>st'. opof_test3 env a (of_nat M) ?P port cert st = Some (SUCCESS, st') \<and> test_state st'"
      using test3_ok [OF env st p M(2)] off by blast
    show "\<exists>st'. opof_test4 env a (of_nat M) ?P port cert st = Some (SUCCESS, st') \<and> test_state st'"
      using test4_ok [OF env st p M(2)] emp by blast
    show "\<exists>st'. opof_test5 env a (of_nat M) ?P port cert st = Some (SUCCESS, st') \<and> test_state st'"
      using test5_ok [OF env st p M(2)] emp by blast
    show "\<exists>st'. opof_test6 env a (of_nat M) ?P port cert st = Some (SUCCESS, st') \<and> test_state st'"
      using test6_ok [OF env st p M(2)] emp by blast
    show "\<exists>st'. opof_test7 env a (of_nat M) ?P port cert st = Some (SUCCESS, st') \<and> test_state st'"
      using test7_ok [OF env st p M(1)] off by blast
    show "\<exists>st'. opof_test8 env a (of_nat M) ?P port cert st = Some (SUCCESS, st') \<and> test_state st'"
      using test8_ok [OF env st p M(2)] emp by blast
    show "\<exists>st'. opof_test11 env a (of_nat M) ?P port cert st = Some (SUCCESS, st') \<and> test_state st'"
      using test11_ok [OF env st p M(2)] emp by blast
  qed
  note keep = keep [where M = 19, simplified] keep [where M = 72, simplified]
    keep [where M = 384, simplified] keep [where M = 1019, simplified]
  let ?t1 = "\<lambda>n. opof_test1 env a n ?P port cert"
    and ?t2 = "\<lambda>n st. do { (status, _, st) \<leftarrow> opof_test2 env a n ?P port cert st; Some (status, st) }"
    and ?t3 = "\<lambda>n. opof_test3 env a n ?P port cert" and ?t4 = "\<lambda>n. opof_test4 env a n ?P port cert"
    and ?t5 = "\<lambda>n. opof_test5 env a n ?P port cert" and ?t6 = "\<lambda>n. opof_test6 env a n ?P port cert"
    and ?t7 = "\<lambda>n. opof_test7 env a n ?P port cert" and ?t8 = "\<lambda>n. opof_test8 env a n ?P port cert"
    and ?t11 = "\<lambda>n. opof_test11 env a n ?P port cert"
  let ?all = "\<lambda>n. [?t1 n, ?t2 n, ?t3 n, ?t4 n, ?t5 n, ?t6 n, ?t7 n, ?t8 n]"
  let ?ts = "[?t1 19, ?t2 19, ?t3 19, ?t4 19] @ ?all 72 @ [?t11 72] @ ?all 384 @ [?t11 384] @ ?all 1019"
  have suite: "opof_fullTestSuite env a port cert st = run_suite (?ts @ [?t11 1019]) st"
    by (simp add: opof_fullTestSuite_def suite_rounds_def small_buffer_tests_def medium_buffer_tests_def
        large_buffer_tests_def cache_overflow_tests_def suite_test_def Let_def del: run_suite.simps)
  have ts: "\<forall>t\<in>set ?ts. \<forall>st. test_state st \<longrightarrow> (\<exists>st'. t st = Some (SUCCESS, st') \<and> test_state st')"
    using keep by (simp del: run_suite.simps)
  have "\<exists>st'. ?t11 1019 st = Some (SUCCESS, st') \<and> holds_sessions st' []" if "test_state st" for st
    using test11_ok [OF env that p, of 1019] by simp
  then show ?thesis unfolding suite by (intro run_suite_last [where P = test_state, OF ts st]) blast
qed

end

context session_client
begin

text \<open>A session whose id does not fit in an \<open>int\<close> is listed but cannot be deleted.\<close>

lemma delete_all_keeps_large:
  assumes inv: "inv (world (conn st)) [k]" and h: "connected (obj h)" and k: "sent_id k \<noteq> k" "k \<noteq> UINT_MAX"
  shows "\<exists>w. opof_delete_all_sessions env h pageSize st = Some (SUCCESS, st\<lparr>conn := (conn st)\<lparr>world := w\<rparr>\<rparr>) \<and> inv w [k]"
proof -
  let ?c = "conn st"
  have page: "take BUFFER_MAX [k] = [k]" by (simp add: BUFFER_MAX_def)
  obtain rs1 w1 where r1: "opof_get_all_sessions h UINT_MAX pageSize (responses_init env) ?c =
      Some (status_code OK, k, 1, rs1, ?c\<lparr>world := w1\<rparr>)" "length rs1 = BUFFER_MAX" "first_ids 1 rs1 = [k]" "at w1 [k] 1"
    using opof_get_all_sessions_first [of ?c "[k]" h "responses_init env" pageSize] inv h
    unfolding page by (auto simp: responses_init_def)
  let ?k = "scast (ucast (rsp_sessionId (rs1 ! 0)) :: 32 word) :: u64"
  have kk: "rsp_sessionId (rs1 ! 0) = k" "0 < length rs1"
    using r1(2,3) by (auto simp: first_ids_def BUFFER_MAX_def take_Suc_conv_app_nth)
  have nin: "sent_id ?k \<notin> set [k]" using k(1) kk(1) by (simp add: sent_id_def)
  have inv1: "inv (world (?c\<lparr>world := w1\<rparr>)) [k]" using at_inv [OF r1(4)] by simp
  obtain rsp where del: "opof_del_session h ?k (uninit_rsp env 0) (?c\<lparr>world := w1\<rparr>) =
      Some (status_code NOT_FOUND, rsp, ?c\<lparr>world := w1\<rparr>)"
    using opof_del_session_ok [where h = h and sid = ?k and resp = "uninit_rsp env 0", OF inv1 h] nin by auto
  have at1: "at (world (?c\<lparr>world := w1\<rparr>)) [k] 1" using r1(4) by simp
  obtain rs2 w2 where r2: "opof_get_all_sessions h k pageSize rs1 (?c\<lparr>world := w1\<rparr>) =
      Some (status_code OK, k, 0, rs2, ?c\<lparr>world := w2\<rparr>)" "at w2 [k] 1"
    using opof_get_all_sessions_next [OF at1 h _ k(2), of rs1 pageSize] r1(2) by auto
  have step1: "with_retry env st (get_all_call h pageSize) (UINT_MAX, 1, responses_init env) ?c =
      Some (status_code OK, (k, 1, rs1), ?c\<lparr>world := w1\<rparr>)"
    using r1(1) by (intro with_retry_first) (simp_all add: get_all_call_def)
  have step2: "with_retry env st (Run_Tests.del_call h (ucast (rsp_sessionId (rs1 ! 0)))) (uninit_rsp env 0) (?c\<lparr>world := w1\<rparr>) =
      Some (status_code NOT_FOUND, rsp, ?c\<lparr>world := w1\<rparr>)"
    using del by (intro with_retry_first) (simp_all add: Run_Tests.del_call_def)
  have step3: "with_retry env st (get_all_call h pageSize) (k, 1, rs1) (?c\<lparr>world := w1\<rparr>) =
      Some (status_code OK, (k, 0, rs2), ?c\<lparr>world := w2\<rparr>)"
    using r2(1) by (intro with_retry_first) (simp_all add: get_all_call_def)
  have page1: "delete_page env st h rs1 [0..<1] (status_code OK) (uninit_rsp env 0) (?c\<lparr>world := w1\<rparr>) =
      Some (status_code NOT_FOUND, rsp, ?c\<lparr>world := w1\<rparr>)"
    using step2 kk(2) by simp
  have loop1: "delete_all_loop env st h pageSize (UINT_MAX, 1, responses_init env) SUCCESS (uninit_rsp env 0) ?c =
      delete_all_loop env st h pageSize (k, 1, rs1) (status_code NOT_FOUND) rsp (?c\<lparr>world := w1\<rparr>)"
    by (subst delete_all_loop.simps) (simp add: step1 page1 del: status_code.simps One_nat_def)
  have loop2: "delete_all_loop env st h pageSize (k, 1, rs1) (status_code NOT_FOUND) rsp (?c\<lparr>world := w1\<rparr>) =
      delete_all_loop env st h pageSize (k, 0, rs2) (status_code OK) rsp (?c\<lparr>world := w2\<rparr>)"
    by (subst delete_all_loop.simps) (simp add: step3 del: status_code.simps One_nat_def)
  have "delete_all_loop env st h pageSize (UINT_MAX, 1, responses_init env) SUCCESS (uninit_rsp env 0) ?c =
      Some (status_code OK, ?c\<lparr>world := w2\<rparr>)"
    unfolding loop1 loop2 by (subst delete_all_loop.simps) simp
  then show ?thesis
    using at_inv [OF r2(2)] by (intro exI [of _ w2]) (simp add: opof_delete_all_sessions_def SUCCESS_def)
qed

end

end
