(* ===== verification/End_To_End.thy ===== *)
theory End_To_End
  imports Server_Backend Test_Client
begin

text \<open>
  Client library and test programs against the test server: every call of the stub is performed
  by the handlers of \<open>Session_Server\<close> over the session store of \<open>Server_Store\<close>.
\<close>

subsection \<open>The connection\<close>

text \<open>
  A stub of a channel to the server whose calls all end before their deadline: what gRPC
  documents for such calls. The handler's variables may hold anything before they are assigned.
\<close>

definition served :: "server stub \<Rightarrow> bool" where
  "served stub \<longleftrightarrow>
     (\<forall>d ms s. \<exists>request_c. stub_addSession stub d ms s = reply default_addSessionResponse
       (addSession opof_add_session_server (\<lambda>_. False) request_c ms default_addSessionResponse s)) \<and>
     (\<forall>d sid s. \<exists>c. stub_getSession stub d sid s = reply default_sessionResponse
       (getSession opof_get_session_server False c sid default_sessionResponse s)) \<and>
     (\<forall>d sid s. \<exists>c. stub_deleteSession stub d sid s = reply default_sessionResponse
       (deleteSession opof_del_session_server False c sid default_sessionResponse s)) \<and>
     (\<forall>d q s. \<exists>uninit page. stub_getClosedSessions stub d q s =
       getClosedSessions opof_get_closed_sessions_server False uninit page q s) \<and>
     (\<forall>d q s. \<exists>uninit. stub_getAllSessions stub d q s = reply default_sessionResponses
       (getAllSessions opof_get_all_sessions_server False uninit q default_sessionResponses s))"

interpretation lib: session_client holds_ids holds_at HASHTABLE_SIZE
  opof_add_session_server opof_get_session_server opof_del_session_server
  opof_get_closed_sessions_server opof_get_all_sessions_server served
  by unfold_locales (auto simp: served_def)

text \<open>A stub in the same process, for the examples: fixed contents for the uninitialised variables.\<close>

definition in_process :: "server stub" where
  "in_process = \<lparr>
     stub_addSession = (\<lambda>d ms s. reply default_addSessionResponse
       (addSession opof_add_session_server (\<lambda>_. False) (ex_request 0) ms default_addSessionResponse s)),
     stub_getSession = (\<lambda>d sid s. reply default_sessionResponse
       (getSession opof_get_session_server False ex_rsp sid default_sessionResponse s)),
     stub_deleteSession = (\<lambda>d sid s. reply default_sessionResponse
       (deleteSession opof_del_session_server False ex_rsp sid default_sessionResponse s)),
     stub_getClosedSessions = (\<lambda>d q s. getClosedSessions opof_get_closed_sessions_server False (\<lambda>_. ex_rsp) 0 q s),
     stub_getAllSessions = (\<lambda>d q s. reply default_sessionResponses
       (getAllSessions opof_get_all_sessions_server False (\<lambda>_. ex_rsp) q default_sessionResponses s))\<rparr>"

lemma served_in_process [simp]: "served in_process"
  unfolding served_def by (auto simp: in_process_def)

subsection \<open>The client library\<close>

lemma sent_id_range: "- (2 ^ 31) \<le> sint (sent_id sid) \<and> sint (sent_id sid) < 2 ^ 31"
proof -
  have r: "- (2 ^ 31) \<le> sint (ucast sid :: 32 word)" "sint (ucast sid :: 32 word) < 2 ^ 31"
    using sint_range_size [of "ucast sid :: 32 word"] by (simp_all add: word_size)
  then have "sint (sent_id sid) = sint (ucast sid :: 32 word)"
    by (simp add: sent_id_def signed_scast_eq signed_take_bit_int_eq_self)
  then show ?thesis using r by simp
qed

lemma sent_id_large:
  assumes "\<not> sid < 2 ^ 31" and "sint sid < - (2 ^ 31) \<or> 0 \<le> sint sid"
  shows "sent_id sid \<noteq> sid"
proof
  assume eq: "sent_id sid = sid"
  then have r: "0 \<le> sint sid" "sint sid < 2 ^ 31" using sent_id_range [of sid] assms(2) by auto
  then have "uint sid = sint sid" by (simp add: uint_sint take_bit_int_eq_self)
  then show False using r assms(1) by (simp add: word_less_def)
qed

text \<open>
  C3: \<open>opof_add_session\<close> on a connected client returns \<open>OK\<close>; the response lists
  exactly the requests that the server refused, in their order, each with its status; the others
  are on the server, in their order, behind those that were there.
\<close>

theorem client_add_correct:
  assumes "holds_ids (world c) ids" and "served (obj h)" and "n \<le> length req"
    and "\<forall>r\<in>set (take n req). ipver r = ipver_code IPV6 \<longrightarrow> wf_sessionRequest_t r"
    and "n \<le> length (sessionErrors resp)"
  defines "refused \<equiv> rejects HASHTABLE_SIZE ids (map sessId (take n req))"
  shows "\<exists>resp' w. opof_add_session (int n) h req resp c = Some (status_code OK, resp', c\<lparr>world := w\<rparr>) \<and>
    holds_ids w (admit HASHTABLE_SIZE ids (map sessId (take n req))) \<and>
    number_errors resp' = of_nat (length refused) \<and>
    take (length refused) (sessionErrors resp') =
      map (\<lambda>e. \<lparr>err_sessionId = pbe_sessionId e, err_errorStatus = pbe_errorStatus e\<rparr>) refused"
proof -
  have "length refused \<le> length (sessionErrors resp)"
    using rejects_length [of HASHTABLE_SIZE ids "map sessId (take n req)"] assms(3,5) by (simp add: refused_def)
  then show ?thesis
    using lib.opof_add_session_ok [OF assms(1,2) refl assms(3)] assms(4)
    unfolding refused_def sendable_def client_errors_def by blast
qed

text \<open>
  C6: the id that \<open>opof_get_session\<close> and \<open>opof_del_session\<close> ask the server for is
  the low 32 bits of the id given, sign-extended: deleting \<open>k + 2^32\<close> deletes session \<open>k\<close>, and a
  session whose id does not fit in an \<open>int\<close> is never found.
\<close>

theorem client_id_truncated:
  fixes sid :: u64
  assumes "holds_ids (world c) ids" and "served (obj h)"
  defines "sid' \<equiv> scast (ucast sid :: 32 word) :: u64"
  shows "(\<exists>r. opof_get_session h sid resp c = Some (status_code (if sid' \<in> set ids then OK else NOT_FOUND), r, c) \<and>
      (sid' \<in> set ids \<longrightarrow> rsp_sessionId r = sid')) \<and>
    (\<exists>r w. opof_del_session h sid resp c =
        Some (status_code (if sid' \<in> set ids then OK else NOT_FOUND), r, c\<lparr>world := w\<rparr>) \<and>
      holds_ids w (removeAll sid' ids)) \<and>
    (if sid < 2 ^ 31 then sid' = sid else sint sid < - (2 ^ 31) \<or> 0 \<le> sint sid \<longrightarrow> sid' \<noteq> sid)"
proof (intro conjI)
  have s: "sid' = sent_id sid" by (simp add: sid'_def sent_id_def)
  show "\<exists>r. opof_get_session h sid resp c = Some (status_code (if sid' \<in> set ids then OK else NOT_FOUND), r, c) \<and>
      (sid' \<in> set ids \<longrightarrow> rsp_sessionId r = sid')"
    using lib.opof_get_session_ok [where h = h and sid = sid and resp = resp, OF assms(1,2)] unfolding s by metis
  show "\<exists>r w. opof_del_session h sid resp c =
        Some (status_code (if sid' \<in> set ids then OK else NOT_FOUND), r, c\<lparr>world := w\<rparr>) \<and>
      holds_ids w (removeAll sid' ids)"
    using lib.opof_del_session_ok [where h = h and sid = sid and resp = resp, OF assms(1,2)] unfolding s by blast
  show "if sid < 2 ^ 31 then sid' = sid else sint sid < - (2 ^ 31) \<or> 0 \<le> sint sid \<longrightarrow> sid' \<noteq> sid"
    using sent_id_small [of sid] sent_id_large [of sid] unfolding s by simp
qed

subsection \<open>The test programs\<close>

lemma test_env_served:
  "\<forall>address cert. served (new_client env address cert) \<Longrightarrow> length (sessionErrors (uninit_add env)) = BUFFER_MAX \<Longrightarrow>
   lib.test_env env"
  by (simp add: lib.test_env_def)

lemma test_state_holds:
  "holds_ids (world (conn st)) ids \<Longrightarrow> \<forall>k\<in>set ids. k < 2 ^ 31 \<Longrightarrow> lib.test_state st"
  unfolding lib.test_state_def small_def by blast

text \<open>
  C4: \<open>opof_delete_all_sessions\<close> ends with \<open>SUCCESS\<close> and leaves no session on
  the server, however many there are and wherever the last listing of the server stands, when all
  ids fit in an \<open>int\<close>.
\<close>

theorem delete_all_sessions_ends:
  assumes "holds_ids (world (conn st)) ids" and "served (obj h)" and "\<forall>k\<in>set ids. k < 2 ^ 31"
  shows "\<exists>w. opof_delete_all_sessions env h pageSize st = Some (SUCCESS, st\<lparr>conn := (conn st)\<lparr>world := w\<rparr>\<rparr>) \<and>
    holds_ids w []"
  using lib.opof_delete_all_sessions_ok [OF assms(1,2)] assms(3) by (simp add: small_def)

text \<open>
  A session whose id does not fit in an \<open>int\<close> (and is not
  \<open>UINT_MAX\<close>) stays on the server when all sessions are deleted, and the call reports \<open>SUCCESS\<close>.
\<close>

theorem delete_all_keeps_large_id:
  assumes "holds_ids (world (conn st)) [k]" and "served (obj h)"
    and "\<not> k < 2 ^ 31" and "sint k < - (2 ^ 31) \<or> 0 \<le> sint k" and "k \<noteq> UINT_MAX"
  shows "\<exists>w. opof_delete_all_sessions env h pageSize st = Some (SUCCESS, st\<lparr>conn := (conn st)\<lparr>world := w\<rparr>\<rparr>) \<and>
    holds_ids w [k]"
  by (rule lib.delete_all_keeps_large [OF assms(1,2) sent_id_large [OF assms(3,4)] assms(5)])

text \<open>
  C5: test 2 ends with \<open>SUCCESS\<close>; the pages it prints contain the sessions
  it added, each once and in the order in which it added them, up to the 1001 that the server takes.
\<close>

theorem test2_lists_all:
  assumes "holds_ids (world (conn st)) ids" and "\<forall>k\<in>set ids. k < 2 ^ 31"
    and "\<forall>address cert. served (new_client env address cert)" and "length (sessionErrors (uninit_add env)) = BUFFER_MAX"
    and "0 < p" and "p \<le> BUFFER_MAX" and "M < 2 ^ 31"
  shows "\<exists>st'. opof_test2 env address (of_nat M) (of_nat p) port cert st =
      Some (SUCCESS, map of_nat [0..<min M (HASHTABLE_SIZE + 1)], st') \<and>
    holds_ids (world (conn st')) (map of_nat [0..<min M (HASHTABLE_SIZE + 1)])"
  using lib.test2_ok [OF test_env_served [OF assms(3,4)] test_state_holds [OF assms(1,2)] assms(5-7)]
  by (simp add: lib.offered_eq [OF assms(7)] ids_from_def lib.holds_sessions_def)

text \<open>
  Test 6, which adds the same sessions twice, ends with \<open>SUCCESS\<close>: duplicates
  do not make a call fail, and after the closed sessions have been taken the server is empty.
\<close>

theorem test6_duplicates:
  assumes "holds_ids (world (conn st)) ids" and "\<forall>k\<in>set ids. k < 2 ^ 31"
    and "\<forall>address cert. served (new_client env address cert)" and "length (sessionErrors (uninit_add env)) = BUFFER_MAX"
    and "0 < p" and "p \<le> BUFFER_MAX" and "M < 2 ^ 31"
  shows "\<exists>st'. opof_test6 env address (of_nat M) (of_nat p) port cert st = Some (SUCCESS, st') \<and>
    holds_ids (world (conn st')) []"
  using lib.test6_ok [OF test_env_served [OF assms(3,4)] test_state_holds [OF assms(1,2)] assms(5-7)]
  by (simp add: lib.holds_sessions_def)

text \<open>
  C1: against a server that holds any sessions with ids below \<open>2^31\<close>, the
  full test suite ends, with \<open>SUCCESS\<close>, and leaves the server empty.
\<close>

theorem full_suite_succeeds:
  assumes "holds_ids (world (conn st)) ids" and "\<forall>k\<in>set ids. k < 2 ^ 31"
    and "\<forall>address cert. served (new_client env address cert)" and "length (sessionErrors (uninit_add env)) = BUFFER_MAX"
  shows "\<exists>st'. opof_fullTestSuite env address port cert st = Some (SUCCESS, st') \<and> holds_ids (world (conn st')) []"
  using lib.opof_fullTestSuite_ok [OF test_env_served [OF assms(3,4)] test_state_holds [OF assms(1,2)]]
  by (simp add: lib.holds_sessions_def)

text \<open>
  A call whose status is \<open>UNAVAILABLE\<close> is repeated until another status or until
  the number of attempts is used up: the result is that of the first try with another status, or
  of the last one, and no further call is made. (\<open>sts i\<close> is the status of try \<open>i\<close>; \<open>rs\<close> and \<open>cs\<close>
  are the results and states between the tries.)
\<close>

theorem retry_bounded:
  assumes "call (rs 0) (cs 0) = Some (sts 0, rs 1, cs 1)"
    and "\<forall>i\<in>{1..nat (getRetryAttempts st)}.
      call (rs i) (sleep_world env (getRetryInterval st) (cs i)) = Some (sts i, rs (i + 1), cs (i + 1))"
    and "\<forall>i<j. sts i = status_code UNAVAILABLE" and "j \<le> nat (getRetryAttempts st)"
    and "sts j = status_code UNAVAILABLE \<longrightarrow> j = nat (getRetryAttempts st)"
  shows "with_retry env st call (rs 0) (cs 0) = Some (sts j, rs (j + 1), cs (j + 1))"
proof (cases "j = 0")
  case True
  then show ?thesis using assms(1,5) by (auto simp: with_retry_def)
next
  case False
  let ?pause = "sleep_world env (getRetryInterval st)" and ?n = "nat (getRetryAttempts st)"
  have "retry_loop ?n ?pause call (sts 0) (rs (Suc 0)) (cs (Suc 0)) = Some (sts j, rs (Suc j), cs (Suc j))"
    by (rule retry_loop_stops [where rs = "\<lambda>i. rs (Suc i)" and cs = "\<lambda>i. cs (Suc i)"]) (use assms False in auto)
  then show ?thesis using assms(1,3) False by (simp add: with_retry_def)
qed

subsection \<open>The properties on a concrete client\<close>

definition ex_client :: "server \<Rightarrow> server client" where
  "ex_client s = \<lparr>g_deadline = initial_deadline, world = s\<rparr>"

definition ex_handle :: "server sessionTable_t" where
  "ex_handle = \<lparr>obj = in_process\<rparr>"

definition ex_tester :: "server \<Rightarrow> server tester" where
  "ex_tester s = \<lparr>conn = ex_client s, g_retryInterval = 15, g_retryAttempts = 100\<rparr>"

definition ex_add_response :: addSessionResponse_t where
  "ex_add_response = \<lparr>add_requestStatus = 0, sessionErrors = replicate 64 \<lparr>err_sessionId = 0, err_errorStatus = 0\<rparr>,
     number_errors = 0, add_errorStatus = 0\<rparr>"

definition ex_env :: "server env" where
  "ex_env = \<lparr>new_client = (\<lambda>_ _. in_process), ssl = True, sleep = (\<lambda>_ s. s), kill_server = (\<lambda>s. s),
     start_server = (\<lambda>s. s), uninit_request = (\<lambda>_. ex_request 0), uninit_add = ex_add_response,
     uninit_rsp = (\<lambda>_. ex_rsp)\<rparr>"

lemma ex_simps [simp]:
  "world (ex_client s) = s" "served (obj ex_handle)" "world (conn (ex_tester s)) = s"
  "\<forall>address cert. served (new_client ex_env address cert)" "length (sessionErrors (uninit_add ex_env)) = BUFFER_MAX"
  "length (sessionErrors ex_add_response) = 64"
  by (simp_all add: ex_client_def ex_handle_def ex_tester_def ex_env_def ex_add_response_def BUFFER_MAX_def)

lemma client_add_correct_witness:
  "\<exists>s resp' c'. run_all add_ok (map ex_request [1, 2, 3]) (server_init ex_rng) = Some s \<and>
     opof_add_session 2 ex_handle [ex_request 2, ex_request 4] ex_add_response (ex_client s) =
       Some (status_code OK, resp', c') \<and> number_errors resp' = 1 \<and> holds_ids (world c') [1, 2, 3, 4]"
proof -
  obtain s where s: "run_all add_ok (map ex_request [1, 2, 3]) (server_init ex_rng) = Some s"
    and h: "holds_ids s [1, 2, 3]" by (rule ex_holds)
  have h': "holds_ids (world (ex_client s)) [1, 2, 3]" using h by simp
  have n: "2 \<le> length [ex_request 2, ex_request 4]" "2 \<le> length (sessionErrors ex_add_response)"
    and v: "\<forall>r\<in>set (take 2 [ex_request 2, ex_request 4]). ipver r = ipver_code IPV6 \<longrightarrow> wf_sessionRequest_t r"
    by (simp_all add: ex_request_def)
  show ?thesis
    using s client_add_correct [OF h' ex_simps(2) n(1) v n(2)]
    by (fastforce simp: ex_request_def admit_status_def HASHTABLE_SIZE_def)
qed

lemma client_id_truncated_witness:
  "\<exists>s r c'. run_all add_ok (map ex_request [1, 2, 3]) (server_init ex_rng) = Some s \<and>
     opof_del_session ex_handle (2 ^ 32 + 2) ex_rsp (ex_client s) = Some (status_code OK, r, c') \<and>
     holds_ids (world c') [1, 3]"
proof -
  obtain s where s: "run_all add_ok (map ex_request [1, 2, 3]) (server_init ex_rng) = Some s"
    and h: "holds_ids s [1, 2, 3]" by (rule ex_holds)
  have h': "holds_ids (world (ex_client s)) [1, 2, 3]" using h by simp
  have k: "scast (ucast (2 ^ 32 + 2 :: u64) :: 32 word) = (2 :: u64)" by simp
  show ?thesis
    using s client_id_truncated [OF h' ex_simps(2), of "2 ^ 32 + 2" ex_rsp] unfolding k by fastforce
qed

lemma delete_all_sessions_ends_witness:
  "\<exists>s st'. run_all add_ok (map ex_request [1, 2, 3]) (server_init ex_rng) = Some s \<and>
     opof_delete_all_sessions ex_env ex_handle 64 (ex_tester s) = Some (SUCCESS, st') \<and> holds_ids (world (conn st')) []"
proof -
  obtain s where s: "run_all add_ok (map ex_request [1, 2, 3]) (server_init ex_rng) = Some s"
    and h: "holds_ids s [1, 2, 3]" by (rule ex_holds)
  have h': "holds_ids (world (conn (ex_tester s))) [1, 2, 3]" using h by simp
  show ?thesis using s delete_all_sessions_ends [OF h' ex_simps(2), of ex_env 64] by fastforce
qed

lemma ex_holds_one:
  obtains s where "run_all add_ok [ex_request k] (server_init ex_rng) = Some s" and "holds_ids s [k]"
proof -
  obtain s T where s: "run_all add_ok (map ex_request [k]) (server_init ex_rng) = Some s" "server_inv s T"
    and T: "map key T = [k]" "filter is_closed T = T"
    using ex_store [of "[k]"] by (auto simp: HASHTABLE_SIZE_def)
  then have "holds_ids s [k]" unfolding holds_ids_def by (auto simp: filter_id_conv)
  then show thesis using that s(1) by simp
qed

lemma delete_all_keeps_large_id_witness:
  "\<exists>s st'. run_all add_ok [ex_request (2 ^ 32)] (server_init ex_rng) = Some s \<and>
     opof_delete_all_sessions ex_env ex_handle 64 (ex_tester s) = Some (SUCCESS, st') \<and>
     holds_ids (world (conn st')) [2 ^ 32]"
proof -
  obtain s where s: "run_all add_ok [ex_request (2 ^ 32)] (server_init ex_rng) = Some s"
    and h: "holds_ids s [2 ^ 32]" by (rule ex_holds_one)
  have h': "holds_ids (world (conn (ex_tester s))) [2 ^ 32]" using h by simp
  have "\<not> (2 ^ 32 :: u64) < 2 ^ 31" "sint (2 ^ 32 :: u64) < - (2 ^ 31) \<or> 0 \<le> sint (2 ^ 32 :: u64)"
    "(2 ^ 32 :: u64) \<noteq> UINT_MAX" by (simp_all add: UINT_MAX_def)
  from delete_all_keeps_large_id [OF h' ex_simps(2) this, of ex_env 64] show ?thesis using s by fastforce
qed

lemma test2_lists_all_witness:
  "\<exists>s st'. run_all add_ok (map ex_request [1, 2, 3]) (server_init ex_rng) = Some s \<and>
     opof_test2 ex_env ''localhost'' 4 2 3443 [] (ex_tester s) = Some (SUCCESS, [0, 1, 2, 3], st')"
proof -
  obtain s where s: "run_all add_ok (map ex_request [1, 2, 3]) (server_init ex_rng) = Some s"
    and h: "holds_ids s [1, 2, 3]" by (rule ex_holds)
  have h': "holds_ids (world (conn (ex_tester s))) [1, 2, 3]" using h by simp
  have k: "\<forall>k\<in>set [1, 2, 3 :: u64]. k < 2 ^ 31" by simp
  have l: "map of_nat [0..<min 4 (HASHTABLE_SIZE + 1)] = [0, 1, 2, 3 :: u64]"
    by (simp add: HASHTABLE_SIZE_def upt_rec)
  have p: "0 < (2 :: nat)" "2 \<le> BUFFER_MAX" "4 < (2 :: nat) ^ 31" by (simp_all add: BUFFER_MAX_def)
  show ?thesis using s test2_lists_all [OF h' k ex_simps(4,5) p, of "''localhost''" 3443 "[]"] unfolding l by auto
qed

lemma test6_duplicates_witness:
  "\<exists>s st'. run_all add_ok (map ex_request [1, 2, 3]) (server_init ex_rng) = Some s \<and>
     opof_test6 ex_env ''localhost'' 100 64 3443 [] (ex_tester s) = Some (SUCCESS, st') \<and> holds_ids (world (conn st')) []"
proof -
  obtain s where s: "run_all add_ok (map ex_request [1, 2, 3]) (server_init ex_rng) = Some s"
    and h: "holds_ids s [1, 2, 3]" by (rule ex_holds)
  have h': "holds_ids (world (conn (ex_tester s))) [1, 2, 3]" using h by simp
  have k: "\<forall>k\<in>set [1, 2, 3 :: u64]. k < 2 ^ 31" by simp
  have p: "0 < (64 :: nat)" "64 \<le> BUFFER_MAX" "100 < (2 :: nat) ^ 31" by (simp_all add: BUFFER_MAX_def)
  show ?thesis using s test6_duplicates [OF h' k ex_simps(4,5) p, of "''localhost''" 3443 "[]"] by auto
qed

lemma full_suite_succeeds_witness:
  "\<exists>s st'. run_all add_ok (map ex_request [1, 2, 3]) (server_init ex_rng) = Some s \<and>
     opof_fullTestSuite ex_env ''localhost'' 3443 [] (ex_tester s) = Some (SUCCESS, st') \<and>
     holds_ids (world (conn st')) []"
proof -
  obtain s where s: "run_all add_ok (map ex_request [1, 2, 3]) (server_init ex_rng) = Some s"
    and h: "holds_ids s [1, 2, 3]" by (rule ex_holds)
  have h': "holds_ids (world (conn (ex_tester s))) [1, 2, 3]" using h by simp
  have k: "\<forall>k\<in>set [1, 2, 3 :: u64]. k < 2 ^ 31" by simp
  show ?thesis using s full_suite_succeeds [OF h' k ex_simps(4,5), of "''localhost''" 3443 "[]"] by auto
qed

text \<open>A call that is unavailable twice and then succeeds.\<close>

lemma retry_bounded_witness:
  "with_retry ex_env (ex_tester (server_init ex_rng))
     (\<lambda>n c. Some (if n < 2 then status_code UNAVAILABLE else status_code OK, n + 1, c)) (0 :: nat)
     (ex_client (server_init ex_rng)) = Some (status_code OK, 3, ex_client (server_init ex_rng))"
proof -
  let ?c = "ex_client (server_init ex_rng)"
  have w: "sleep_world ex_env i ?c = ?c" for i by (simp add: sleep_world_def ex_env_def)
  have n: "nat (getRetryAttempts (ex_tester (server_init ex_rng))) = 100" by (simp add: getRetryAttempts_def ex_tester_def)
  show ?thesis
    using retry_bounded [of "\<lambda>n c. Some (if n < 2 then status_code UNAVAILABLE else status_code OK, n + 1, c)" "\<lambda>i. i"
        "\<lambda>i. ?c" "\<lambda>i. if i < 2 then status_code UNAVAILABLE else status_code OK" "ex_tester (server_init ex_rng)" ex_env 2]
    by (simp add: w n)
qed

end
