(* ===== verification/Program_Props.thy ===== *)
theory Program_Props
  imports Programs End_To_End
begin

text \<open>
  The two programs: reading a certificate, the options, and a run of the client from its command
  line to the state of the server. A buffer of the C code is a list of its length with unknown
  contents.
\<close>

lemma get_key_found:
  assumes "length buf = 2048" and "fs filename = Some content"
  shows "\<exists>status buf'. get_key fs filename buf = Some (status, buf') \<and> status \<noteq> FAILURE \<and>
    unat status = min 2047 (length content) + 1 \<and> length buf' = 2048 \<and>
    c_string buf' = Some (takeWhile (\<lambda>c. c \<noteq> NUL) (take 2047 content))"
proof -
  let ?n = "min 2047 (length content)"
  let ?b = "take ?n content @ drop ?n buf"
  have n: "?n < length ?b" and len: "length ?b = 2048" using assms(1) by auto
  have w: "write_chars buf 0 (take ?n content) = Some ?b"
    using assms(1) by (simp add: write_chars_def min_def)
  have "?b[?n := NUL] = take ?n content @ NUL # drop (Suc ?n) buf"
    using assms(1) by (simp add: list_update_append drop_update_cancel flip: Cons_nth_drop_Suc)
  moreover have "take ?n content = take 2047 content" by (simp add: min_def)
  ultimately have b: "?b[?n := NUL] = take 2047 content @ NUL # drop (Suc ?n) buf" by simp
  have s: "c_string (?b[?n := NUL]) = Some (takeWhile (\<lambda>c. c \<noteq> NUL) (take 2047 content))"
    unfolding b by (auto simp: c_string_def takeWhile_append intro!: sym [OF takeWhile_eq_all_conv [THEN iffD2]])
  have u: "unat (of_nat (?n + 1) :: u32) = ?n + 1" by (simp add: unat_of_nat del: of_nat_add of_nat_Suc)
  have "unat FAILURE = 2 ^ 32 - 1" by (simp add: FAILURE_def unsigned_minus_1_eq_mask mask_eq_exp_minus_1)
  then have "unat (of_nat (?n + 1) :: u32) \<noteq> unat FAILURE" unfolding u by simp
  then have "(of_nat (?n + 1) :: u32) \<noteq> FAILURE" by metis
  then show ?thesis using w n len s u assms(2) by (simp add: get_key_def Let_def)
qed

text \<open>
  \<open>get_key\<close> with a buffer of 2048 bytes returns \<open>FAILURE\<close> exactly when the file cannot
  be opened, and then leaves the buffer alone; otherwise the buffer holds the first 2047 bytes of
  the file, cut at a NUL, as a string, and nothing is written outside it.
\<close>

theorem get_key_bounds:
  assumes "length buf = 2048"
  shows "case fs filename of
      None \<Rightarrow> get_key fs filename buf = Some (FAILURE, buf)
    | Some content \<Rightarrow> \<exists>status buf'. get_key fs filename buf = Some (status, buf') \<and> status \<noteq> FAILURE \<and>
        unat status = min 2047 (length content) + 1 \<and> length buf' = 2048 \<and>
        c_string buf' = Some (takeWhile (\<lambda>c. c \<noteq> NUL) (take 2047 content))"
  using get_key_found [OF assms, of fs filename] by (cases "fs filename") (auto simp: get_key_def)

text \<open>
  The option \<open>-a\<close> of the client sets the address to its argument when that
  has less than 63 characters; a longer one is cut to 63 characters, and then the last of the 64
  bytes, which is never assigned, decides whether the address is a string at all.
\<close>

theorem address_option_bounds:
  assumes "length (co_address opts) = 64" and "is_string s"
  shows "\<exists>address. client_option (CHR ''a'') (Some s) opts = Some (Inr (opts\<lparr>co_address := address\<rparr>)) \<and>
    length address = 64 \<and>
    c_string address = (if length s < 63 then Some s
      else if co_address opts ! 63 = NUL then Some (take 63 s) else None)"
proof (cases "length s < 63")
  case True
  then show ?thesis
    using strncpy_fits [OF assms(2) True, of "co_address opts"] assms(1) by (auto simp: client_option_def)
next
  case False
  have "drop 63 (co_address opts) = [co_address opts ! 63]"
    using assms(1) Cons_nth_drop_Suc [of 63 "co_address opts"] by simp
  then have r: "strncpy (co_address opts) s 63 = Some (take 63 s @ [co_address opts ! 63])"
    using strncpy_long [of 63 s "co_address opts"] False assms(1) by simp
  have "is_string (take 63 s)" using is_string_take [OF assms(2)] .
  then have "c_string (take 63 s @ [co_address opts ! 63]) =
      (if co_address opts ! 63 = NUL then Some (take 63 s) else None)"
    using c_string_append [of "take 63 s" "[]"] by (auto simp: c_string_def is_string_def)
  then show ?thesis using r False by (auto simp: client_option_def)
qed

text \<open>
  A number given to an option is read back modulo the width of the variable: \<open>-p\<close>
  takes the port modulo 65536, \<open>-n\<close>, \<open>-b\<close> and \<open>-t\<close> their numbers modulo \<open>2^32\<close>.
\<close>

theorem numeric_options:
  assumes "n < 2 ^ 64"
  shows "\<exists>port number pageSize test_number.
    client_option (CHR ''p'') (Some (decimal n)) opts = Some (Inr (opts\<lparr>co_port := port\<rparr>)) \<and> unat port = n mod 2 ^ 16 \<and>
    client_option (CHR ''n'') (Some (decimal n)) opts = Some (Inr (opts\<lparr>co_number := number\<rparr>)) \<and> unat number = n mod 2 ^ 32 \<and>
    client_option (CHR ''b'') (Some (decimal n)) opts = Some (Inr (opts\<lparr>co_pageSize := pageSize\<rparr>)) \<and> unat pageSize = n mod 2 ^ 32 \<and>
    client_option (CHR ''t'') (Some (decimal n)) opts = Some (Inr (opts\<lparr>co_test_number := test_number\<rparr>)) \<and> unat test_number = n mod 2 ^ 32"
proof -
  have u: "unat (ucast (strtoul (decimal n)) :: u16) = n mod 2 ^ 16" "unat (ucast (strtoul (decimal n)) :: u32) = n mod 2 ^ 32"
    using assms by (simp_all add: strtoul_decimal unsigned_ucast_eq take_bit_nat_def unat_of_nat mod_mod_cancel)
  show ?thesis
    by (intro exI [of _ "ucast (strtoul (decimal n))"] exI [of _ "ucast (strtoul (decimal n))"]) (simp add: client_option_def u)
qed

text \<open>
  The options that client and server have in common: an address that fits in the buffer, or a port.
\<close>

definition common_option :: "char \<times> string option \<Rightarrow> bool" where
  "common_option = (\<lambda>(c, optarg). (case optarg of None \<Rightarrow> False
     | Some s \<Rightarrow> c = CHR ''p'' \<or> c = CHR ''a'' \<and> is_string s \<and> length s < 63))"

lemma common_options:
  assumes "list_all common_option args"
    and "length (co_address co) = 64" and "length (so_address so) = 64"
    and "c_string (co_address co) = Some host" and "c_string (so_address so) = Some host" and "co_port co = so_port so"
  shows "\<exists>co' so' host'. getopt_loop client_option args co = Some (Inr co') \<and> getopt_loop server_option args so = Some (Inr so') \<and>
    c_string (co_address co') = Some host' \<and> c_string (so_address so') = Some host' \<and> co_port co' = so_port so' \<and>
    co_fullTestSuite co' = co_fullTestSuite co"
  using assms
proof (induction args arbitrary: co so host)
  case (Cons x args)
  obtain c s where x: "x = (c, Some s)" and c: "c = CHR ''p'' \<or> c = CHR ''a'' \<and> is_string s \<and> length s < 63"
    using Cons.prems(1) by (cases x) (auto simp: common_option_def split: option.splits)
  have "\<exists>co1 so1 host1. client_option c (Some s) co = Some (Inr co1) \<and> server_option c (Some s) so = Some (Inr so1) \<and>
      length (co_address co1) = 64 \<and> length (so_address so1) = 64 \<and> c_string (co_address co1) = Some host1 \<and>
      c_string (so_address so1) = Some host1 \<and> co_port co1 = so_port so1 \<and> co_fullTestSuite co1 = co_fullTestSuite co"
    using c
  proof
    assume "c = CHR ''p''"
    then show ?thesis using Cons.prems by (auto simp: client_option_def server_option_def)
  next
    assume a: "c = CHR ''a'' \<and> is_string s \<and> length s < 63"
    obtain b1 b2 where "strncpy (co_address co) s 63 = Some b1" "c_string b1 = Some s" "length b1 = 64"
      "strncpy (so_address so) s 63 = Some b2" "c_string b2 = Some s" "length b2 = 64"
      using strncpy_fits [of s 63 "co_address co"] strncpy_fits [of s 63 "so_address so"] a Cons.prems(2,3) by auto
    then show ?thesis using a Cons.prems(6) by (auto simp: client_option_def server_option_def)
  qed
  then obtain co1 so1 host1 where o: "client_option c (Some s) co = Some (Inr co1)" "server_option c (Some s) so = Some (Inr so1)"
    and r: "length (co_address co1) = 64" "length (so_address so1) = 64" "c_string (co_address co1) = Some host1"
      "c_string (so_address so1) = Some host1" "co_port co1 = so_port so1"
    and f: "co_fullTestSuite co1 = co_fullTestSuite co" by blast
  show ?case using Cons.IH [OF _ r] Cons.prems(1) o f by (simp add: x)
qed auto

lemma localhost_fits:
  "length b = 64 \<Longrightarrow> \<exists>b'. strncpy b ''localhost'' (length ''localhost'' + 1) = Some b' \<and> c_string b' = Some ''localhost'' \<and> length b' = 64"
  using strncpy_fits [of "''localhost''" "length ''localhost'' + 1" b] by (simp add: NUL_def)

lemma common_command_lines:
  assumes "list_all common_option args" and "length b = 64" and "length b' = 64" and "t \<noteq> []"
  obtains co so co' so' host where "client_defaults b t = Some co" and "server_defaults b' = Some so"
    and "getopt_loop client_option args co = Some (Inr co')" and "getopt_loop server_option args so = Some (Inr so')"
    and "c_string (co_address co') = Some host" and "c_string (so_address so') = Some host" and "co_port co' = so_port so'"
proof -
  obtain co where co: "client_defaults b t = Some co" "length (co_address co) = 64" "c_string (co_address co) = Some ''localhost''"
      "co_port co = 3443"
    using localhost_fits [OF assms(2)] assms(4) by (auto simp: client_defaults_def simp del: length_Cons list.size)
  obtain so where so: "server_defaults b' = Some so" "length (so_address so) = 64" "c_string (so_address so) = Some ''localhost''"
      "so_port so = 3443"
    using localhost_fits [OF assms(3)] by (auto simp: server_defaults_def simp del: length_Cons list.size)
  show thesis
    using common_options [OF assms(1) co(2) so(2) co(3) so(3)] co(1,4) so(1,4) that by auto
qed

text \<open>
  Client and server started with the same options \<open>-a\<close> and \<open>-p\<close>, each address shorter
  than 63 characters, agree on the address: the client opens its channel to the string on which the
  server listens, with the same certificate, and both have the defaults when an option is missing.
\<close>

theorem same_address:
  assumes "list_all common_option args" and "length b = 64" and "length b' = 64" and "t \<noteq> []"
  shows "\<exists>co so co' so' host. client_defaults b t = Some co \<and> server_defaults b' = Some so \<and>
    getopt_loop client_option args co = Some (Inr co') \<and> getopt_loop server_option args so = Some (Inr so') \<and>
    c_string (co_address co') = Some host \<and> c_string (so_address so') = Some host \<and>
    (\<forall>new with_ssl cert k. opof_create_sessionTable new with_ssl host (ucast (co_port co')) cert =
      \<lparr>obj = new (listen_address (opof_server with_ssl host (so_port so') cert k)) (if with_ssl then Some cert else None)\<rparr>)"
proof -
  obtain co so co' so' host where o: "client_defaults b t = Some co" "server_defaults b' = Some so"
      "getopt_loop client_option args co = Some (Inr co')" "getopt_loop server_option args so = Some (Inr so')"
      "c_string (co_address co') = Some host" "c_string (so_address so') = Some host" and port: "co_port co' = so_port so'"
    using common_command_lines [OF assms] by blast
  have "unat (ucast p :: u32) = unat p" for p :: u16
    by transfer simp
  then have "\<forall>new with_ssl cert k. opof_create_sessionTable new with_ssl host (ucast (co_port co')) cert =
      \<lparr>obj = new (listen_address (opof_server with_ssl host (so_port so') cert k)) (if with_ssl then Some cert else None)\<rparr>"
    using port by (simp add: opof_create_sessionTable_def opof_server_def Let_def)
  then show ?thesis using o by blast
qed

lemma getopt_loop_append:
  "getopt_loop f (xs @ ys) o1 = do {
     r \<leftarrow> getopt_loop f xs o1;
     case r of Inl status \<Rightarrow> Some (Inl status) | Inr o2 \<Rightarrow> getopt_loop f ys o2 }"
  by (induction f xs o1 rule: getopt_loop.induct) (auto split: Option.bind_splits sum.splits)

text \<open>An option without argument.\<close>

definition flag :: "char \<Rightarrow> char \<times> string option" where
  "flag c = (c, None)"

text \<open>Options under which the full suite runs when \<open>-f\<close> is one of them.\<close>

definition suite_option :: "char \<times> string option \<Rightarrow> bool" where
  "suite_option x \<longleftrightarrow> common_option x \<or> x = flag CHR ''v'' \<or> x = flag CHR ''f''"

text \<open>The argument of the last option \<open>ch\<close>, or the default.\<close>

definition option_value :: "char \<Rightarrow> (char \<times> string option) list \<Rightarrow> string \<Rightarrow> string" where
  "option_value ch args s = foldl (\<lambda>v x. if fst x = ch then the (snd x) else v) s args"

lemma option_value_simps [simp]:
  "option_value ch [] v = v" "option_value ch (x # args) v = option_value ch args (if fst x = ch then the (snd x) else v)"
  by (simp_all add: option_value_def)

text \<open>The host and the port that the options of the client name.\<close>

definition named_host :: "(char \<times> string option) list \<Rightarrow> string" where
  "named_host args = option_value CHR ''a'' args ''localhost''"

definition named_port :: "(char \<times> string option) list \<Rightarrow> u16" where
  "named_port args = ucast (strtoul (option_value CHR ''p'' args ''3443''))"

lemma getopt_loop_Cons:
  "getopt_loop f (x # args) opts = do {
     r \<leftarrow> f (fst x) (snd x) opts;
     case r of Inl status \<Rightarrow> Some (Inl status) | Inr opts \<Rightarrow> getopt_loop f args opts }"
  by (cases x) simp

lemma suite_options:
  assumes "list_all suite_option args" and "length (co_address co) = 64" and "c_string (co_address co) = Some host"
    and "co_port co = ucast (strtoul ps)"
  shows "\<exists>co'. getopt_loop client_option args co = Some (Inr co') \<and>
    c_string (co_address co') = Some (option_value CHR ''a'' args host) \<and>
    co_port co' = ucast (strtoul (option_value CHR ''p'' args ps)) \<and>
    co_fullTestSuite co' = (co_fullTestSuite co \<or> flag CHR ''f'' \<in> set args)"
  using assms
proof (induction args arbitrary: co host ps)
  case (Cons x args)
  have "\<exists>co1. client_option (fst x) (snd x) co = Some (Inr co1) \<and> length (co_address co1) = 64 \<and>
      c_string (co_address co1) = Some (if fst x = CHR ''a'' then the (snd x) else host) \<and>
      co_port co1 = ucast (strtoul (if fst x = CHR ''p'' then the (snd x) else ps)) \<and>
      co_fullTestSuite co1 = (co_fullTestSuite co \<or> x = flag CHR ''f'')"
  proof (cases "common_option x")
    case True
    then obtain c s where x: "x = (c, Some s)" and c: "c = CHR ''p'' \<or> c = CHR ''a'' \<and> is_string s \<and> length s < 63"
      by (cases x) (auto simp: common_option_def split: option.splits)
    show ?thesis
      using c strncpy_fits [of s 63 "co_address co"] Cons.prems(2-4) by (auto simp: x client_option_def flag_def)
  next
    case False
    then show ?thesis using Cons.prems by (auto simp: suite_option_def flag_def client_option_def)
  qed
  then obtain co1 where o: "client_option (fst x) (snd x) co = Some (Inr co1)" "length (co_address co1) = 64"
      "c_string (co_address co1) = Some (if fst x = CHR ''a'' then the (snd x) else host)"
      "co_port co1 = ucast (strtoul (if fst x = CHR ''p'' then the (snd x) else ps))"
      "co_fullTestSuite co1 = (co_fullTestSuite co \<or> x = flag CHR ''f'')" by blast
  have "list_all suite_option args" using Cons.prems(1) by simp
  from Cons.IH [OF this o(2-4)] o(5) show ?case by (auto simp: o(1) getopt_loop_Cons)
qed simp

text \<open>The certificate that the client reads: the file, as far as it fits and up to a NUL.\<close>

definition client_cert :: "'w env \<Rightarrow> string \<Rightarrow> string" where
  "client_cert env content = (if ssl env then takeWhile (\<lambda>c. c \<noteq> NUL) (take 2047 content) else [])"

lemma client_main_suite:
  assumes "list_all suite_option args" and "flag CHR ''f'' \<in> set args" and "length b = 64" and "t \<noteq> []" and "length cert = 2048"
    and "log_dir_exists sys \<or> mkdir_ok sys" and "files sys CERT_FILE = Some content"
    and "holds_ids (world (conn st)) ids" and "\<forall>k\<in>set ids. k < 2 ^ 31"
    and "\<forall>address cert. served (new_client env address cert)" and "length (sessionErrors (uninit_add env)) = BUFFER_MAX"
  shows "\<exists>st'. client_main sys env args b t cert st = Some (1, st') \<and>
    opof_fullTestSuite env (named_host args) (named_port args) (client_cert env content) st = Some (SUCCESS, st') \<and>
    holds_ids (world (conn st')) []"
proof -
  have p: "strtoul ''3443'' = 3443" by (simp add: strtoul_def is_digit_def is_space_def digits_value_def Let_def)
  obtain co where co: "client_defaults b t = Some co" "length (co_address co) = 64" "c_string (co_address co) = Some ''localhost''"
      "co_port co = ucast (strtoul ''3443'')"
    using localhost_fits [OF assms(3)] assms(4) by (auto simp: client_defaults_def p simp del: length_Cons list.size)
  obtain co' where co': "getopt_loop client_option args co = Some (Inr co')" "c_string (co_address co') = Some (named_host args)"
      "co_port co' = named_port args" "co_fullTestSuite co'"
    using suite_options [OF assms(1) co(2-4)] assms(2) by (auto simp: named_host_def named_port_def)
  obtain status cert' where cert: "get_key (files sys) CERT_FILE cert = Some (status, cert')" "status \<noteq> FAILURE"
      "c_string cert' = Some (takeWhile (\<lambda>c. c \<noteq> NUL) (take 2047 content))"
    using get_key_found [OF assms(5), of "files sys" CERT_FILE] assms(7) by auto
  obtain st' where suite: "opof_fullTestSuite env (named_host args) (named_port args) (client_cert env content) st = Some (SUCCESS, st')"
      "holds_ids (world (conn st')) []"
    using lib.opof_fullTestSuite_ok [OF test_env_served [OF assms(10,11)] test_state_holds [OF assms(8,9)]]
    by (fastforce simp: lib.holds_sessions_def)
  then have "opof_run_tests env (named_host args) n q (named_port args) (client_cert env content) (-1) st = Some (SUCCESS, st')" for n q
    by (simp add: opof_run_tests_def Let_def)
  then show ?thesis
    using co(1) co' cert suite assms(6)
    by (cases "ssl env") (auto simp: client_main_def client_run_def client_cert_def SUCCESS_def FAILURE_def)
qed

text \<open>
  The client program started with \<open>-f\<close> (after any \<open>-a\<close> and \<open>-p\<close>) runs the
  full suite, when the certificate can be read and the server holds sessions with small ids: it ends
  with exit status 1, the only one a run of the tests can have, and the server is empty.
\<close>

theorem client_main_full_suite:
  assumes "list_all common_option args" and "length b = 64" and "t \<noteq> []" and "length cert = 2048"
    and "log_dir_exists sys \<or> mkdir_ok sys" and "files sys CERT_FILE = Some content"
    and "holds_ids (world (conn st)) ids" and "\<forall>k\<in>set ids. k < 2 ^ 31"
    and "\<forall>address cert. served (new_client env address cert)" and "length (sessionErrors (uninit_add env)) = BUFFER_MAX"
  shows "\<exists>st'. client_main sys env (args @ [(CHR ''f'', None)]) b t cert st = Some (1, st') \<and> holds_ids (world (conn st')) []"
proof -
  have "list_all suite_option (args @ [flag CHR ''f''])" "flag CHR ''f'' \<in> set (args @ [flag CHR ''f''])"
    using assms(1) by (auto simp: suite_option_def list_all_iff)
  from client_main_suite [OF this assms(2-10)] show ?thesis by (auto simp: flag_def)
qed

subsection \<open>The properties on concrete inputs\<close>

lemma get_key_bounds_witness:
  "\<exists>status buf'. get_key [''f'' \<mapsto> ''abc''] ''f'' (replicate 2048 CHR ''x'') = Some (status, buf') \<and>
     unat status = 4 \<and> c_string buf' = Some ''abc''"
proof -
  have "length (replicate 2048 CHR ''x'') = 2048" by simp
  from get_key_bounds [OF this, of "[''f'' \<mapsto> ''abc'']" "''f''"] show ?thesis by (auto simp: NUL_def)
qed

definition ex_opts :: client_opts where
  "ex_opts = \<lparr>co_address = replicate 64 CHR ''x'', co_test_config = [], co_test_number = 1, co_port = 3443,
     co_number = 1, co_pageSize = 64, co_fullTestSuite = False, co_verbose = False\<rparr>"

lemma address_option_bounds_witness:
  "\<exists>address. client_option (CHR ''a'') (Some (replicate 70 CHR ''a'')) ex_opts = Some (Inr (ex_opts\<lparr>co_address := address\<rparr>)) \<and>
     c_string address = None"
proof -
  have "length (co_address ex_opts) = 64" "is_string (replicate 70 CHR ''a'')"
    by (simp_all add: ex_opts_def is_string_def NUL_def)
  from address_option_bounds [OF this] show ?thesis by (auto simp: ex_opts_def NUL_def)
qed

lemma numeric_options_witness:
  "\<exists>port. client_option (CHR ''p'') (Some (decimal 70000)) ex_opts = Some (Inr (ex_opts\<lparr>co_port := port\<rparr>)) \<and> unat port = 4464"
proof -
  have "(70000 :: nat) < 2 ^ 64" by simp
  from numeric_options [OF this, of ex_opts] show ?thesis by auto
qed

lemma same_address_witness:
  "\<exists>co so co' so' host. client_defaults (replicate 64 NUL) [NUL] = Some co \<and> server_defaults (replicate 64 NUL) = Some so \<and>
     getopt_loop client_option [(CHR ''p'', Some ''99''), (CHR ''a'', Some ''host'')] co = Some (Inr co') \<and>
     getopt_loop server_option [(CHR ''p'', Some ''99''), (CHR ''a'', Some ''host'')] so = Some (Inr so') \<and>
     c_string (co_address co') = Some host \<and> c_string (so_address so') = Some host \<and>
     (\<forall>new with_ssl cert k. opof_create_sessionTable new with_ssl host (ucast (co_port co')) cert =
       \<lparr>obj = new (listen_address (opof_server with_ssl host (so_port so') cert k)) (if with_ssl then Some cert else None)\<rparr>)"
proof -
  have "list_all common_option [(CHR ''p'', Some ''99''), (CHR ''a'', Some ''host'')]" "length (replicate 64 NUL) = 64" "[NUL] \<noteq> []"
    by (simp_all add: common_option_def is_string_def NUL_def)
  from same_address [OF this(1,2,2,3)] show ?thesis .
qed

lemma client_main_full_suite_witness:
  "\<exists>s st'. run_all add_ok (map ex_request [1, 2, 3]) (server_init ex_rng) = Some s \<and>
     client_main \<lparr>files = [CERT_FILE \<mapsto> ''cert''], log_dir_exists = True, mkdir_ok = True\<rparr> ex_env
       [(CHR ''p'', Some ''99''), (CHR ''f'', None)] (replicate 64 NUL) [NUL] (replicate 2048 NUL) (ex_tester s) = Some (1, st') \<and>
     holds_ids (world (conn st')) []"
proof -
  obtain s where s: "run_all add_ok (map ex_request [1, 2, 3]) (server_init ex_rng) = Some s"
    and h: "holds_ids s [1, 2, 3]" by (rule ex_holds)
  have h': "holds_ids (world (conn (ex_tester s))) [1, 2, 3]" using h by simp
  have k: "\<forall>k\<in>set [1, 2, 3 :: u64]. k < 2 ^ 31" by simp
  have a: "list_all common_option [(CHR ''p'', Some ''99'')]" "length (replicate 64 NUL) = 64" "[NUL] \<noteq> []" "length (replicate 2048 NUL) = 2048"
    by (simp_all add: common_option_def)
  define sys where "sys = \<lparr>files = [CERT_FILE \<mapsto> ''cert''], log_dir_exists = True, mkdir_ok = True\<rparr>"
  have f: "log_dir_exists sys \<or> mkdir_ok sys" "files sys CERT_FILE = Some ''cert''" by (simp_all add: sys_def)
  show ?thesis
    using s client_main_full_suite [OF a f h' k ex_simps(4,5)] unfolding sys_def by auto
qed

end
