(* ===== verification/Error_Log.thy ===== *)
theory Error_Log
  imports C_Strings
begin

text \<open>
  Error messages and signals, \<open>src/opof_error.c\<close>. A function that writes to a stream returns the
  text; \<open>Inl\<close> of a number is the exit of the process with this status, \<open>Inr\<close> the return to the
  caller. The message that a format and its arguments stand for is an argument, without a NUL.
\<close>

definition MAXLINE :: nat where
  "MAXLINE = 4096"

datatype log_level = LOG_INFO_LEVEL | LOG_WARN_LEVEL | LOG_ERR_LEVEL | OTHER_LEVEL


definition EXIT_SUCCESS :: int where "EXIT_SUCCESS = 0"

definition EXIT_FAILURE :: int where "EXIT_FAILURE = 1"

subsection \<open>Messages\<close>

text \<open>
  The local \<open>buf\<close> has \<open>MAXLINE + 1\<close> bytes that nothing has been assigned to; \<open>strlen(buf)\<close> reads it
  first. \<open>strerror\<close> is the text for the saved \<open>errno\<close>.
\<close>

definition prefixed :: "string \<Rightarrow> string \<Rightarrow> char list \<Rightarrow> char list option" where
  "prefixed title msg buf = do {
     buf \<leftarrow> strcpy buf (NL @ title);
     s \<leftarrow> c_string buf;
     let n = length s;
     snprintf_at buf n (MAXLINE - n) msg }"

definition err_handler :: "log_level \<Rightarrow> string \<Rightarrow> string \<Rightarrow> char list \<Rightarrow> string option" where
  "err_handler level msg strerror buf = do {
     n \<leftarrow> c_string buf;
     buf \<leftarrow> (case level of
        LOG_INFO_LEVEL \<Rightarrow> prefixed ''INFORMATIONAL: '' msg buf
      | LOG_WARN_LEVEL \<Rightarrow> prefixed ''WARNING: '' msg buf
      | LOG_ERR_LEVEL \<Rightarrow> do {
          buf \<leftarrow> prefixed ''ERROR: '' msg buf;
          s \<leftarrow> c_string buf;
          let n = length s;
          snprintf_at buf n (MAXLINE - n) ('': '' @ strerror) }
      | OTHER_LEVEL \<Rightarrow> Some buf);
     c_string buf }"

definition err_fatal :: "string \<Rightarrow> string \<Rightarrow> char list \<Rightarrow> (string \<times> (int + unit)) option" where
  "err_fatal msg strerror buf = do {
     out \<leftarrow> err_handler LOG_ERR_LEVEL msg strerror buf;
     Some (out, Inl EXIT_FAILURE) }"

definition err_error :: "string \<Rightarrow> string \<Rightarrow> char list \<Rightarrow> (string \<times> (int + unit)) option" where
  "err_error msg strerror buf = do {
     out \<leftarrow> err_handler LOG_ERR_LEVEL msg strerror buf;
     Some (out, Inl EXIT_FAILURE) }"

definition err_warn :: "string \<Rightarrow> string \<Rightarrow> char list \<Rightarrow> (string \<times> (int + unit)) option" where
  "err_warn msg strerror buf = do {
     out \<leftarrow> err_handler LOG_WARN_LEVEL msg strerror buf;
     Some (out, Inr ()) }"

definition err_info :: "string \<Rightarrow> string \<Rightarrow> char list \<Rightarrow> (string \<times> (int + unit)) option" where
  "err_info msg strerror buf = do {
     out \<leftarrow> err_handler LOG_INFO_LEVEL msg strerror buf;
     Some (out, Inr ()) }"

subsection \<open>Signals\<close>

datatype signal = SIGHUP | SIGINT | SIGKILL | SIGTERM | SIGSEGV | OTHER_SIGNAL string

text \<open>
  The messages sent to \<open>syslog\<close>, in order, each with whether it is a warning. Another signal is
  given by its \<open>strsignal\<close>; \<open>SIGILL\<close> and \<open>SIGABRT\<close>, for which the programs install the handler too,
  are among them.
\<close>

definition opof_shutdown :: "(bool \<times> string) list" where
  "opof_shutdown = [(False, ''Shutting down OPOF'')]"

fun signal_handler :: "signal \<Rightarrow> (bool \<times> string) list \<times> (int + unit)" where
  "signal_handler SIGHUP = ([(True, ''Received SIGHUP signal.'')], Inr ())"
| "signal_handler (OTHER_SIGNAL name) = ([(True, ''Unhandled signal '' @ name)], Inr ())"
| "signal_handler signo = ((False, ''Daemon exiting due to signal'') # opof_shutdown, Inl EXIT_SUCCESS)"

subsection \<open>Properties\<close>

lemma NL_string [simp]: "is_string NL" "length NL = 1"
  by (simp_all add: NL_def NUL_def)

lemma write_at_end:
  assumes "c_string buf = Some s" and "is_string t" and "length s + length t < length buf"
  shows "\<exists>buf'. write_chars buf (length s) (t @ [NUL]) = Some buf' \<and> c_string buf' = Some (s @ t) \<and> length buf' = length buf"
proof -
  obtain rest where buf: "buf = s @ NUL # rest" and s: "is_string s" using c_stringE [OF assms(1)] .
  have eq: "write_chars buf (length s) (t @ [NUL]) = Some ((s @ t) @ NUL # drop (length t) rest)"
    using assms(3) by (simp add: write_chars_def buf)
  show ?thesis
    using c_string_append [of "s @ t"] s assms(2,3) unfolding eq by (auto simp: buf)
qed

lemma snprintf_at_end:
  assumes "c_string buf = Some s" and "is_string t" and "length s < MAXLINE" and "length buf = MAXLINE + 1"
  shows "\<exists>buf'. snprintf_at buf (length s) (MAXLINE - length s) t = Some buf' \<and>
    c_string buf' = Some (take (MAXLINE - 1) (s @ t)) \<and> length buf' = MAXLINE + 1"
proof -
  have "s @ take (MAXLINE - length s - 1) t = take (MAXLINE - 1) (s @ t)"
    using assms(3) by (simp add: diff_diff_left add.commute)
  moreover have "length s + length (take (MAXLINE - length s - 1) t) < length buf"
    using assms(3,4) by auto
  ultimately show ?thesis
    using write_at_end [OF assms(1) is_string_take [OF assms(2)], of "MAXLINE - length s - 1"] assms(4)
    by (simp add: snprintf_at_def)
qed

lemma prefixed_ok:
  assumes "is_string title" and "is_string msg" and "length title < MAXLINE - 1" and "length buf = MAXLINE + 1"
  shows "\<exists>buf'. prefixed title msg buf = Some buf' \<and> c_string buf' = Some (take (MAXLINE - 1) (NL @ title @ msg)) \<and>
    length buf' = MAXLINE + 1"
proof -
  have "strcpy buf (NL @ title) = Some ((NL @ title) @ NUL # drop (Suc (Suc (length title))) buf)" (is "_ = Some ?b")
    using assms(3,4) by (simp add: strcpy_def write_chars_def)
  moreover have b: "c_string ?b = Some (NL @ title)" using assms(1) by (intro c_string_append) simp
  moreover have "length ?b = MAXLINE + 1" "length (NL @ title) < MAXLINE" using assms(3,4) by simp_all
  ultimately show ?thesis
    using snprintf_at_end [OF b assms(2)] by (simp add: prefixed_def Let_def)
qed

lemma take_take_append: "take n (take n xs @ ys) = take n (xs @ ys)"
  by (cases "length xs \<le> n") simp_all

text \<open>
  An error message is the title, the text and the description of \<open>errno\<close>, cut to
  4095 characters however long the text is; nothing is written outside the buffer. But if no byte of
  the uninitialised buffer happens to be a NUL, its \<open>strlen\<close> reads past it.
\<close>

theorem err_handler_text:
  assumes "length buf = MAXLINE + 1" and "is_string msg" and "is_string strerror"
  shows "err_handler LOG_ERR_LEVEL msg strerror buf =
    (if NUL \<in> set buf then Some (take (MAXLINE - 1) (NL @ ''ERROR: '' @ msg @ '': '' @ strerror)) else None)"
proof (cases "NUL \<in> set buf")
  case True
  have t: "is_string ''ERROR: ''" "length ''ERROR: '' < MAXLINE - 1" by (simp_all add: NUL_def MAXLINE_def)
  obtain b1 where b1: "prefixed ''ERROR: '' msg buf = Some b1"
    "c_string b1 = Some (take (MAXLINE - 1) (NL @ ''ERROR: '' @ msg))" "length b1 = MAXLINE + 1"
    using prefixed_ok [OF t(1) assms(2) t(2) assms(1)] by blast
  let ?s = "take (MAXLINE - 1) (NL @ ''ERROR: '' @ msg)"
  have s: "is_string ('': '' @ strerror)" "length ?s < MAXLINE" using assms(3) by (simp_all add: NUL_def MAXLINE_def)
  obtain b2 where b2: "snprintf_at b1 (length ?s) (MAXLINE - length ?s) ('': '' @ strerror) = Some b2"
    "c_string b2 = Some (take (MAXLINE - 1) (?s @ '': '' @ strerror))"
    using snprintf_at_end [OF b1(2) s b1(3)] by blast
  have "take (MAXLINE - 1) (?s @ '': '' @ strerror) = take (MAXLINE - 1) (NL @ ''ERROR: '' @ msg @ '': '' @ strerror)"
    using take_take_append [of "MAXLINE - 1" "NL @ ''ERROR: '' @ msg" "'': '' @ strerror"] by (simp only: append_assoc)
  moreover have "err_handler LOG_ERR_LEVEL msg strerror buf = c_string b2"
    using True b1(1,2) b2(1) by (simp add: err_handler_def c_string_def [of buf] Let_def)
  ultimately show ?thesis using True b2(2) by simp
qed (simp add: err_handler_def c_string_def)

lemma err_handler_text_witness:
  "err_handler LOG_ERR_LEVEL ''open'' ''No such file'' (replicate (MAXLINE + 1) NUL) =
     Some (NL @ ''ERROR: open: No such file'')"
  by (subst err_handler_text) (simp_all add: NUL_def NL_def MAXLINE_def)

end
