(* ===== verification/Command_Line.thy ===== *)
theory Command_Line
  imports Program_Props Error_Log
begin

text \<open>
  The command lines of the two programs, from the words of \<open>argv\<close>: \<open>getopt_long\<close> of the C library
  with the tables of \<open>src/opof_client_main.c\<close> and \<open>src/opof_server_main.c\<close>, what the options print,
  and the two \<open>main\<close> functions over words. \<open>getopt_long\<close> is modelled as it is documented, without
  the environment variable \<open>POSIXLY_CORRECT\<close>: operands are skipped, \<open>--\<close> ends the options, and its own
  messages on the error stream are left out. The tables of long options have no entry of zeros at
  the end, so that the search for a name that is not in them reads past the array.
\<close>

subsection \<open>\<open>getopt_long\<close>\<close>

datatype arg_kind = no_argument | required_argument

type_synonym long_option = "string \<times> arg_kind \<times> char"

text \<open>Whether a character is a short option and, if so, whether it takes an argument.\<close>

fun short_option :: "string \<Rightarrow> char \<Rightarrow> bool option" where
  "short_option [] c = None"
| "short_option (d # optstring) c =
     (if d = c \<and> c \<noteq> CHR '':'' \<and> c \<noteq> CHR '';'' then Some (take 1 optstring = '':'') else short_option optstring c)"

text \<open>
  What a call returns: the character, \<open>optarg\<close>, and the state for the next call, which is the rest of the
  word it is in and the words after it.
\<close>

type_synonym getopt_state = "string \<times> string list"
type_synonym getopt_result = "char \<times> string option \<times> getopt_state"

definition getopt_short :: "string \<Rightarrow> char \<Rightarrow> string \<Rightarrow> string list \<Rightarrow> getopt_result" where
  "getopt_short optstring c nextchar argv =
     (case short_option optstring c of
        None \<Rightarrow> (CHR ''?'', None, nextchar, argv)
      | Some False \<Rightarrow> (c, None, nextchar, argv)
      | Some True \<Rightarrow>
          (if nextchar \<noteq> [] then (c, Some nextchar, [], argv)
           else case argv of [] \<Rightarrow> (CHR ''?'', None, [], []) | w # argv \<Rightarrow> (c, Some w, [], argv)))"

text \<open>The name is compared with the table up to an \<open>=\<close>; an abbreviation reads on to the end of the table.\<close>

definition getopt_name :: "long_option list \<Rightarrow> string \<Rightarrow> string list \<Rightarrow> getopt_result option" where
  "getopt_name longopts word argv = do {
     let name = takeWhile (\<lambda>c. c \<noteq> CHR ''='') word;
     (kind, val) \<leftarrow> map_of longopts name;
     Some (case (dropWhile (\<lambda>c. c \<noteq> CHR ''='') word, kind) of
        ([], no_argument) \<Rightarrow> (val, None, [], argv)
      | ([], required_argument) \<Rightarrow>
          (case argv of [] \<Rightarrow> (CHR ''?'', None, [], []) | w # argv \<Rightarrow> (val, Some w, [], argv))
      | (_ # arg, no_argument) \<Rightarrow> (CHR ''?'', None, [], argv)
      | (_ # arg, required_argument) \<Rightarrow> (val, Some arg, [], argv)) }"

definition option_word :: "string \<Rightarrow> bool" where
  "option_word w \<longleftrightarrow> take 1 w = ''-'' \<and> w \<noteq> ''-''"

text \<open>The value \<open>Some None\<close> is -1, the end of the options.\<close>

definition getopt_long :: "string \<Rightarrow> long_option list \<Rightarrow> getopt_state \<Rightarrow> getopt_result option option" where
  "getopt_long optstring longopts = (\<lambda>(nextchar, argv). case nextchar of
       c # nextchar \<Rightarrow> Some (Some (getopt_short optstring c nextchar argv))
     | [] \<Rightarrow> (case dropWhile (\<lambda>w. \<not> option_word w) argv of
           [] \<Rightarrow> Some None
         | w # argv \<Rightarrow>
             if w = ''--'' then Some None
             else if take 2 w = ''--'' then map_option Some (getopt_name longopts (drop 2 w) argv)
             else case drop 1 w of
                 c # nextchar \<Rightarrow> Some (Some (getopt_short optstring c nextchar argv))
               | [] \<Rightarrow> Some None))"

text \<open>Each call uses up part of the words.\<close>

definition getopt_size :: "getopt_state \<Rightarrow> nat" where
  "getopt_size = (\<lambda>(nextchar, argv). length nextchar + sum_list (map (\<lambda>w. Suc (length w)) argv))"

lemma dropWhile_size:
  "dropWhile P ws = w # rest \<Longrightarrow> getopt_size ([], rest) + Suc (length w) \<le> getopt_size ([], ws)"
  by (induction ws) (auto simp: getopt_size_def split: if_splits)

lemma getopt_short_size:
  "getopt_short optstring c nextchar argv = (c', optarg, st) \<Longrightarrow> getopt_size st \<le> getopt_size (nextchar, argv)"
  by (auto simp: getopt_short_def getopt_size_def split: option.splits bool.splits if_splits list.splits)

lemma getopt_name_size:
  assumes "getopt_name longopts word argv = Some (c', optarg, st)"
  shows "getopt_size st \<le> getopt_size ([], argv)"
proof -
  obtain kind val where "map_of longopts (takeWhile (\<lambda>c. c \<noteq> CHR ''='') word) = Some (kind, val)"
    using assms by (cases "map_of longopts (takeWhile (\<lambda>c. c \<noteq> CHR ''='') word)") (auto simp: getopt_name_def)
  moreover define v where "v = dropWhile (\<lambda>c. c \<noteq> CHR ''='') word"
  ultimately have "\<exists>argv'. st = ([], argv') \<and> (argv' = [] \<or> argv' = argv \<or> argv' = tl argv)"
    using assms unfolding getopt_name_def Let_def v_def [symmetric] by (cases v; cases argv; cases kind) auto
  then show ?thesis by (cases argv) (auto simp: getopt_size_def)
qed

lemma getopt_long_size:
  assumes "getopt_long optstring longopts st = Some (Some (c, optarg, st'))"
  shows "getopt_size st' < getopt_size st"
proof -
  obtain nextchar argv where st: "st = (nextchar, argv)" by (cases st)
  show ?thesis
  proof (cases nextchar)
    case (Cons d ds)
    then show ?thesis
      using assms getopt_short_size [of optstring d ds argv c optarg st']
      by (simp add: st getopt_long_def) (simp add: getopt_size_def split_def)
  next
    case Nil
    then obtain w rest where w: "dropWhile (\<lambda>w. \<not> option_word w) argv = w # rest"
      using assms by (auto simp: st getopt_long_def split: list.splits)
    have *: "getopt_size ([], rest) + Suc (length w) \<le> getopt_size st" using dropWhile_size [OF w] by (simp add: st Nil)
    consider word where "getopt_name longopts word rest = Some (c, optarg, st')"
      | d ds where "drop 1 w = d # ds" "getopt_short optstring d ds rest = (c, optarg, st')"
      using assms w by (auto simp: st Nil getopt_long_def split: if_splits list.splits)
    then show ?thesis
    proof cases
      case (1 word)
      show ?thesis using getopt_name_size [OF 1] * by simp
    next
      case (2 d ds)
      have "length ds < length w" using 2(1) by (cases w) auto
      then show ?thesis using getopt_short_size [OF 2(2)] * by (simp add: getopt_size_def split_def)
    qed
  qed
qed

text \<open>The results of all calls, when none faults.\<close>

function getopt_results :: "string \<Rightarrow> long_option list \<Rightarrow> getopt_state \<Rightarrow> (char \<times> string option) list option" where
  "getopt_results optstring longopts st = (case getopt_long optstring longopts st of
       None \<Rightarrow> None
     | Some None \<Rightarrow> Some []
     | Some (Some (c, optarg, st)) \<Rightarrow> map_option ((#) (c, optarg)) (getopt_results optstring longopts st))"
  by pat_completeness auto

termination
  by (relation "measure (\<lambda>(optstring, longopts, st). getopt_size st)") (auto dest: getopt_long_size)

text \<open>
  The loop of a program: the text it prints, \<open>pr\<close> for each option, and the exit status or the
  options, by the switch \<open>f\<close>. An exit comes before the words after it are looked at.
\<close>

function parse_args :: "(char \<Rightarrow> string) \<Rightarrow> (char \<Rightarrow> string option \<Rightarrow> 'o \<Rightarrow> (int + 'o) option) \<Rightarrow> string \<Rightarrow> long_option list \<Rightarrow>
   getopt_state \<Rightarrow> 'o \<Rightarrow> (string \<times> (int + 'o)) option" where
  "parse_args pr f optstring longopts st opts = (case getopt_long optstring longopts st of
       None \<Rightarrow> None
     | Some None \<Rightarrow> Some ([], Inr opts)
     | Some (Some (c, optarg, st)) \<Rightarrow> (case f c optarg opts of
           None \<Rightarrow> None
         | Some (Inl status) \<Rightarrow> Some (pr c, Inl status)
         | Some (Inr opts) \<Rightarrow> map_option (map_prod ((@) (pr c)) id) (parse_args pr f optstring longopts st opts)))"
  by pat_completeness auto

termination
  by (relation "measure (\<lambda>(pr, f, optstring, longopts, st, opts). getopt_size st)") (auto dest: getopt_long_size)

declare getopt_results.simps [simp del] parse_args.simps [simp del]

subsection \<open>Words for options\<close>

text \<open>
  The ways to write options: an operand; a word of options without argument, of which the last may
  take an argument, attached or as the next word; and a long name.
\<close>

datatype arg_item = Operand string | Flags string | Arg_Attached string char string | Arg_Next string char string | Long string

fun item_words :: "arg_item \<Rightarrow> string list" where
  "item_words (Operand w) = [w]"
| "item_words (Flags fs) = [CHR ''-'' # fs]"
| "item_words (Arg_Attached fs c a) = [CHR ''-'' # fs @ c # a]"
| "item_words (Arg_Next fs c a) = [CHR ''-'' # fs @ [c], a]"
| "item_words (Long n) = [''--'' @ n]"

fun item_options :: "long_option list \<Rightarrow> arg_item \<Rightarrow> (char \<times> string option) list" where
  "item_options longopts (Operand w) = []"
| "item_options longopts (Flags fs) = map flag fs"
| "item_options longopts (Arg_Attached fs c a) = map flag fs @ [(c, Some a)]"
| "item_options longopts (Arg_Next fs c a) = map flag fs @ [(c, Some a)]"
| "item_options longopts (Long n) = [(snd (the (map_of longopts n)), None)]"

definition flags_ok :: "string \<Rightarrow> string \<Rightarrow> bool" where
  "flags_ok optstring fs \<longleftrightarrow> (\<forall>c\<in>set fs. c \<noteq> CHR ''-'' \<and> short_option optstring c = Some False)"

fun item_ok :: "string \<Rightarrow> long_option list \<Rightarrow> arg_item \<Rightarrow> bool" where
  "item_ok optstring longopts (Operand w) \<longleftrightarrow> \<not> option_word w"
| "item_ok optstring longopts (Flags fs) \<longleftrightarrow> fs \<noteq> [] \<and> flags_ok optstring fs"
| "item_ok optstring longopts (Arg_Attached fs c a) \<longleftrightarrow> flags_ok optstring fs \<and> c \<noteq> CHR ''-'' \<and> short_option optstring c = Some True \<and> a \<noteq> []"
| "item_ok optstring longopts (Arg_Next fs c a) \<longleftrightarrow> flags_ok optstring fs \<and> c \<noteq> CHR ''-'' \<and> short_option optstring c = Some True"
| "item_ok optstring longopts (Long n) \<longleftrightarrow> n \<noteq> [] \<and> CHR ''='' \<notin> set n \<and> (\<exists>c. map_of longopts n = Some (no_argument, c))"

text \<open>
  The calls that return the options \<open>args\<close> one after the other, up to a state in which the next call
  does what it would do in \<open>st'\<close>.
\<close>

inductive getopt_calls :: "string \<Rightarrow> long_option list \<Rightarrow> getopt_state \<Rightarrow> (char \<times> string option) list \<Rightarrow> getopt_state \<Rightarrow> bool"
  for optstring longopts where
  no_call: "getopt_long optstring longopts st = getopt_long optstring longopts st' \<Longrightarrow> getopt_calls optstring longopts st [] st'"
| call: "getopt_long optstring longopts st = Some (Some (c, optarg, st1)) \<Longrightarrow> getopt_calls optstring longopts st1 args st' \<Longrightarrow>
    getopt_calls optstring longopts st ((c, optarg) # args) st'"

inductive_cases getopt_calls_NilE: "getopt_calls optstring longopts st [] st'"
inductive_cases getopt_calls_ConsE: "getopt_calls optstring longopts st (x # args) st'"

lemma getopt_calls_refl: "getopt_calls optstring longopts st [] st"
  by (rule no_call) (rule refl)

lemma getopt_calls_from:
  "getopt_long optstring longopts st = getopt_long optstring longopts st1 \<Longrightarrow> getopt_calls optstring longopts st1 args st' \<Longrightarrow>
    getopt_calls optstring longopts st args st'"
  by (cases args) (auto elim!: getopt_calls_NilE getopt_calls_ConsE intro: getopt_calls.intros)

lemma getopt_calls_trans:
  "getopt_calls optstring longopts st args st1 \<Longrightarrow> getopt_calls optstring longopts st1 args' st' \<Longrightarrow>
    getopt_calls optstring longopts st (args @ args') st'"
  by (induction rule: getopt_calls.induct) (auto intro: getopt_calls_from getopt_calls.intros)

lemma getopt_calls_results:
  "getopt_calls optstring longopts st args st' \<Longrightarrow>
    getopt_results optstring longopts st = map_option ((@) args) (getopt_results optstring longopts st')"
proof (induction rule: getopt_calls.induct)
  case (no_call st st')
  then have "getopt_results optstring longopts st = getopt_results optstring longopts st'"
    by (subst (1 2) getopt_results.simps) (simp only:)
  then show ?case by (simp add: option.map_ident)
next
  case (call st c optarg st1 args st')
  then show ?case
    by (subst getopt_results.simps) (cases "getopt_results optstring longopts st'"; simp)
qed

text \<open>The loop of a program acts on the options one after the other and prints what it prints for each.\<close>

fun printed :: "(char \<Rightarrow> string) \<Rightarrow> (char \<Rightarrow> string option \<Rightarrow> 'o \<Rightarrow> (int + 'o) option) \<Rightarrow> (char \<times> string option) list \<Rightarrow> 'o \<Rightarrow> string" where
  "printed pr f [] opts = []"
| "printed pr f ((c, optarg) # args) opts =
     pr c @ (case f c optarg opts of Some (Inr opts) \<Rightarrow> printed pr f args opts | _ \<Rightarrow> [])"

lemma getopt_calls_parse:
  assumes "getopt_calls optstring longopts st args st'"
  shows "parse_args pr f optstring longopts st opts = (case getopt_loop f args opts of
      None \<Rightarrow> None
    | Some (Inl status) \<Rightarrow> Some (printed pr f args opts, Inl status)
    | Some (Inr opts') \<Rightarrow> map_option (map_prod ((@) (printed pr f args opts)) id) (parse_args pr f optstring longopts st' opts'))"
  using assms
proof (induction arbitrary: opts rule: getopt_calls.induct)
  case (no_call st st')
  then have "parse_args pr f optstring longopts st opts = parse_args pr f optstring longopts st' opts"
    by (subst (1 2) parse_args.simps) (simp only:)
  then show ?case by (cases "parse_args pr f optstring longopts st' opts") auto
next
  case (call st c optarg st1 args st')
  show ?case
  proof (cases "f c optarg opts")
    case (Some r)
    then show ?thesis
      using call by (subst parse_args.simps)
        (cases r; auto simp: option.map_comp comp_def prod.map_comp intro!: option.map_cong prod.map_cong0 split: option.splits sum.splits)
  qed (use call(1) in \<open>subst parse_args.simps, simp\<close>)
qed

lemma parse_args_end:
  assumes "getopt_long optstring longopts st = Some None"
  shows "parse_args pr f optstring longopts st opts = Some ([], Inr opts)" "getopt_results optstring longopts st = Some []"
  using assms by (subst parse_args.simps getopt_results.simps, simp)+

lemma parse_args_fault:
  assumes "getopt_long optstring longopts st = None"
  shows "parse_args pr f optstring longopts st opts = None"
  using assms by (subst parse_args.simps) simp

text \<open>The calls for a word.\<close>

lemma calls_in_word:
  "getopt_short optstring c cs argv = (c', optarg, st) \<Longrightarrow> getopt_calls optstring longopts st args st' \<Longrightarrow>
    getopt_calls optstring longopts (c # cs, argv) ((c', optarg) # args) st'"
  by (rule call) (simp_all add: getopt_long_def)

lemma calls_word:
  assumes "c \<noteq> CHR ''-''" and "getopt_calls optstring longopts (c # cs, argv) args st'"
  shows "getopt_calls optstring longopts ([], (CHR ''-'' # c # cs) # argv) args st'"
  by (rule getopt_calls_from [OF _ assms(2)]) (use assms(1) in \<open>simp add: getopt_long_def option_word_def\<close>)

lemma calls_flags:
  "flags_ok optstring fs \<Longrightarrow> getopt_calls optstring longopts (fs @ cs, argv) (map flag fs) (cs, argv)"
proof (induction fs)
  case (Cons f fs)
  then have "getopt_short optstring f (fs @ cs) argv = (f, None, fs @ cs, argv)"
    by (simp add: flags_ok_def getopt_short_def)
  moreover have "flags_ok optstring fs" using Cons.prems by (simp add: flags_ok_def)
  ultimately show ?case using Cons.IH by (simp add: flag_def calls_in_word)
qed (simp add: getopt_calls_refl)

lemma flags_word:
  assumes "flags_ok optstring fs" and "c \<noteq> CHR ''-''" and "getopt_short optstring c cs argv = (c, optarg, st)"
  shows "getopt_calls optstring longopts ([], (CHR ''-'' # fs @ c # cs) # argv) (map flag fs @ [(c, optarg)]) st"
proof -
  obtain d ds where d: "fs @ c # cs = d # ds" "d \<noteq> CHR ''-''" using assms(1,2) by (cases fs) (auto simp: flags_ok_def)
  have "getopt_calls optstring longopts (fs @ c # cs, argv) (map flag fs @ [(c, optarg)]) st"
    by (rule getopt_calls_trans [OF calls_flags [OF assms(1)] calls_in_word [OF assms(3) getopt_calls_refl]])
  then show ?thesis unfolding d(1) by (rule calls_word [OF d(2)])
qed

lemma calls_item:
  assumes "item_ok optstring longopts item"
  shows "getopt_calls optstring longopts ([], item_words item @ argv) (item_options longopts item) ([], argv)"
proof (cases item)
  case (Operand w)
  then show ?thesis using assms by (auto simp: getopt_long_def intro: no_call)
next
  case (Flags fs)
  then obtain d ds where "fs = d # ds" "d \<noteq> CHR ''-''" using assms by (cases fs) (auto simp: flags_ok_def)
  then show ?thesis using Flags assms calls_flags [of optstring fs longopts "[]" argv] by (auto intro: calls_word)
next
  case (Arg_Attached fs c a)
  then show ?thesis using assms flags_word [of optstring fs c a argv "Some a" "([], argv)"] by (simp add: getopt_short_def)
next
  case (Arg_Next fs c a)
  then show ?thesis using assms flags_word [of optstring fs c "[]" "a # argv" "Some a" "([], argv)"] by (simp add: getopt_short_def)
next
  case (Long n)
  then obtain c where n: "n \<noteq> []" "CHR ''='' \<notin> set n" "map_of longopts n = Some (no_argument, c)" using assms by auto
  have t: "takeWhile (\<lambda>c. c \<noteq> CHR ''='') n = n" "dropWhile (\<lambda>c. c \<noteq> CHR ''='') n = []"
    using n(2) by (auto simp: takeWhile_eq_all_conv)
  have "getopt_long optstring longopts ([], (''--'' @ n) # argv) = Some (Some (c, None, [], argv))"
    using n by (simp add: getopt_long_def option_word_def getopt_name_def t)
  then show ?thesis using n(3) by (auto simp: Long intro: getopt_calls_refl call)
qed

lemma calls_items:
  "\<forall>item\<in>set items. item_ok optstring longopts item \<Longrightarrow>
    getopt_calls optstring longopts ([], concat (map item_words items) @ argv) (concat (map (item_options longopts) items)) ([], argv)"
  by (induction items) (auto intro: getopt_calls_refl getopt_calls_trans calls_item)

text \<open>
  The words written for a sequence of options, in any of the forms and with operands between them,
  are read back by \<open>getopt_long\<close> as these options, in order, up to the end or a word \<open>--\<close>.
\<close>

theorem getopt_roundtrip:
  assumes "\<forall>item\<in>set items. item_ok optstring longopts item"
  shows "getopt_results optstring longopts ([], concat (map item_words items)) = Some (concat (map (item_options longopts) items)) \<and>
    getopt_results optstring longopts ([], concat (map item_words items) @ ''--'' # operands) = Some (concat (map (item_options longopts) items))"
proof -
  have "getopt_long optstring longopts ([], []) = Some None" "getopt_long optstring longopts ([], ''--'' # operands) = Some None"
    by (simp_all add: getopt_long_def option_word_def)
  from this [THEN parse_args_end(2)] show ?thesis
    using getopt_calls_results [OF calls_items [OF assms]] by (metis append_Nil2 option.map(2))
qed

subsection \<open>The two programs from their words\<close>

definition OPOF_VERSION :: string where
  "OPOF_VERSION = ''v1beta1''"

text \<open>The tables.\<close>

definition client_optstring :: string where
  "client_optstring = ''a:p:n:b:t:c:flvh''"

definition client_longopts :: "long_option list" where
  "client_longopts =
    [(''version'', no_argument, CHR ''v''),
     (''address'', no_argument, CHR ''a''),
     (''port'', no_argument, CHR ''p''),
     (''verbose'', no_argument, CHR ''v''),
     (''number'', no_argument, CHR ''n''),
     (''buffersize'', no_argument, CHR ''b''),
     (''config'', no_argument, CHR ''c''),
     (''test'', no_argument, CHR ''t''),
     (''full'', no_argument, CHR ''f''),
     (''list'', no_argument, CHR ''l''),
     (''help'', no_argument, CHR ''h'')]"

definition server_optstring :: string where
  "server_optstring = ''a:p:vh''"

definition server_longopts :: "long_option list" where
  "server_longopts =
    [(''version'', no_argument, CHR ''v''),
     (''address'', no_argument, CHR ''a''),
     (''port'', no_argument, CHR ''p''),
     (''help'', no_argument, CHR ''h'')]"

text \<open>What the options print. A switch that takes no case for a character prints its code.\<close>

definition unrecognized :: "char \<Rightarrow> string" where
  "unrecognized c = ''Ignoring unrecognized command line option:'' @ show_int (of_char c) @ NL @ '' ''"

definition opof_list_tests :: string where
  "opof_list_tests = concat
    [NL, NL, ''Avaialble Tests'', NL,
     TAB, ''Test 1: Use addSession to create a large number of sessions, then call getClosedSessions'', NL,
     TAB, ''Test 2: Use addSession to create a large number of sessions, then call getAllSessions'', NL,
     TAB, ''Test 3: Use addSession to create a session using config file and then get the sessions'', NL,
     TAB, ''Test 4: Use addSession to create a session using config file and then delete the sessions'', NL,
     TAB, ''Test 5: Test that getClosedSessions works when there are no sessions in session table'', NL,
     TAB, ''Test 6: Test duplicate session errors'', NL,
     TAB, ''Test 7: Test get and delete session not found errors'', NL,
     TAB, ''Test 8: Test delete session and reconnect'', NL,
     TAB, ''Test 9: Test session client timeout and reconnect'', NL,
     TAB, ''Test 10: Test session client timeout and reconnect'', NL,
     TAB, ''Test 11: Use addSession to create a large number of sessions (IPV6), then call getClosedSessions'', NL,
     NL]"

definition client_help :: string where
  "client_help = concat
    [NL, ''Command line arguments for OpenOffload tests version: '', OPOF_VERSION, '' '', NL,
     TAB, ''-p, --port            gRPC Port '', NL,
     TAB, ''-a, --address         Address of gRPC Server'', NL,
     TAB, ''-n, --number          Number of sessions'', NL,
     TAB, ''-b, --buffersize      Streaming buffer size'', NL,
     TAB, ''-v, --verbose         Verbose output'', NL,
     TAB, ''-c, --config          Configuration file'', NL,
     TAB, ''-t, --test            Test to run'', NL,
     TAB, ''-f, --full            Run full test suite'', NL,
     TAB, ''-l, --list            List all tests'', NL,
     TAB, ''-h, --help:           Command line help '', NL, NL]"

definition client_prints :: "char \<Rightarrow> string" where
  "client_prints c =
     (if c \<in> set ''vpanbfct'' then []
      else if c = CHR ''l'' then opof_list_tests
      else if c = CHR ''h'' then client_help
      else unrecognized c)"

definition server_help :: string where
  "server_help = concat
    [NL, ''Command line arguments for OpenOffload server tests version: '', OPOF_VERSION, '' '', NL,
     TAB, ''-p, --port            gRPC Port '', NL,
     TAB, ''-a, --address         Address of gRPC Server'', NL,
     TAB, ''-v, --version         Version of Open Offload Program'', NL,
     TAB, ''-h, --help:           Command line help '', NL, NL]"

definition server_prints :: "char \<Rightarrow> string" where
  "server_prints c =
     (if c = CHR ''v'' then concat [NL, ''Version of OPOF Program: '', OPOF_VERSION, NL, NL]
      else if c \<in> set ''pa'' then []
      else if c = CHR ''h'' then server_help
      else unrecognized c)"

text \<open>
  The programs from \<open>argv\<close> to the exit, with the text that the options print; the first word is the
  name of the program.
\<close>

definition client_program ::
  "sys \<Rightarrow> 'w env \<Rightarrow> string list \<Rightarrow> char list \<Rightarrow> char list \<Rightarrow> char list \<Rightarrow> 'w tester \<Rightarrow> (string \<times> int \<times> 'w tester) option" where
  "client_program sys env argv address test_config cert st = do {
     opts \<leftarrow> client_defaults address test_config;
     (out, r) \<leftarrow> parse_args client_prints client_option client_optstring client_longopts ([], drop 1 argv) opts;
     case r of
       Inl status \<Rightarrow> Some (out, status, st)
     | Inr opts \<Rightarrow> do {
         (status, st) \<leftarrow> client_run sys env opts cert st;
         Some (out, status, st) } }"

definition server_program ::
  "sys \<Rightarrow> bool \<Rightarrow> string list \<Rightarrow> char list \<Rightarrow> char list \<Rightarrow> char list \<Rightarrow> (string \<times> (int + server_config)) option" where
  "server_program sys with_ssl argv address cert key_buf = do {
     opts \<leftarrow> server_defaults address;
     (out, r) \<leftarrow> parse_args server_prints server_option server_optstring server_longopts ([], drop 1 argv) opts;
     case r of
       Inl status \<Rightarrow> Some (out, Inl status)
     | Inr opts \<Rightarrow> do {
         r \<leftarrow> server_start sys with_ssl opts cert key_buf;
         Some (out, r) } }"

text \<open>A program does for the words what its \<open>main\<close> does for the options written in them.\<close>

lemma client_program_items:
  assumes "\<forall>item\<in>set items. item_ok client_optstring client_longopts item"
  shows "map_option snd (client_program sys env (prog # concat (map item_words items)) address test_config cert st) =
    client_main sys env (concat (map (item_options client_longopts) items)) address test_config cert st"
proof -
  have e: "getopt_long client_optstring client_longopts ([], []) = Some None" by (simp add: getopt_long_def)
  show ?thesis
    using getopt_calls_parse [OF calls_items [OF assms], of client_prints client_option "[]"]
    by (auto simp: client_program_def client_main_def parse_args_end(1) [OF e] option.map_comp comp_def
        intro!: Option.bind_cong split: option.splits sum.splits Option.bind_splits)
qed

lemma server_program_items:
  assumes "\<forall>item\<in>set items. item_ok server_optstring server_longopts item"
  shows "map_option snd (server_program sys with_ssl (prog # concat (map item_words items)) address cert key_buf) =
    server_main sys with_ssl (concat (map (item_options server_longopts) items)) address cert key_buf"
proof -
  have e: "getopt_long server_optstring server_longopts ([], []) = Some None" by (simp add: getopt_long_def)
  show ?thesis
    using getopt_calls_parse [OF calls_items [OF assms], of server_prints server_option "[]"]
    by (auto simp: server_program_def server_main_def parse_args_end(1) [OF e] option.map_comp comp_def
        intro!: Option.bind_cong split: option.splits sum.splits Option.bind_splits)
qed

subsection \<open>The client from its command line\<close>

text \<open>
  C29: The client program started with words that mean \<open>-f\<close>, and \<open>-v\<close>, \<open>-a\<close> and \<open>-p\<close> in any
  order and form (\<open>-fv\<close>, \<open>-p 99\<close>, \<open>-p99\<close>, \<open>--full\<close>), runs the full suite, when the certificate can be read
  and the server holds sessions with small ids: it calls \<open>opof_fullTestSuite\<close> once, with the address of the last
  \<open>-a\<close> and the port of the last \<open>-p\<close>, or \<open>localhost\<close> and 3443 without one, and with the certificate of the
  file; it ends in the state in which the suite ends, with exit status 1, the only one a run of the tests can have,
  and the server is empty.
\<close>

theorem client_program_full_suite:
  assumes "\<forall>item\<in>set items. item_ok client_optstring client_longopts item"
    and "args = concat (map (item_options client_longopts) items)"
    and "list_all suite_option args" and "flag CHR ''f'' \<in> set args"
    and "length b = 64" and "t \<noteq> []" and "length cert = 2048"
    and "log_dir_exists sys \<or> mkdir_ok sys" and "files sys CERT_FILE = Some content"
    and "holds_ids (world (conn st)) ids" and "\<forall>k\<in>set ids. k < 2 ^ 31"
    and "\<forall>address cert. served (new_client env address cert)" and "length (sessionErrors (uninit_add env)) = BUFFER_MAX"
  shows "\<exists>out st'. client_program sys env (prog # concat (map item_words items)) b t cert st = Some (out, 1, st') \<and>
    opof_fullTestSuite env (named_host args) (named_port args) (client_cert env content) st = Some (SUCCESS, st') \<and>
    holds_ids (world (conn st')) []"
proof -
  obtain st' where "client_main sys env args b t cert st = Some (1, st')"
    "opof_fullTestSuite env (named_host args) (named_port args) (client_cert env content) st = Some (SUCCESS, st')"
    "holds_ids (world (conn st')) []" using client_main_suite [OF assms(3-13)] by blast
  then show ?thesis using client_program_items [OF assms(1), of sys env prog b t cert st] assms(2) by auto
qed

text \<open>Without \<open>-l\<close> and \<open>-h\<close> the options do not end the client.\<close>

lemma client_options_no_exit:
  assumes "list_all (\<lambda>x. fst x \<notin> {CHR ''l'', CHR ''h''}) args"
  shows "getopt_loop client_option args co \<noteq> Some (Inl status)"
  using assms
proof (induction args arbitrary: co)
  case (Cons x args)
  have "client_option (fst x) (snd x) co \<noteq> Some (Inl s)" for s
    using Cons.prems by (auto simp: client_option_def bind_eq_Some_conv)
  then show ?case
    using Cons by (cases x; cases "client_option (fst x) (snd x) co") (auto split: sum.splits)
qed simp

definition argument_names :: "string list" where
  "argument_names = [''address'', ''port'', ''number'', ''buffersize'', ''config'', ''test'']"

lemma long_name_calls:
  assumes "n \<in> set argument_names"
  shows "\<exists>c. client_option c None co = None \<and>
    getopt_calls client_optstring client_longopts ([], (''--'' @ n) # argv) [flag c] ([], argv)"
proof -
  obtain c where c: "item_ok client_optstring client_longopts (Long n)" "item_options client_longopts (Long n) = [flag c]"
      "client_option c None co = None"
    using assms by (auto simp: argument_names_def client_longopts_def client_option_def flag_def)
  then show ?thesis using calls_item [OF c(1), of argv] by auto
qed

lemma unknown_name_faults:
  assumes "map_of longopts (takeWhile (\<lambda>c. c \<noteq> CHR ''='') n) = None" and "n \<noteq> []"
  shows "getopt_long optstring longopts ([], (''--'' @ n) # argv) = None"
  using assms by (simp add: getopt_long_def option_word_def getopt_name_def)

text \<open>
  C40: The long options that the help describes with a value do not take one. A word like
  \<open>--port\<close> makes the client read through a null pointer, whatever follows; so does every name that is
  not in the table, by reading past its end; and \<open>--port=99\<close> is printed as unrecognized and ignored.
\<close>

theorem client_long_options:
  assumes "\<forall>item\<in>set items. item_ok client_optstring client_longopts item"
    and "list_all (\<lambda>x. fst x \<notin> {CHR ''l'', CHR ''h''}) (concat (map (item_options client_longopts) items))"
    and "n \<in> set argument_names"
    and "map_of client_longopts (takeWhile (\<lambda>c. c \<noteq> CHR ''='') m) = None" and "m \<noteq> []"
  shows "client_program sys env (prog # concat (map item_words items) @ (''--'' @ n) # argv) b t cert st = None \<and>
    client_program sys env (prog # concat (map item_words items) @ (''--'' @ m) # argv) b t cert st = None \<and>
    map_option snd (client_program sys env (prog # (''--'' @ n @ ''='' @ arg) # concat (map item_words items)) b t cert st) =
      client_main sys env (concat (map (item_options client_longopts) items)) b t cert st"
proof (intro conjI)
  let ?args = "concat (map (item_options client_longopts) items)"
  have calls: "getopt_calls client_optstring client_longopts ([], concat (map item_words items) @ argv) ?args ([], argv)" for argv
    by (rule calls_items [OF assms(1)])
  have fault: "client_program sys env (prog # concat (map item_words items) @ argv) b t cert st = None"
    if "\<And>co. parse_args client_prints client_option client_optstring client_longopts ([], argv) co = None" for argv
    using getopt_calls_parse [OF calls, of client_prints client_option argv] client_options_no_exit [OF assms(2)] that
    by (auto simp: client_program_def split: option.splits sum.splits Option.bind_splits)
  show "client_program sys env (prog # concat (map item_words items) @ (''--'' @ n) # argv) b t cert st = None"
  proof (rule fault)
    fix co
    obtain c where c: "client_option c None co = None"
      "getopt_calls client_optstring client_longopts ([], (''--'' @ n) # argv) [flag c] ([], argv)"
      using long_name_calls [OF assms(3)] by blast
    then show "parse_args client_prints client_option client_optstring client_longopts ([], (''--'' @ n) # argv) co = None"
      using getopt_calls_parse [OF c(2), of client_prints client_option co] by (simp add: flag_def)
  qed
  show "client_program sys env (prog # concat (map item_words items) @ (''--'' @ m) # argv) b t cert st = None"
    by (rule fault) (rule parse_args_fault [OF unknown_name_faults [OF assms(4,5)]])
  have eq: "takeWhile (\<lambda>c. c \<noteq> CHR ''='') (n @ ''='' @ arg) = n" "dropWhile (\<lambda>c. c \<noteq> CHR ''='') (n @ ''='' @ arg) = CHR ''='' # arg"
    using assms(3) by (auto simp: argument_names_def)
  obtain c where "map_of client_longopts n = Some (no_argument, c)" "n \<noteq> []"
    using assms(3) by (auto simp: argument_names_def client_longopts_def)
  then have "getopt_long client_optstring client_longopts ([], (''--'' @ n @ ''='' @ arg) # argv) = Some (Some (CHR ''?'', None, [], argv))" for argv
    using eq by (simp add: getopt_long_def option_word_def getopt_name_def)
  then have "getopt_calls client_optstring client_longopts ([], (''--'' @ n @ ''='' @ arg) # concat (map item_words items) @ [])
      (flag CHR ''?'' # ?args) ([], [])"
    unfolding flag_def by (rule call) (rule calls)
  moreover have "getopt_long client_optstring client_longopts ([], []) = Some None" by (simp add: getopt_long_def)
  moreover have "client_option CHR ''?'' None co = Some (Inr co)" for co by (simp add: client_option_def)
  ultimately show "map_option snd (client_program sys env (prog # (''--'' @ n @ ''='' @ arg) # concat (map item_words items)) b t cert st) =
      client_main sys env ?args b t cert st"
    using getopt_calls_parse [of client_optstring client_longopts _ _ _ client_prints client_option]
    by (auto simp: client_program_def client_main_def parse_args_end(1) option.map_comp comp_def flag_def
        intro!: Option.bind_cong split: option.splits sum.splits Option.bind_splits)
qed

subsection \<open>Signals\<close>

text \<open>
  The signals for which the two programs install \<open>signal_handler\<close>, before they look at the log
  directory. A fault while the options are read comes earlier and ends the process.
\<close>

definition client_signals :: "signal list" where
  "client_signals = [SIGHUP, SIGTERM, SIGINT, OTHER_SIGNAL ''Illegal instruction'', OTHER_SIGNAL ''Aborted'', SIGSEGV]"

definition server_signals :: "signal list" where
  "server_signals = [SIGHUP, SIGTERM, SIGINT, OTHER_SIGNAL ''Illegal instruction'', OTHER_SIGNAL ''Aborted'', SIGSEGV]"

text \<open>
  After every signal that ends it, a segmentation fault among them, a program exits with the status
  of success; the three others are logged and the program goes on.
\<close>

lemma program_signals:
  assumes "sig \<in> set client_signals \<union> set server_signals"
  shows "snd (signal_handler sig) = (if sig \<in> {SIGTERM, SIGINT, SIGSEGV} then Inl EXIT_SUCCESS else Inr ())"
  using assms by (auto simp: client_signals_def server_signals_def)

subsection \<open>The properties on concrete inputs\<close>

lemma getopt_roundtrip_witness:
  "getopt_results client_optstring client_longopts ([], [''x'', ''-vp99'', ''--full'', ''-a'', ''-h'']) =
     Some [(CHR ''v'', None), (CHR ''p'', Some ''99''), (CHR ''f'', None), (CHR ''a'', Some ''-h'')]"
  using getopt_roundtrip [of "[Operand ''x'', Arg_Attached ''v'' CHR ''p'' ''99'', Long ''full'', Arg_Next [] CHR ''a'' ''-h'']"
      client_optstring client_longopts "[]"]
  by (simp add: flags_ok_def option_word_def client_optstring_def client_longopts_def flag_def)

lemma client_program_full_suite_witness:
  "\<exists>s out st'. run_all add_ok (map ex_request [1, 2, 3]) (server_init ex_rng) = Some s \<and>
     client_program \<lparr>files = [CERT_FILE \<mapsto> ''cert''], log_dir_exists = True, mkdir_ok = True\<rparr> ex_env
       [''opof_client_test'', ''-f'', ''-v'', ''-p99''] (replicate 64 NUL) [NUL] (replicate 2048 NUL) (ex_tester s) = Some (out, 1, st') \<and>
     opof_fullTestSuite ex_env ''localhost'' 99 (client_cert ex_env ''cert'') (ex_tester s) = Some (SUCCESS, st') \<and>
     holds_ids (world (conn st')) []"
proof -
  obtain s where s: "run_all add_ok (map ex_request [1, 2, 3]) (server_init ex_rng) = Some s"
    and h: "holds_ids s [1, 2, 3]" by (rule ex_holds)
  let ?items = "[Flags ''f'', Flags ''v'', Arg_Attached [] CHR ''p'' ''99'']"
  have i: "\<forall>item\<in>set ?items. item_ok client_optstring client_longopts item"
    by (simp add: flags_ok_def client_optstring_def)
  define args where "args = concat (map (item_options client_longopts) ?items)"
  have args: "args = [flag CHR ''f'', flag CHR ''v'', (CHR ''p'', Some ''99'')]" by (simp add: args_def)
  have a: "list_all suite_option args" "flag CHR ''f'' \<in> set args"
    by (simp_all add: args suite_option_def common_option_def flag_def)
  have "strtoul ''99'' = 99" by (simp add: strtoul_def is_digit_def is_space_def digits_value_def Let_def)
  then have n: "named_host args = ''localhost''" "named_port args = 99"
    by (simp_all add: args flag_def named_host_def named_port_def)
  have l: "length (replicate 64 NUL) = 64" "[NUL] \<noteq> []" "length (replicate 2048 NUL) = 2048" by simp_all
  have h': "holds_ids (world (conn (ex_tester s))) [1, 2, 3]" using h by simp
  have k: "\<forall>k\<in>set [1, 2, 3 :: u64]. k < 2 ^ 31" by simp
  define sys where "sys = \<lparr>files = [CERT_FILE \<mapsto> ''cert''], log_dir_exists = True, mkdir_ok = True\<rparr>"
  have f: "log_dir_exists sys \<or> mkdir_ok sys" "files sys CERT_FILE = Some ''cert''" by (simp_all add: sys_def)
  show ?thesis
    using s client_program_full_suite [OF i args_def a l f h' k ex_simps(4,5), of "''opof_client_test''"]
    unfolding n sys_def by auto
qed

definition ex_sys :: sys where
  "ex_sys = \<lparr>files = [CERT_FILE \<mapsto> ''cert''], log_dir_exists = True, mkdir_ok = True\<rparr>"

definition ex_program :: "string list \<Rightarrow> (string \<times> int \<times> server tester) option" where
  "ex_program words = client_program ex_sys ex_env (''opof_client_test'' # words)
     (replicate 64 NUL) [NUL] (replicate 2048 NUL) (ex_tester (server_init ex_rng))"

lemma client_long_options_witness:
  "ex_program [''-v'', ''--port'', ''99''] = None \<and> ex_program [''-v'', ''--sessions'', ''99''] = None \<and>
   map_option snd (ex_program [''--port=99'', ''-v'']) = client_main ex_sys ex_env [(CHR ''v'', None)]
     (replicate 64 NUL) [NUL] (replicate 2048 NUL) (ex_tester (server_init ex_rng))"
proof -
  have i: "\<forall>item\<in>set [Flags ''v'']. item_ok client_optstring client_longopts item"
    by (simp add: flags_ok_def client_optstring_def)
  have a: "list_all (\<lambda>x. fst x \<notin> {CHR ''l'', CHR ''h''}) (concat (map (item_options client_longopts) [Flags ''v'']))"
    by (simp add: flag_def)
  have n: "''port'' \<in> set argument_names" by (simp add: argument_names_def)
  have m: "map_of client_longopts (takeWhile (\<lambda>c. c \<noteq> CHR ''='') ''sessions'') = None" "''sessions'' \<noteq> []"
    by (simp_all add: client_longopts_def)
  show ?thesis
    using client_long_options [OF i a n m, of ex_sys ex_env "''opof_client_test''" "[''99'']"
        "replicate 64 NUL" "[NUL]" "replicate 2048 NUL" "ex_tester (server_init ex_rng)" "''99''"]
    unfolding ex_program_def by (simp only: flag_def list.map concat.simps item_words.simps item_options.simps append.simps)
qed

end
