(* ===== verification/Config.thy ===== *)
theory Config
  imports Inet
begin

text \<open>
  The configuration file of the test client, \<open>src/opof_config.c\<close>. The library \<open>libconfig\<close> is a
  parameter: what it reads from a file, the elements of the list \<open>testdata.requests\<close> if there is one,
  and the lookups of a number and of a text in an element, which fail when the element has no such
  setting of that type. Messages are left out. \<open>exit\<close> is \<open>None\<close>.
\<close>

record ('c, 's) libconfig =
  config_read_file :: "string \<Rightarrow> 'c option"
  config_requests :: "'c \<Rightarrow> 's list option"
  lookup_int :: "'s \<Rightarrow> string \<Rightarrow> 32 word option"
  lookup_string :: "'s \<Rightarrow> string \<Rightarrow> string option"

text \<open>
  The locals that live through the whole loop. The pointers are \<open>None\<close> until they are assigned; the
  number and the two addresses start with any value.
\<close>

record config_locals =
  cl_value :: "32 word"
  cl_srcaddr :: "string option"
  cl_dstaddr :: "string option"
  cl_nexthopaddr :: "string option"
  cl_addr4 :: in_addr
  cl_addr6 :: in6_addr

text \<open>A failed lookup and a failed \<open>inet_pton\<close> leave the variable as it is.\<close>

definition lookup_value :: "('c, 's) libconfig \<Rightarrow> 's \<Rightarrow> string \<Rightarrow> config_locals \<Rightarrow> config_locals" where
  "lookup_value lc session name l = (case lookup_int lc session name of None \<Rightarrow> l | Some v \<Rightarrow> l\<lparr>cl_value := v\<rparr>)"

definition lookup_addr :: "('c, 's) libconfig \<Rightarrow> 's \<Rightarrow> string \<Rightarrow> string option \<Rightarrow> string option" where
  "lookup_addr lc session name p = (case lookup_string lc session name of None \<Rightarrow> p | Some s \<Rightarrow> Some s)"

definition pton4 :: "string option \<Rightarrow> config_locals \<Rightarrow> config_locals option" where
  "pton4 p l = do { s \<leftarrow> p; Some (case inet_pton4 s of None \<Rightarrow> l | Some a \<Rightarrow> l\<lparr>cl_addr4 := a\<rparr>) }"

definition pton6 :: "string option \<Rightarrow> config_locals \<Rightarrow> config_locals option" where
  "pton6 p l = do { s \<leftarrow> p; Some (case inet_pton6 s of None \<Rightarrow> l | Some a \<Rightarrow> l\<lparr>cl_addr6 := a\<rparr>) }"

text \<open>
  One round of the loop: the request allocated as \<open>request\<close> is filled from the setting \<open>session\<close>. The
  destination of an IPv4 request goes through \<open>srcaddr\<close>. \<open>cacheTimeout\<close> is not assigned.
\<close>

definition read_request ::
  "('c, 's) libconfig \<Rightarrow> 's \<Rightarrow> sessionRequest_t \<Rightarrow> config_locals \<Rightarrow> (sessionRequest_t \<times> config_locals) option" where
  "read_request lc session request l = do {
     let l = lookup_value lc session ''sessionid'' l;
     let request = request\<lparr>sessId := scast (cl_value l)\<rparr>;
     let l = lookup_value lc session ''actiontype'' l;
     let request = request\<lparr>actType := cl_value l\<rparr>;
     let l = lookup_value lc session ''inlif'' l;
     let request = request\<lparr>inlif := cl_value l\<rparr>;
     let l = lookup_value lc session ''outlif'' l;
     let request = request\<lparr>outlif := cl_value l\<rparr>;
     let l = lookup_value lc session ''ipversion'' l;
     let request = request\<lparr>ipver := cl_value l\<rparr>;
     let v6 = (ipver request = ipver_code IPV6);
     let l = l\<lparr>cl_srcaddr := lookup_addr lc session ''sourceip'' (cl_srcaddr l)\<rparr>;
     l \<leftarrow> (if v6 then pton6 (cl_srcaddr l) l else pton4 (cl_srcaddr l) l);
     let request = (if v6 then request\<lparr>srcIPV6 := cl_addr6 l\<rparr> else request\<lparr>srcIP := cl_addr4 l\<rparr>);
     let l = l\<lparr>cl_nexthopaddr := lookup_addr lc session ''nexthop'' (cl_nexthopaddr l)\<rparr>;
     l \<leftarrow> (if v6 then pton6 (cl_nexthopaddr l) l else pton4 (cl_nexthopaddr l) l);
     let request = (if v6 then request\<lparr>nextHopV6 := cl_addr6 l\<rparr> else request\<lparr>nextHop := cl_addr4 l\<rparr>);
     let l = lookup_value lc session ''protocolid'' l;
     let request = request\<lparr>proto := cl_value l\<rparr>;
     let l = lookup_value lc session ''sourceport'' l;
     let request = request\<lparr>srcPort := ucast (cl_value l)\<rparr>;
     l \<leftarrow> (if v6
       then do {
         let l = l\<lparr>cl_dstaddr := lookup_addr lc session ''destinationip'' (cl_dstaddr l)\<rparr>;
         pton6 (cl_dstaddr l) l }
       else do {
         let l = l\<lparr>cl_srcaddr := lookup_addr lc session ''destinationip'' (cl_srcaddr l)\<rparr>;
         pton4 (cl_srcaddr l) l });
     let request = (if v6 then request\<lparr>dstIPV6 := cl_addr6 l\<rparr> else request\<lparr>dstIP := cl_addr4 l\<rparr>);
     let l = lookup_value lc session ''destinationport'' l;
     let request = request\<lparr>dstPort := ucast (cl_value l)\<rparr>;
     Some (request, l) }"

text \<open>The loop; the request of round \<open>i\<close> is allocated with the contents \<open>uninit i\<close>.\<close>

fun read_requests ::
  "('c, 's) libconfig \<Rightarrow> (nat \<Rightarrow> sessionRequest_t) \<Rightarrow> nat \<Rightarrow> 's list \<Rightarrow> config_locals \<Rightarrow> sessionRequest_t list option" where
  "read_requests lc uninit i [] l = Some []"
| "read_requests lc uninit i (session # requests) l = do {
     (request, l) \<leftarrow> read_request lc session (uninit i) l;
     sessionRequests \<leftarrow> read_requests lc uninit (Suc i) requests l;
     Some (request # sessionRequests) }"

text \<open>The result, \<open>None\<close> for NULL, with the number of requests, which is only written when there is a list.\<close>

definition read_config ::
  "('c, 's) libconfig \<Rightarrow> (nat \<Rightarrow> sessionRequest_t) \<Rightarrow> config_locals \<Rightarrow> string \<Rightarrow> u32 \<Rightarrow>
   (sessionRequest_t list option \<times> u32) option" where
  "read_config lc uninit l filename nsessions =
     (if filename \<noteq> [] then None
      else case config_read_file lc filename of
        None \<Rightarrow> Some (None, nsessions)
      | Some cfg \<Rightarrow> (case config_requests lc cfg of
          None \<Rightarrow> Some (None, nsessions)
        | Some requests \<Rightarrow> do {
            sessionRequests \<leftarrow> read_requests lc uninit 0 requests l;
            Some (Some sessionRequests, of_nat (length requests)) }))"

subsection \<open>Settings that describe a request\<close>

text \<open>
  The setting has every number of the request, as a 32-bit number, and its three addresses as text.
\<close>

definition describes :: "('c, 's) libconfig \<Rightarrow> 's \<Rightarrow> sessionRequest_t \<Rightarrow> bool" where
  "describes lc s r \<longleftrightarrow>
     lookup_int lc s ''sessionid'' = Some (ucast (sessId r)) \<and> scast (ucast (sessId r) :: 32 word) = sessId r \<and>
     lookup_int lc s ''actiontype'' = Some (actType r) \<and> lookup_int lc s ''inlif'' = Some (inlif r) \<and>
     lookup_int lc s ''outlif'' = Some (outlif r) \<and> lookup_int lc s ''ipversion'' = Some (ipver r) \<and>
     lookup_int lc s ''protocolid'' = Some (proto r) \<and>
     lookup_int lc s ''sourceport'' = Some (ucast (srcPort r)) \<and> lookup_int lc s ''destinationport'' = Some (ucast (dstPort r)) \<and>
     ipver r \<noteq> ipver_code IPV6 \<and>
     lookup_string lc s ''sourceip'' = Some (inet_ntop4 (srcIP r)) \<and>
     lookup_string lc s ''destinationip'' = Some (inet_ntop4 (dstIP r)) \<and>
     lookup_string lc s ''nexthop'' = Some (inet_ntop4 (nextHop r))"

text \<open>What the reader does not assign stays as it was allocated.\<close>

definition with_unread :: "sessionRequest_t \<Rightarrow> sessionRequest_t \<Rightarrow> sessionRequest_t" where
  "with_unread u r = r\<lparr>srcIPV6 := srcIPV6 u, dstIPV6 := dstIPV6 u, nextHopV6 := nextHopV6 u, cacheTimeout := cacheTimeout u\<rparr>"

lemma read_request_describes:
  assumes "describes lc s r"
  shows "\<exists>l'. read_request lc s u l = Some (with_unread u r, l')"
proof -
  have p: "ucast (ucast p :: 32 word) = p" for p :: u16 by transfer simp
  show ?thesis
    using assms
    by (simp add: describes_def read_request_def Let_def lookup_value_def lookup_addr_def pton4_def with_unread_def p
      sessionRequest_t.equality)
qed

lemma read_requests_describe:
  "list_all2 (describes lc) ss rs \<Longrightarrow>
     read_requests lc u i ss l = Some (map2 (\<lambda>j. with_unread (u j)) [i..<i + length ss] rs)"
proof (induction ss rs arbitrary: i l rule: list_all2_induct)
  case (Cons s ss r rs)
  obtain l' where "read_request lc s (u i) l = Some (with_unread (u i) r, l')"
    using read_request_describes [OF Cons(1)] by blast
  then show ?case using Cons(3) [of "Suc i" l'] by (simp add: upt_conv_Cons del: upt_Suc)
qed simp

text \<open>
  C30: when the elements of the list are settings that describe IPv4 requests, with the
  addresses as \<open>inet_ntop\<close> writes them and ids that fit in an \<open>int\<close>, the loop of the reader returns these
  requests, in order and in their number, with only the cache timeout and the unused IPv6 addresses
  as they were allocated, and whatever the locals held before. The program does not come as far as the loop for any
  file that has a name: the check of the name at the start is inverted and exits.
\<close>

theorem read_requests_roundtrip:
  assumes "list_all2 (describes lc) ss rs"
  shows "read_requests lc u 0 ss l = Some (map2 (\<lambda>j. with_unread (u j)) [0..<length ss] rs) \<and>
    (filename \<noteq> [] \<longrightarrow> read_config lc u l filename n = None)"
  using read_requests_describe [OF assms, of u 0 l] by (simp add: read_config_def)

text \<open>
  A setting that is missing is no error: the field takes the number that was looked up
  last, that is the id for the action, the action for the first interface and so on, the protocol
  number for the source port, the source port for the destination port, and for the id the last
  number of the request before.
\<close>

theorem missing_settings:
  assumes "read_request lc s u l = Some (r, l')"
  shows "(lookup_int lc s ''sessionid'' = None \<longrightarrow> sessId r = scast (cl_value l)) \<and>
    (lookup_int lc s ''actiontype'' = None \<longrightarrow> actType r = ucast (sessId r)) \<and>
    (lookup_int lc s ''inlif'' = None \<longrightarrow> inlif r = actType r) \<and>
    (lookup_int lc s ''outlif'' = None \<longrightarrow> outlif r = inlif r) \<and>
    (lookup_int lc s ''ipversion'' = None \<longrightarrow> ipver r = outlif r) \<and>
    (lookup_int lc s ''protocolid'' = None \<longrightarrow> proto r = ipver r) \<and>
    (lookup_int lc s ''sourceport'' = None \<longrightarrow> srcPort r = ucast (proto r)) \<and>
    (lookup_int lc s ''destinationport'' = None \<longrightarrow> dstPort r = srcPort r) \<and>
    dstPort r = ucast (cl_value l')"
proof -
  have i: "ucast (scast v :: 64 word) = v" for v :: "32 word" by transfer (simp add: take_bit_signed_take_bit)
  have p: "pton4 q m = Some m' \<Longrightarrow> cl_value m' = cl_value m" "pton6 q m = Some m' \<Longrightarrow> cl_value m' = cl_value m" for q m m'
    by (auto simp: pton4_def pton6_def split: option.splits Option.bind_splits)
  define val where "val name v = (case lookup_int lc s name of None \<Rightarrow> v | Some w \<Rightarrow> w)" for name v
  have c: "cl_value (lookup_value lc s name m) = val name (cl_value m)" for name m
    by (simp add: lookup_value_def val_def split: option.splits)
  have n: "val name v = v" if "lookup_int lc s name = None" for name v
    using that by (simp add: val_def)
  show ?thesis
    using assms unfolding read_request_def Let_def
    by (cases "val ''ipversion'' (val ''outlif'' (val ''inlif'' (val ''actiontype'' (val ''sessionid'' (cl_value l))))) = ipver_code IPV6")
      (clarsimp simp: c split: Option.bind_split_asm dest!: p; simp add: n i c)+
qed

subsection \<open>The properties on a concrete file\<close>

text \<open>A file is its list of settings, a setting its numbers and its texts.\<close>

definition ex_setting :: "(string \<Rightarrow> 32 word option) \<times> (string \<Rightarrow> string option)" where
  "ex_setting =
     ([''sessionid'' \<mapsto> 12345, ''actiontype'' \<mapsto> 1, ''inlif'' \<mapsto> 1, ''outlif'' \<mapsto> 2, ''protocolid'' \<mapsto> 6,
        ''ipversion'' \<mapsto> 0, ''sourceport'' \<mapsto> 80, ''destinationport'' \<mapsto> 34124],
      [''nexthop'' \<mapsto> inet_ntop4 3, ''sourceip'' \<mapsto> inet_ntop4 10, ''destinationip'' \<mapsto> inet_ntop4 11])"

definition ex_lc :: "(((string \<Rightarrow> 32 word option) \<times> (string \<Rightarrow> string option)) list,
    (string \<Rightarrow> 32 word option) \<times> (string \<Rightarrow> string option)) libconfig" where
  "ex_lc = \<lparr>config_read_file = (\<lambda>f. Some [ex_setting]), config_requests = Some, lookup_int = fst, lookup_string = snd\<rparr>"

definition ex_locals :: config_locals where
  "ex_locals = \<lparr>cl_value = 0, cl_srcaddr = None, cl_dstaddr = None, cl_nexthopaddr = None, cl_addr4 = 0, cl_addr6 = replicate 16 0\<rparr>"

definition ex_configured :: sessionRequest_t where
  "ex_configured = \<lparr>sessId = 12345, inlif = 1, outlif = 2, srcIP = 10, srcIPV6 = replicate 16 0, dstIP = 11, dstIPV6 = replicate 16 0,
     srcPort = 80, dstPort = 34124, proto = 6, ipver = 0, actType = 1, nextHop = 3, nextHopV6 = replicate 16 0, cacheTimeout = 0\<rparr>"

lemma read_requests_roundtrip_witness:
  "read_requests ex_lc (\<lambda>_. ex_configured) 0 [ex_setting, ex_setting] ex_locals = Some [ex_configured, ex_configured] \<and>
   read_config ex_lc (\<lambda>_. ex_configured) ex_locals ''sessions.cfg'' 0 = None"
proof -
  have d: "list_all2 (describes ex_lc) [ex_setting, ex_setting] [ex_configured, ex_configured]"
    by (simp add: ex_lc_def ex_setting_def describes_def ex_configured_def)
  have "with_unread ex_configured ex_configured = ex_configured" by (simp add: with_unread_def)
  then show ?thesis
    using read_requests_roundtrip [OF d, of "\<lambda>_. ex_configured" ex_locals "''sessions.cfg''" 0] by simp
qed

lemma missing_settings_witness:
  "\<exists>r l'. read_request ex_lc ([''protocolid'' \<mapsto> 17], [''nexthop'' \<mapsto> inet_ntop4 3, ''sourceip'' \<mapsto> inet_ntop4 10,
       ''destinationip'' \<mapsto> inet_ntop4 11]) ex_configured ex_locals = Some (r, l') \<and>
     proto r = 17 \<and> srcPort r = 17 \<and> dstPort r = 17"
proof -
  let ?s = "([''protocolid'' \<mapsto> 17], [''nexthop'' \<mapsto> inet_ntop4 3, ''sourceip'' \<mapsto> inet_ntop4 10, ''destinationip'' \<mapsto> inet_ntop4 11])
    :: (string \<Rightarrow> 32 word option) \<times> (string \<Rightarrow> string option)"
  obtain r l' where r: "read_request ex_lc ?s ex_configured ex_locals = Some (r, l')" and p: "proto r = 17"
    by (simp add: read_request_def ex_lc_def lookup_value_def lookup_addr_def pton4_def ex_locals_def)
  have m: "lookup_int ex_lc ?s ''sourceport'' = None" "lookup_int ex_lc ?s ''destinationport'' = None"
    by (simp_all add: ex_lc_def)
  show ?thesis using missing_settings [OF r] m r p by auto
qed

end
