(* ===== verification/Display.thy ===== *)
theory Display
  imports Test_Util
begin

text \<open>
  The printing of \<open>src/opof_test_util.c\<close>: each function is the text it writes to standard output. An
  enumeration is printed with \<open>%d\<close>, a \<open>long\<close> or \<open>unsigned long\<close> with \<open>%ld\<close>.
\<close>

text \<open>The conversions \<open>%d\<close>, \<open>%ld\<close> and \<open>%u\<close> of words.\<close>

definition show_d :: "32 word \<Rightarrow> string" where
  "show_d w = show_int (sint w)"

definition show_ld :: "64 word \<Rightarrow> string" where
  "show_ld w = show_int (sint w)"

subsection \<open>The functions\<close>

definition display_session_response :: "sessionResponse_t \<Rightarrow> string \<Rightarrow> string" where
  "display_session_response response message =
     NL @ NL @ ''Session Response: '' @ message @ NL @
     ''Session ID: '' @ show_ld (rsp_sessionId response) @ NL @
     ''In Packets '' @ show_ld (rsp_inPackets response) @ NL @
     ''Out Packets: '' @ show_ld (rsp_outPackets response) @ NL @
     ''In Bytes: '' @ show_ld (rsp_inBytes response) @ NL @
     ''Out Bytes: '' @ show_ld (rsp_outBytes response) @ NL @
     (let state = show_d (rsp_sessionState response) in
      if rsp_sessionState response = 0 then ''Session State ('' @ state @ '') _ESTABLSIHED '' @ NL
      else if rsp_sessionState response = 1 then ''Session State ('' @ state @ '') _CLOSING_1 '' @ NL
      else if rsp_sessionState response = 2 then ''Session State ('' @ state @ '') _CLOSING_2 '' @ NL
      else if rsp_sessionState response = 3 then ''Session State ('' @ state @ '') _CLOSED '' @ NL
      else if rsp_sessionCloseCode response = 4 then ''Session State ('' @ state @ '') _UNKNOWN_STATE '' @ NL
      else ''Session State Invalid value('' @ state @ '') '' @ NL) @
     (let code = show_d (rsp_sessionCloseCode response) in
      if rsp_sessionCloseCode response = 0 then ''Session Close Code ('' @ code @ '') _NOT_CLOSED '' @ NL
      else if rsp_sessionCloseCode response = 1 then ''Session Close Code ('' @ code @ '') _FINACK '' @ NL
      else if rsp_sessionCloseCode response = 2 then ''Session Close Code ('' @ code @ '') _RST '' @ NL
      else if rsp_sessionCloseCode response = 3 then ''Session Close Code ('' @ code @ '') _TIMEOUT '' @ NL
      else if rsp_sessionCloseCode response = 4 then ''Session Close Code ('' @ code @ '') _UNKNOWN_CLOSE_CODE '' @ NL
      else ''Session Close Code Invalid value ('' @ code @ '') '' @ NL) @
     (let status = show_d (rsp_requestStatus response) in
      if rsp_requestStatus response = 0 then ''Request Status ('' @ status @ '') _ACCEPTED'' @ NL
      else if rsp_requestStatus response = 1 then ''Request Status ('' @ status @ '') _REJECTED'' @ NL
      else if rsp_requestStatus response = 2 then ''Request Status ('' @ status @ '') _REJECTED_SESSION_NOTEXISTANT'' @ NL
      else if rsp_requestStatus response = 3 then ''Request Status ('' @ status @ '') _REJECTED_SESSION_TABLE_FULL'' @ NL
      else if rsp_requestStatus response = 4 then ''Request Status ('' @ status @ '') _REJECTED_SESSION_ALREADY_EXISTS'' @ NL
      else if rsp_requestStatus response = 5 then ''Request Status ('' @ status @ '') _NO_CLOSED_SESSIONS'' @ NL
      else ''Request Status Invalid Value: '' @ status @ NL)"

definition display_session_request :: "sessionRequest_t \<Rightarrow> string \<Rightarrow> string" where
  "display_session_request request message =
     NL @ NL @ ''Session Request: '' @ message @ NL @
     ''Session ID: '' @ show_ld (sessId request) @ NL @
     ''Inlif: '' @ show_d (inlif request) @ NL @
     ''Outlif: '' @ show_d (outlif request) @ NL @
     (if ipver request = ipver_code IPV6
      then ''IP Version: V6'' @ NL @
        ''Source IP: '' @ inet_ntop6 (srcIPV6 request) @ NL @
        ''Destination IP: '' @ inet_ntop6 (dstIPV6 request) @ NL @
        ''NextHop IP: '' @ inet_ntop6 (nextHopV6 request) @ NL
      else ''IP Version: V4'' @ NL @
        ''Source IP: '' @ inet_ntop4 (srcIP request) @ NL @
        ''Destination IP: '' @ inet_ntop4 (dstIP request) @ NL @
        ''NextHop IP: '' @ inet_ntop4 (nextHop request) @ NL) @
     ''Source Port: (Host Format) '' @ decimal (unat (ntohs (srcPort request))) @ NL @
     ''Destination Port (Host Format): '' @ decimal (unat (ntohs (dstPort request))) @ NL @
     (if proto request = 6 then ''Protocol Type ('' @ show_d (proto request) @ ''): TCP'' @ NL
      else if proto request = 17 then ''Protocol Type ('' @ show_d (proto request) @ ''): UDP'' @ NL
      else ''request->proto is: unknown'' @ NL) @
     (let action = show_d (actType request) in
      if actType request = 0 then ''Action Value ('' @ action @ ''): DROP'' @ NL
      else if actType request = 1 then ''Action Value ('' @ action @ ''):  FORWARD'' @ NL
      else if actType request = 2 then ''Action Value ('' @ action @ ''):  MIRROR'' @ NL
      else if actType request = 3 then ''Action Value ('' @ action @ ''):  SNOOP'' @ NL
      else ''Action Value ('' @ action @ ''): UNKNOWN'' @ NL) @
     ''Cache Session Timeout '' @ decimal (unat (cacheTimeout request)) @ NL"

definition print_response_header :: string where
  "print_response_header =
     NL @ NL @ ''  Session ID'' @ TAB @ '' In Packets'' @ TAB @ '' In Bytes'' @ TAB @ '' Out Packets'' @ TAB @
     ''  Out Bytes '' @ TAB @ TAB @ '' Session State '' @ TAB @ ''  Close Code'' @ TAB @ '' Request Status'' @ NL"

text \<open>The three texts of codes in a row.\<close>

definition state_text :: "u32 \<Rightarrow> string" where
  "state_text c =
     (if c = 0 then ''_ESTABLISHED'' else if c = 1 then ''__CLOSING_1'' else if c = 2 then ''_CLOSING_2''
      else if c = 3 then ''_CLOSED'' else if c = 4 then ''_UNKNOWN_STATE'' else ''ERROR '' @ show_d c)"

definition close_text :: "u32 \<Rightarrow> string" where
  "close_text c =
     (if c = 0 then ''_NOT_CLOSED'' else if c = 1 then ''_FINACK'' else if c = 2 then ''_RST''
      else if c = 3 then ''_TIMEOUT'' else if c = 4 then ''_UNKNOWN_CLOSE_CODE'' else ''ERROR '' @ show_d c)"

definition status_text :: "u32 \<Rightarrow> string" where
  "status_text c =
     (if c = 0 then ''_ACCEPTED'' else if c = 1 then ''_REJECTED'' else if c = 2 then ''_REJECTED_SESSION_NONEXISTANT''
      else if c = 3 then ''_REJECTED_SESSION_TABLE_FULL'' else if c = 4 then ''_REJECTED_SESSION_AREADY_EXISTS''
      else if c = 5 then ''_NO_CLOSED_SESSIONS'' else ''ERROR '' @ show_d c)"

definition print_response :: "sessionResponse_t \<Rightarrow> string" where
  "print_response response =
     pad 12 (decimal (unat (rsp_sessionId response))) @ TAB @ '' '' @
     pad 12 (show_ld (rsp_inPackets response)) @ TAB @ '' '' @
     pad 12 (show_ld (rsp_inBytes response)) @ TAB @ '' '' @
     pad 12 (show_ld (rsp_outPackets response)) @ TAB @ '' '' @
     pad 12 (show_ld (rsp_outBytes response)) @ TAB @
     TAB @
     state_text (rsp_sessionState response) @
     TAB @ TAB @
     close_text (rsp_sessionCloseCode response) @
     TAB @
     status_text (rsp_requestStatus response) @
     NL"

subsection \<open>Rows can be told apart\<close>

lemma separated_eq: "c \<notin> set xs \<Longrightarrow> c \<notin> set ys \<Longrightarrow> xs @ c # s = ys @ c # t \<longleftrightarrow> xs = ys \<and> s = t"
proof (induction xs arbitrary: ys)
  case Nil
  then show ?case by (cases ys) auto
next
  case (Cons x xs)
  then show ?case by (cases ys) auto
qed

lemma decimal_inject [simp]: "decimal m = decimal n \<longleftrightarrow> m = n"
  using decimal_digits [of m] decimal_digits [of n] by metis

lemma decimal_not_minus: "decimal n \<noteq> CHR ''-'' # s"
proof
  assume "decimal n = CHR ''-'' # s"
  then have "is_digit CHR ''-''" using decimal_digits [of n] by simp
  then show False by (simp add: is_digit_def)
qed

lemma show_int_inject [simp]: "show_int i = show_int j \<longleftrightarrow> i = j"
  using decimal_not_minus decimal_not_minus [symmetric] by (auto simp: show_int_def)

lemma sint_inject: "sint v = sint w \<longleftrightarrow> v = w"
  using signed_word_eqI by auto

lemma show_d_inject [simp]: "show_d v = show_d w \<longleftrightarrow> v = w"
  by (simp add: show_d_def sint_inject)

lemma show_ld_inject [simp]: "show_ld v = show_ld w \<longleftrightarrow> v = w"
  by (simp add: show_ld_def sint_inject)

lemma show_int_chars: "\<not> is_digit c \<Longrightarrow> c \<noteq> CHR ''-'' \<Longrightarrow> c \<notin> set (show_int i)"
  by (simp add: show_int_def decimal_not_sep)

lemma no_blanks:
  "CHR '' '' \<notin> set (decimal n)" "CHR 0x09 \<notin> set (decimal n)" "CHR 0x0A \<notin> set (decimal n)"
  "CHR '' '' \<notin> set (show_int i)" "CHR 0x09 \<notin> set (show_int i)" "CHR 0x0A \<notin> set (show_int i)"
  by (simp_all add: decimal_not_sep show_int_chars is_digit_def)

lemma pad_set: "c \<in> set (pad w s) \<Longrightarrow> c = CHR '' '' \<or> c \<in> set s"
  by (auto simp: pad_def)

lemma pad_inject:
  assumes "CHR '' '' \<notin> set s" and "CHR '' '' \<notin> set t"
  shows "pad w s = pad w t \<longleftrightarrow> s = t"
proof
  assume "pad w s = pad w t"
  then have "filter (\<lambda>c. c \<noteq> CHR '' '') (pad w s) = filter (\<lambda>c. c \<noteq> CHR '' '') (pad w t)" by simp
  moreover have "filter (\<lambda>c. c \<noteq> CHR '' '') u = u" if "CHR '' '' \<notin> set u" for u
    using that by (auto simp: filter_id_conv)
  ultimately show "s = t" using assms by (simp add: pad_def)
qed simp

lemma state_text_inject [simp]: "state_text c = state_text d \<longleftrightarrow> c = d"
  by (auto simp: state_text_def split: if_splits)

lemma close_text_inject [simp]: "close_text c = close_text d \<longleftrightarrow> c = d"
  by (auto simp: close_text_def split: if_splits)

lemma status_text_inject [simp]: "status_text c = status_text d \<longleftrightarrow> c = d"
  by (auto simp: status_text_def split: if_splits)

lemma texts_no_tab:
  "CHR 0x09 \<notin> set (state_text c)" "CHR 0x09 \<notin> set (close_text c)" "CHR 0x0A \<notin> set (status_text c)"
  by (simp_all add: state_text_def close_text_def status_text_def show_d_def no_blanks)

text \<open>
  A row of the table that the client prints determines the response: two
  responses with the same row are equal, whatever their codes are.
\<close>

theorem print_response_injective: "print_response r = print_response r' \<longleftrightarrow> r = r'"
proof
  assume eq: "print_response r = print_response r'"
  have tab: "CHR 0x09 \<notin> set (pad w (decimal n))" "CHR 0x09 \<notin> set (pad w (show_ld l))" for w n l
    using pad_set no_blanks by (fastforce simp: show_ld_def)+
  have pads: "pad w (decimal m) = pad w (decimal n) \<longleftrightarrow> m = n" "pad w (show_ld l) = pad w (show_ld k) \<longleftrightarrow> l = k" for w m n l k
    using pad_inject [of "decimal m" "decimal n"] pad_inject [of "show_ld l" "show_ld k"]
    by (simp_all add: no_blanks show_ld_def sint_inject)
  show "r = r'"
    using eq
    by (cases r; cases r') (simp add: print_response_def TAB_def NL_def separated_eq tab texts_no_tab pads flip: word_unat_eq_iff)
qed simp

subsection \<open>What the texts say\<close>

lemma fields_ne: "fields sep s \<noteq> []"
  by (induction s) (auto split: list.splits)

lemma fields_prefix: "sep \<notin> set s \<Longrightarrow> fields sep (s @ t) = (s @ hd (fields sep t)) # tl (fields sep t)"
  by (induction s) (auto simp: fields_ne)

text \<open>The line with the session state.\<close>

definition state_line :: "sessionResponse_t \<Rightarrow> string \<Rightarrow> string" where
  "state_line r message = fields CHR 0x0A (display_session_response r message) ! 8"

text \<open>
  \<open>display_session_response\<close> names the states 0 to 3; for any other state the
  text depends on the close code: it is \<open>_UNKNOWN_STATE\<close> when that is 4, and invalid otherwise, also
  when the state is 4.
\<close>

theorem display_unknown_state:
  assumes "CHR 0x0A \<notin> set message" and "rsp_sessionState r \<notin> {0, 1, 2, 3}"
  shows "state_line r message =
    (if rsp_sessionCloseCode r = 4 then ''Session State ('' @ show_d (rsp_sessionState r) @ '') _UNKNOWN_STATE ''
     else ''Session State Invalid value('' @ show_d (rsp_sessionState r) @ '') '')"
proof -
  show ?thesis
    using assms
    by (simp add: state_line_def display_session_response_def NL_def Let_def show_d_def show_ld_def no_blanks
      fields_prefix)
qed

text \<open>
  The text of a request of \<open>createSessionRequest\<close>. Its addresses are those
  that the source gives, but the ports, which the library keeps in host order, come out with their
  bytes swapped: 20480 and 28338 in place of 80 and 45678.
\<close>

theorem display_generated_request:
  assumes "createSessionRequest u sz k = Some rs" and "i < length rs"
  shows "display_session_request (rs ! i) message =
    NL @ NL @ ''Session Request: '' @ message @ NL @ ''Session ID: '' @ show_ld (of_nat i + k) @ NL @
    ''Inlif: 1'' @ NL @ ''Outlif: 2'' @ NL @ ''IP Version: V4'' @ NL @ ''Source IP: 10.0.1.1'' @ NL @
    ''Destination IP: 10.1.0.1'' @ NL @ ''NextHop IP: 192.168.0.1'' @ NL @
    ''Source Port: (Host Format) 20480'' @ NL @ ''Destination Port (Host Format): 28338'' @ NL @
    ''Protocol Type (6): TCP'' @ NL @ ''Action Value (1):  FORWARD'' @ NL @ ''Cache Session Timeout 15'' @ NL"
proof -
  have d: "decimal 1 = ''1''" "decimal 2 = ''2''" "decimal 6 = ''6''" "decimal 0 = ''0''" "decimal 10 = ''10''"
    "decimal 15 = ''15''" "decimal 192 = ''192''" "decimal 168 = ''168''" "decimal 20480 = ''20480''" "decimal 28338 = ''28338''"
    by (simp_all add: decimal.simps char_of_def bit_0)
  have a: "inet_ntop4 (in_addr_of 10 0 1 1) = ''10.0.1.1''" "inet_ntop4 (in_addr_of 10 1 0 1) = ''10.1.0.1''"
    "inet_ntop4 (in_addr_of 192 168 0 1) = ''192.168.0.1''"
    by (simp_all add: inet_ntop4_def in_addr_of_def octet_def d d(1) [simplified])
  have p: "unat (ntohs 80) = 20480" "unat (ntohs 45678) = 28338" by (simp_all add: ntohs_def)
  have r: "sessId (rs ! i) = of_nat i + k" "inlif (rs ! i) = 1" "outlif (rs ! i) = 2" "srcIP (rs ! i) = in_addr_of 10 0 1 1"
    "dstIP (rs ! i) = in_addr_of 10 1 0 1" "srcPort (rs ! i) = 80" "dstPort (rs ! i) = 45678" "proto (rs ! i) = proto_code TCP"
    "ipver (rs ! i) = ipver_code IPV4" "nextHop (rs ! i) = in_addr_of 192 168 0 1" "actType (rs ! i) = action_code FORWARD"
    "cacheTimeout (rs ! i) = 15"
    using assms by (auto simp: createSessionRequest_def split: if_splits)
  show ?thesis
    by (simp add: display_session_request_def r show_d_def show_int_def a a [unfolded One_nat_def] p d d(1) [simplified])
qed

subsection \<open>The properties on concrete inputs\<close>

definition ex_row :: sessionResponse_t where
  "ex_row = \<lparr>rsp_sessionId = 7, rsp_inPackets = 1, rsp_outPackets = 2, rsp_inBytes = 3, rsp_outBytes = 4,
     rsp_sessionState = 4, rsp_sessionCloseCode = 3, rsp_requestStatus = 0\<rparr>"

lemma display_unknown_state_witness:
  "state_line ex_row ''x'' = ''Session State Invalid value(4) ''"
proof -
  have m: "CHR 0x0A \<notin> set ''x''" by simp
  have "rsp_sessionState ex_row \<notin> {0, 1, 2, 3}" by (simp add: ex_row_def)
  from display_unknown_state [OF m this] show ?thesis
    by (simp add: ex_row_def show_d_def show_int_def decimal.simps char_of_def bit_0)
qed

definition ex_uninit :: sessionRequest_t where
  "ex_uninit = \<lparr>sessId = 0, inlif = 0, outlif = 0, srcIP = 0, srcIPV6 = replicate 16 0, dstIP = 0, dstIPV6 = replicate 16 0,
     srcPort = 0, dstPort = 0, proto = 0, ipver = 0, actType = 0, nextHop = 0, nextHopV6 = replicate 16 0, cacheTimeout = 0\<rparr>"

lemma display_generated_request_witness:
  "\<exists>rs. createSessionRequest (\<lambda>_. ex_uninit) 2 7 = Some rs \<and> display_session_request (rs ! 1) ''test'' =
     NL @ NL @ ''Session Request: '' @ ''test'' @ NL @ ''Session ID: '' @ show_ld (of_nat 1 + 7) @ NL @
     ''Inlif: 1'' @ NL @ ''Outlif: 2'' @ NL @ ''IP Version: V4'' @ NL @ ''Source IP: 10.0.1.1'' @ NL @
     ''Destination IP: 10.1.0.1'' @ NL @ ''NextHop IP: 192.168.0.1'' @ NL @
     ''Source Port: (Host Format) 20480'' @ NL @ ''Destination Port (Host Format): 28338'' @ NL @
     ''Protocol Type (6): TCP'' @ NL @ ''Action Value (1):  FORWARD'' @ NL @ ''Cache Session Timeout 15'' @ NL"
proof -
  obtain rs where rs: "createSessionRequest (\<lambda>_. ex_uninit) 2 7 = Some rs" and "length rs = nat (sint (2 :: 32 word))"
    by (rule createSessionRequest_ids [of "2 :: 32 word" "\<lambda>_. ex_uninit" 7]) simp
  then have "1 < length rs" by simp
  from display_generated_request [OF rs this, of "''test''"] rs show ?thesis by blast
qed

end
