(* ===== verification/Suite_Report.thy ===== *)
theory Suite_Report
  imports End_To_End Display "HOL-Library.Sublist"
begin

text \<open>
  What \<open>opof_fullTestSuite\<close> and \<open>opof_run_tests\<close> of \<open>src/opof_run_tests.c\<close> print about the tests of the
  full suite: a title for each round, a line for each test, and a last line. The status that
  \<open>opof_run_tests\<close> returns is \<open>SUCCESS\<close> in any case, so this text is what tells whether the tests passed.
  What the tests themselves print while they run is in \<open>Test_Output\<close>.
\<close>

subsection \<open>The text\<close>

definition separator :: string where
  "separator = NL @ replicate 80 (CHR ''-'') @ NL"

definition round_title :: "string \<Rightarrow> nat \<Rightarrow> string" where
  "round_title title n = NL @ NL @ NL @ title @ '': '' @ show_int (int n) @ NL"

definition passed_line :: "nat \<Rightarrow> nat \<Rightarrow> string" where
  "passed_line i n = ''Passed Test '' @ show_int (int i) @ '' with max sessions: '' @ show_int (int n) @ NL @ separator"

definition failed_line :: "nat \<Rightarrow> nat \<Rightarrow> string" where
  "failed_line i n = ''Failed Test '' @ show_int (int i) @ '' with max sessions: '' @ show_int (int n) @ NL @ separator"

fun report_tests ::
  "(nat \<Rightarrow> 's \<Rightarrow> (u32 \<times> 's) option) \<Rightarrow> nat \<Rightarrow> nat list \<Rightarrow> 's \<Rightarrow> (string \<times> u32 \<times> 's) option" where
  "report_tests test n [] st = Some ([], SUCCESS, st)"
| "report_tests test n (i # is) st = do {
     (status, st) \<leftarrow> test i st;
     if status = SUCCESS
     then do {
       (out, status, st) \<leftarrow> report_tests test n is st;
       Some (passed_line i n @ out, status, st) }
     else Some (failed_line i n, FAILURE, st) }"

fun report_rounds ::
  "(nat \<Rightarrow> nat \<Rightarrow> 's \<Rightarrow> (u32 \<times> 's) option) \<Rightarrow> suite_round list \<Rightarrow> 's \<Rightarrow> (string \<times> u32 \<times> 's) option" where
  "report_rounds test [] st = Some ([], SUCCESS, st)"
| "report_rounds test ((title, n, is) # rounds) st = do {
     (out, status, st) \<leftarrow> report_tests (test n) n is st;
     if status = SUCCESS
     then do {
       (out', status, st) \<leftarrow> report_rounds test rounds st;
       Some (round_title title n @ out @ out', status, st) }
     else Some (round_title title n @ out, status, st) }"

definition suite_message :: "int \<Rightarrow> u32 \<Rightarrow> string" where
  "suite_message testid status =
     (if status = SUCCESS
      then if testid = -1 then NL @ ''INFO: Full Test Suite ran successfully'' @ NL @ NL
           else NL @ [CHR 0x09] @ ''INFO: Test: '' @ show_int testid @ '' ran successfully'' @ NL @ NL
      else ''ERROR: Test: '' @ show_int testid @ '' Failed'' @ NL)"

definition report_full_suite ::
  "'w env \<Rightarrow> string \<Rightarrow> u16 \<Rightarrow> string \<Rightarrow> 'w tester \<Rightarrow> (string \<times> u32 \<times> 'w tester) option" where
  "report_full_suite env address port cert st = do {
     (out, status, st) \<leftarrow> report_rounds (suite_test env address port cert) suite_rounds st;
     Some (out @ suite_message (-1) status, SUCCESS, st) }"

subsection \<open>The text tells the result\<close>

lemma report_tests_run:
  "run_suite (map test is) st = Some (status, st') \<longleftrightarrow> (\<exists>out. report_tests test n is st = Some (out, status, st'))"
  by (induction "is" arbitrary: st) (auto simp: bind_eq_Some_conv split: if_splits)

lemma report_tests_failed:
  assumes "report_tests test n is st = Some (out, status, st')" and "status \<noteq> SUCCESS"
  shows "status = FAILURE \<and> (\<exists>i\<in>set is. suffix (failed_line i n) out)"
  using assms
proof (induction "is" arbitrary: st out)
  case (Cons i "is")
  obtain s1 st1 where t: "test i st = Some (s1, st1)" using Cons.prems(1) by (auto simp: bind_eq_Some_conv)
  show ?case
  proof (cases "s1 = SUCCESS")
    case True
    then obtain o1 where "report_tests test n is st1 = Some (o1, status, st')" "out = passed_line i n @ o1"
      using Cons.prems(1) t by (auto simp: bind_eq_Some_conv)
    then show ?thesis using Cons.IH [of st1 o1] Cons.prems(2) by (auto intro: suffix_appendI)
  qed (use Cons.prems t in auto)
qed simp

lemma report_rounds_run:
  "run_suite (concat (map (\<lambda>(_, n, is). map (test n) is) rounds)) st = Some (status, st') \<longleftrightarrow>
    (\<exists>out. report_rounds test rounds st = Some (out, status, st'))"
proof (induction rounds arbitrary: st)
  case (Cons r rounds)
  obtain title n "is" where r: "r = (title, n, is)" by (cases r)
  show ?case unfolding r by (auto simp: run_suite_append bind_eq_Some_conv report_tests_run [where n = n] Cons.IH split: if_splits)
qed simp

lemma report_rounds_failed:
  assumes "report_rounds test rounds st = Some (out, status, st')" and "status \<noteq> SUCCESS"
  shows "status = FAILURE \<and> (\<exists>(_, n, is)\<in>set rounds. \<exists>i\<in>set is. suffix (failed_line i n) out)"
  using assms
proof (induction rounds arbitrary: st out)
  case (Cons r rounds)
  obtain title n "is" where r: "r = (title, n, is)" by (cases r)
  obtain o1 s1 st1 where t: "report_tests (test n) n is st = Some (o1, s1, st1)"
    using Cons.prems(1) unfolding r by (auto simp: bind_eq_Some_conv)
  show ?case
  proof (cases "s1 = SUCCESS")
    case True
    then obtain o2 where "report_rounds test rounds st1 = Some (o2, status, st')" "out = round_title title n @ o1 @ o2"
      using Cons.prems(1) t unfolding r by (auto simp: bind_eq_Some_conv)
    then show ?thesis using Cons.IH [of st1 o2] Cons.prems(2) by (fastforce intro: suffix_appendI)
  next
    case False
    then have "out = round_title title n @ o1" "status = s1" using Cons.prems(1) t unfolding r by auto
    then show ?thesis using report_tests_failed [OF t False] unfolding r by (auto intro: suffix_appendI)
  qed
qed simp

text \<open>
  C2: Running the full suite prints the success message at the end exactly when every test
  passed; otherwise it prints, at the end, the line of a test of the suite that failed and the message
  that the suite failed. The returned status is \<open>SUCCESS\<close> both times.
\<close>

theorem suite_report:
  assumes "opof_fullTestSuite env address port cert st = Some (status, st')"
  shows "\<exists>out. report_full_suite env address port cert st = Some (out, SUCCESS, st') \<and>
    opof_run_tests env address n psize port cert (-1) st = Some (SUCCESS, st') \<and>
    (suffix (suite_message (-1) SUCCESS) out \<longleftrightarrow> status = SUCCESS) \<and>
    (status \<noteq> SUCCESS \<longrightarrow>
      (\<exists>(_, m, is)\<in>set suite_rounds. \<exists>i\<in>set is. suffix (failed_line i m @ suite_message (-1) FAILURE) out))"
proof -
  obtain o1 where r: "report_rounds (suite_test env address port cert) suite_rounds st = Some (o1, status, st')"
    using assms by (auto simp: opof_fullTestSuite_def report_rounds_run)
  have run: "opof_run_tests env address n psize port cert (-1) st = Some (SUCCESS, st')"
    using assms by (simp add: opof_run_tests_def)
  show ?thesis
  proof (cases "status = SUCCESS")
    case True
    then show ?thesis using r run by (auto simp: report_full_suite_def intro: suffixI)
  next
    case False
    have F: "status = FAILURE" using report_rounds_failed [OF r False] by simp
    let ?out = "o1 @ suite_message (-1) FAILURE"
    have "\<not> suffix (suite_message (-1) SUCCESS) ?out"
      by (auto simp: suffix_def suite_message_def NL_def FAILURE_def SUCCESS_def show_int_def)
    then show ?thesis
      using r run report_rounds_failed [OF r False] unfolding F report_full_suite_def
      by (fastforce simp: suffix_append)
  qed
qed

lemma suite_report_witness:
  "\<exists>s out st'. run_all add_ok (map ex_request [1, 2, 3]) (server_init ex_rng) = Some s \<and>
     report_full_suite ex_env ''localhost'' 3443 [] (ex_tester s) = Some (out, SUCCESS, st') \<and>
     suffix (suite_message (-1) SUCCESS) out"
proof -
  obtain s where s: "run_all add_ok (map ex_request [1, 2, 3]) (server_init ex_rng) = Some s"
    and h: "holds_ids s [1, 2, 3]" by (rule ex_holds)
  have h': "holds_ids (world (conn (ex_tester s))) [1, 2, 3]" using h by simp
  have k: "\<forall>k\<in>set [1, 2, 3 :: u64]. k < 2 ^ 31" by simp
  obtain st' where "opof_fullTestSuite ex_env ''localhost'' 3443 [] (ex_tester s) = Some (SUCCESS, st')"
    using lib.opof_fullTestSuite_ok [OF test_env_served [OF ex_simps(4,5)] test_state_holds [OF h' k], of "''localhost''" 3443 "[]"]
    by blast
  from suite_report [OF this, of 0 64] show ?thesis using s by blast
qed

end
