(* ===== verification/Test_Output.thy ===== *)
theory Test_Output
  imports End_To_End Display
begin

text \<open>
  What the tests of \<open>src/opof_run_tests.c\<close> print while they run, for those of the full suite: the
  tests of \<open>Run_Tests\<close> again, with the text they have written as part of the state. A loop of a test is the
  same function as there, over the client with its text. The last line of some tests gives a rate that is
  measured with \<open>clock()\<close>; its digits are an argument.
\<close>

subsection \<open>Lines and tables\<close>

definition error_line :: "addSessionErrors \<Rightarrow> string" where
  "error_line e = TAB @ ''SessionId: '' @ decimal (unat (err_sessionId e)) @ TAB @ '' error: '' @
     getAddResponseError (err_errorStatus e) @ NL"

fun error_lines :: "addSessionErrors list \<Rightarrow> nat list \<Rightarrow> string option" where
  "error_lines errors [] = Some []"
| "error_lines errors (i # is) = do {
     e \<leftarrow> load errors i;
     out \<leftarrow> error_lines errors is;
     Some (error_line e @ out) }"

definition errors_title :: string where
  "errors_title = NL @ NL @ ''Errors in the following sessions'' @ NL"

definition report_errors :: "bool \<Rightarrow> addSessionResponse_t \<Rightarrow> string option" where
  "report_errors verbose addResp =
     (if 0 < sint (number_errors addResp) \<and> verbose
      then do {
        out \<leftarrow> error_lines (sessionErrors addResp) [0..<nat (sint (number_errors addResp))];
        Some (errors_title @ out) }
      else Some [])"

fun response_rows :: "sessionResponse_t list \<Rightarrow> nat list \<Rightarrow> string option" where
  "response_rows responses [] = Some []"
| "response_rows responses (i # is) = do {
     r \<leftarrow> load responses i;
     out \<leftarrow> response_rows responses is;
     Some (print_response r @ out) }"

text \<open>The table of a page of closed sessions; the title differs from test to test.\<close>

definition report_closed :: "bool \<Rightarrow> string \<Rightarrow> u32 \<Rightarrow> nat \<Rightarrow> sessionResponse_t list \<Rightarrow> string option" where
  "report_closed verbose title status closed_sessions responses =
     (if verbose
      then do {
        rows \<leftarrow> response_rows responses [0..<closed_sessions];
        Some (title @ decimal closed_sessions @ NL @ rows) }
      else Some [])"

definition closed_title :: string where
  "closed_title = TAB @ ''Closed sessions: ''"

definition closed_title8 :: string where
  "closed_title8 = ''Closed sessions: ''"

definition header_if :: "bool \<Rightarrow> string" where
  "header_if verbose = (if verbose then print_response_header else [])"

subsection \<open>The rounds of the loops\<close>

text \<open>A batch: its call, and what is printed about its result.\<close>

definition add_call_text ::
  "(u32 \<Rightarrow> bool) \<Rightarrow> (u32 \<Rightarrow> string) \<Rightarrow> (addSessionResponse_t \<Rightarrow> string option) \<Rightarrow>
   (int \<Rightarrow> sessionRequest_t list \<Rightarrow> addSessionResponse_t \<Rightarrow> 'c \<Rightarrow> (u32 \<times> addSessionResponse_t \<times> 'c) option) \<Rightarrow>
   int \<Rightarrow> sessionRequest_t list \<Rightarrow> addSessionResponse_t \<Rightarrow> 'c \<times> string \<Rightarrow>
   (u32 \<times> addSessionResponse_t \<times> 'c \<times> string) option" where
  "add_call_text failed failure report add sz request addResp s = do {
     let (c, out) = s;
     (status, addResp, c) \<leftarrow> add sz request addResp c;
     if failed status then Some (status, addResp, c, out @ failure status)
     else do {
       text \<leftarrow> report addResp;
       Some (status, addResp, c, out @ text) } }"

text \<open>A page of closed sessions; \<open>report\<close> gets the status, the number and the array.\<close>

definition closed_call_text ::
  "(u32 \<Rightarrow> bool) \<Rightarrow> (u32 \<Rightarrow> nat \<Rightarrow> sessionResponse_t list \<Rightarrow> string option) \<Rightarrow>
   (sessionResponse_t list \<Rightarrow> 'c \<Rightarrow> (u32 \<times> nat \<times> sessionResponse_t list \<times> 'c) option) \<Rightarrow>
   sessionResponse_t list \<Rightarrow> 'c \<times> string \<Rightarrow> (u32 \<times> nat \<times> sessionResponse_t list \<times> 'c \<times> string) option" where
  "closed_call_text failed report get responses s = do {
     let (c, out) = s;
     (status, closed_sessions, responses, c) \<leftarrow> get responses c;
     if 0 < closed_sessions \<and> failed status
     then Some (status, closed_sessions, responses, c, out @ ''ERROR: Closing sessions: '' @ show_d status @ NL)
     else do {
       text \<leftarrow> report status closed_sessions responses;
       Some (status, closed_sessions, responses, c, out @ text) } }"

text \<open>The listing of test 2, with the number of the page.\<close>

definition page_text :: "bool \<Rightarrow> nat \<Rightarrow> nat \<Rightarrow> sessionResponse_t list \<Rightarrow> string option" where
  "page_text verbose page_number nsessions responses =
     (if 0 < nsessions \<and> verbose
      then do {
        rows \<leftarrow> response_rows responses [0..<nsessions];
        Some (NL @ NL @ ''Displaying Page: '' @ show_int (int page_number) @ NL @ print_response_header @ rows) }
      else Some [])"

partial_function (option) list_text ::
  "bool \<Rightarrow> 'w sessionTable_t \<Rightarrow> int \<Rightarrow> u64 \<Rightarrow> nat \<Rightarrow> sessionResponse_t list \<Rightarrow> nat \<Rightarrow> 'w client \<Rightarrow> string \<Rightarrow>
   ('w client \<times> string) option" where
  "list_text verbose hnd pageSize sessionStart nsessions responses page_number c out =
     (if nsessions = 0 then Some (c, out)
      else do {
        (status, sessionStart, nsessions, responses, c) \<leftarrow>
          opof_get_all_sessions hnd sessionStart pageSize responses c;
        sessionStart \<leftarrow> last_id responses [0..<nsessions] sessionStart;
        text \<leftarrow> page_text verbose page_number nsessions responses;
        list_text verbose hnd pageSize sessionStart nsessions responses
          (if 0 < nsessions then page_number + 1 else page_number) c (out @ text) })"

text \<open>The loops of tests 3 and 4. The status \<open>FAILURE\<close> ends the program.\<close>

fun each_session_text ::
  "bool \<Rightarrow> (u64 \<Rightarrow> sessionResponse_t \<Rightarrow> 'w client \<Rightarrow> (u32 \<times> sessionResponse_t \<times> 'w client) option) \<Rightarrow> nat list \<Rightarrow>
   sessionResponse_t \<Rightarrow> 'w client \<Rightarrow> string \<Rightarrow> ('w client \<times> string) option" where
  "each_session_text verbose call [] resp c out = Some (c, out)"
| "each_session_text verbose call (i # is) resp c out = do {
     (status, resp, c) \<leftarrow> call (of_nat i) resp c;
     let out = out @ (if verbose then print_response resp else []);
     if status = FAILURE then None else each_session_text verbose call is resp c out }"

subsection \<open>The tests\<close>

abbreviation sizes_line :: "32 word \<Rightarrow> u32 \<Rightarrow> string" where
  "sizes_line max_sessions pageSize \<equiv>
     TAB @ ''Number of Sessions: '' @ show_d max_sessions @ '' page size: '' @ show_d pageSize @ NL"

definition adding_line :: "32 word \<Rightarrow> string" where
  "adding_line max_sessions = NL @ TAB @ ''Adding '' @ show_d max_sessions @ '' sessions to cache'' @ NL"

abbreviation not_ok :: "u32 \<Rightarrow> bool" where
  "not_ok status \<equiv> status \<noteq> status_code OK"

definition getting_line :: string where
  "getting_line = NL @ TAB @ ''Getting following sessions from cache'' @ NL"

definition deleting_line :: string where
  "deleting_line = NL @ TAB @ ''Deleting following sessions from cache'' @ NL"

definition listing_line :: string where
  "listing_line = NL @ TAB @ ''Getting all sessions from cache'' @ NL"

definition closing_line :: string where
  "closing_line = NL @ TAB @ ''Closing sessions from cache'' @ NL"

definition adding_failed :: "u32 \<Rightarrow> string" where
  "adding_failed status = ''ERROR: Adding sessions: '' @ show_d status @ NL"

definition adding_failed_plain :: "u32 \<Rightarrow> string" where
  "adding_failed_plain status = ''ERROR: Adding sessions: '' @ NL"

definition test1_begin :: "32 word \<Rightarrow> u32 \<Rightarrow> string" where
  "test1_begin max_sessions pageSize =
     NL @ NL @ ''Running Test 1: Testing get closed sessions'' @ sizes_line max_sessions pageSize @
     adding_line max_sessions"

definition test1_end :: "32 word \<Rightarrow> string \<Rightarrow> string" where
  "test1_end total_sessions rate =
     TAB @ ''Successfully closed all '' @ show_d total_sessions @ '' sessions: '' @ NL @
     NL @ TAB @ ''Sessions per second (add and close): '' @ rate @ NL"

definition opof_test1_text ::
  "'w env \<Rightarrow> string \<Rightarrow> 32 word \<Rightarrow> u32 \<Rightarrow> u16 \<Rightarrow> string \<Rightarrow> bool \<Rightarrow> string \<Rightarrow> 'w tester \<Rightarrow> (u32 \<times> string \<times> 'w tester) option" where
  "opof_test1_text env address max_sessions pageSize port cert verbose rate st = do {
     let handl = opof_create_sessionTable (new_client env) (ssl env) address (ucast port) cert;
     let args = \<lparr>handle = handl, str_pageSize = pageSize\<rparr>;
     let total_sessions = max_sessions;
     (status, st) \<leftarrow> opof_delete_all_sessions env handl (sint pageSize) st;
     if status = FAILURE then Some (FAILURE, [], st)
     else do {
       let out = test1_begin max_sessions pageSize;
       (failed, addResp, c, out) \<leftarrow> add_loop (createSessionRequest (uninit_request env)) not_ok
         (add_call_text not_ok adding_failed (report_errors verbose) (add_call_plain handl))
         pageSize max_sessions 0 (uninit_add env) (conn st, out);
       if failed then Some (FAILURE, out, st\<lparr>conn := c\<rparr>)
       else do {
         let out = out @ header_if verbose @ closing_line;
         (failed, c, out) \<leftarrow> closed_until_none (\<lambda>status. status = status_code NOT_FOUND)
           (closed_call_text (\<lambda>status. status = status_code NOT_FOUND) (report_closed verbose closed_title)
             (opof_get_closed_sessions args)) 1 (responses_init env) (c, out);
         if failed then Some (FAILURE, out, st\<lparr>conn := c\<rparr>)
         else Some (SUCCESS, out @ test1_end total_sessions rate, st\<lparr>conn := c\<rparr>) } } }"

definition test2_begin :: "32 word \<Rightarrow> u32 \<Rightarrow> string" where
  "test2_begin max_sessions pageSize =
     NL @ NL @ ''Running Test 2; Testing get all Sessions'' @ sizes_line max_sessions pageSize @
     adding_line max_sessions"

definition test2_end :: "32 word \<Rightarrow> u32 \<Rightarrow> string" where
  "test2_end total_sessions pageSize =
     NL @ TAB @ ''Getting all '' @ show_d total_sessions @ '' sessions, with page size: '' @
     show_d pageSize @ NL"

definition opof_test2_text ::
  "'w env \<Rightarrow> string \<Rightarrow> 32 word \<Rightarrow> u32 \<Rightarrow> u16 \<Rightarrow> string \<Rightarrow> bool \<Rightarrow> 'w tester \<Rightarrow> (u32 \<times> string \<times> 'w tester) option" where
  "opof_test2_text env address max_sessions pageSize port cert verbose st = do {
     let handl = opof_create_sessionTable (new_client env) (ssl env) address (ucast port) cert;
     let total_sessions = max_sessions;
     (status, st) \<leftarrow> opof_delete_all_sessions env handl (sint pageSize) st;
     if status = FAILURE then Some (FAILURE, [], st)
     else do {
       let out = test2_begin max_sessions pageSize;
       (failed, addResp, c, out) \<leftarrow> add_loop (createSessionRequest (uninit_request env)) not_ok
         (add_call_text not_ok adding_failed_plain (\<lambda>_. Some []) (add_call_plain handl))
         pageSize max_sessions 0 (uninit_add env) (conn st, out);
       if failed then Some (FAILURE, out, st\<lparr>conn := c\<rparr>)
       else do {
         let out = out @ listing_line;
         (c, out) \<leftarrow> list_text verbose handl (sint pageSize) UINT_MAX 1 (responses_init env) 1 c out;
         Some (SUCCESS, out @ test2_end total_sessions pageSize, st\<lparr>conn := c\<rparr>) } } }"

definition test3_begin :: "32 word \<Rightarrow> string" where
  "test3_begin max_sessions =
     NL @ NL @ ''Running Test 3: Testing get sessions'' @
     NL @ TAB @ ''Number of sessions to get: '' @ show_d max_sessions @ NL"

definition test3_end :: "32 word \<Rightarrow> string" where
  "test3_end total_sessions =
     NL @ TAB @ ''Getting '' @ show_d total_sessions @ '' individual sessions'' @ NL"

definition opof_test3_text ::
  "'w env \<Rightarrow> string \<Rightarrow> 32 word \<Rightarrow> u32 \<Rightarrow> u16 \<Rightarrow> string \<Rightarrow> bool \<Rightarrow> 'w tester \<Rightarrow> (u32 \<times> string \<times> 'w tester) option" where
  "opof_test3_text env address max_sessions pageSize port cert verbose st = do {
     let handl = opof_create_sessionTable (new_client env) (ssl env) address (ucast port) cert;
     (status, st) \<leftarrow> opof_delete_all_sessions env handl (sint pageSize) st;
     if status = FAILURE then Some (FAILURE, [], st)
     else do {
       let out = test3_begin max_sessions;
       let total_sessions = max_sessions;
       let out = out @ adding_line max_sessions;
       (failed, addResp, c, out) \<leftarrow> add_loop (createSessionRequest (uninit_request env)) (\<lambda>status. status = FAILURE)
         (add_call_text (\<lambda>status. status = FAILURE) adding_failed_plain (\<lambda>_. Some []) (add_call_plain handl))
         pageSize max_sessions 0 (uninit_add env) (conn st, out);
       if failed then Some (FAILURE, out, st\<lparr>conn := c\<rparr>)
       else do {
         let out = out @ (if verbose then getting_line else []) @ header_if verbose;
         (c, out) \<leftarrow> each_session_text verbose (opof_get_session handl) [0..<nat (sint total_sessions)] (uninit_rsp env 0) c out;
         Some (SUCCESS, out @ test3_end total_sessions,
           st\<lparr>conn := c\<rparr>) } } }"

definition test4_begin :: "32 word \<Rightarrow> string" where
  "test4_begin max_sessions =
     NL @ NL @ ''Running Test 4: Testing delete sessions '' @
     NL @ TAB @ ''Number of sessions to delete: '' @ show_d max_sessions @ NL"

definition test4_end :: "32 word \<Rightarrow> string" where
  "test4_end total_sessions =
     NL @ TAB @ ''Deleting '' @ show_d total_sessions @ '' individual sessions'' @ NL"

definition opof_test4_text ::
  "'w env \<Rightarrow> string \<Rightarrow> 32 word \<Rightarrow> u32 \<Rightarrow> u16 \<Rightarrow> string \<Rightarrow> bool \<Rightarrow> 'w tester \<Rightarrow> (u32 \<times> string \<times> 'w tester) option" where
  "opof_test4_text env address max_sessions pageSize port cert verbose st = do {
     let handl = opof_create_sessionTable (new_client env) (ssl env) address (ucast port) cert;
     (status, st) \<leftarrow> opof_delete_all_sessions env handl (sint pageSize) st;
     if status = FAILURE then Some (FAILURE, [], st)
     else do {
       let out = test4_begin max_sessions;
       let total_sessions = max_sessions;
       let out = out @ adding_line max_sessions;
       (failed, addResp, c, out) \<leftarrow> add_loop (createSessionRequest (uninit_request env)) (\<lambda>status. status = FAILURE)
         (add_call_text (\<lambda>status. status = FAILURE) adding_failed_plain (\<lambda>_. Some []) (add_call_plain handl))
         pageSize max_sessions 0 (uninit_add env) (conn st, out);
       if failed then Some (FAILURE, out, st\<lparr>conn := c\<rparr>)
       else do {
         let out = out @ (if verbose then deleting_line else []) @ header_if verbose;
         (c, out) \<leftarrow> each_session_text verbose (opof_del_session handl) [0..<nat (sint total_sessions)] (uninit_rsp env 0) c out;
         Some (SUCCESS, out @ test4_end total_sessions,
           st\<lparr>conn := c\<rparr>) } } }"

text \<open>Test 5 prints the status of each call for closed sessions that is not \<open>_OK\<close>, and no number.\<close>

definition report_closed5 :: "bool \<Rightarrow> u32 \<Rightarrow> nat \<Rightarrow> sessionResponse_t list \<Rightarrow> string option" where
  "report_closed5 verbose status closed_sessions responses = do {
     rows \<leftarrow> (if verbose then response_rows responses [0..<closed_sessions] else Some []);
     Some ((if status \<noteq> status_code OK then TAB @ ''Test 5: '' @ getStatusCode status @ NL else []) @ rows) }"

definition test5_begin :: "32 word \<Rightarrow> u32 \<Rightarrow> string" where
  "test5_begin max_sessions pageSize =
     NL @ NL @ ''Running Test 5: Testing calling get_closed_sessions with zero sessions'' @
     NL @ sizes_line max_sessions pageSize"

definition opof_test5_text ::
  "'w env \<Rightarrow> string \<Rightarrow> 32 word \<Rightarrow> u32 \<Rightarrow> u16 \<Rightarrow> string \<Rightarrow> bool \<Rightarrow> 'w tester \<Rightarrow> (u32 \<times> string \<times> 'w tester) option" where
  "opof_test5_text env address max_sessions pageSize port cert verbose st = do {
     let handl = opof_create_sessionTable (new_client env) (ssl env) address (ucast port) cert;
     let args = \<lparr>handle = handl, str_pageSize = pageSize\<rparr>;
     (status, st) \<leftarrow> opof_delete_all_sessions env handl (sint pageSize) st;
     if status = FAILURE then Some (FAILURE, [], st)
     else do {
       let out = test5_begin max_sessions pageSize;
       (failed, addResp, c, out) \<leftarrow> add_loop (createSessionRequest (uninit_request env)) (\<lambda>status. status = FAILURE)
         (add_call_text (\<lambda>status. status = FAILURE) adding_failed_plain (report_errors verbose) (add_call_plain handl))
         pageSize max_sessions 0 (uninit_add env) (conn st, out);
       if failed then Some (FAILURE, out, st\<lparr>conn := c\<rparr>)
       else do {
         (failed, c, out) \<leftarrow> closed_until_none (\<lambda>status. False)
           (closed_call_text (\<lambda>status. False) (report_closed5 verbose) (opof_get_closed_sessions args))
           1 (responses_init env) (c, out @ header_if verbose);
         Some (SUCCESS, out, st\<lparr>conn := c\<rparr>) } } }"

definition test6_failed :: "u32 \<Rightarrow> string" where
  "test6_failed status = ''Test 6: '' @ getStatusCode status @ NL"

definition test6_begin :: "32 word \<Rightarrow> u32 \<Rightarrow> string" where
  "test6_begin max_sessions pageSize =
     NL @ NL @ ''Running Test 6: Testing duplicate session adds'' @ NL @ sizes_line max_sessions pageSize"

definition test6_end :: "32 word \<Rightarrow> string" where
  "test6_end total_sessions =
     NL @ TAB @ ''Added '' @ show_d total_sessions @ '' duplicate sessions'' @ NL"

definition opof_test6_text ::
  "'w env \<Rightarrow> string \<Rightarrow> 32 word \<Rightarrow> u32 \<Rightarrow> u16 \<Rightarrow> string \<Rightarrow> bool \<Rightarrow> 'w tester \<Rightarrow> (u32 \<times> string \<times> 'w tester) option" where
  "opof_test6_text env address max_sessions pageSize port cert verbose st = do {
     let handl = opof_create_sessionTable (new_client env) (ssl env) address (ucast port) cert;
     let args = \<lparr>handle = handl, str_pageSize = pageSize\<rparr>;
     let total_sessions = max_sessions;
     (status, st) \<leftarrow> opof_delete_all_sessions env handl (sint pageSize) st;
     if status = FAILURE then Some (FAILURE, [], st)
     else do {
       let out = test6_begin max_sessions pageSize;
       (failed, addResp, c, out) \<leftarrow> add_loop (createSessionRequest (uninit_request env)) not_ok
         (add_call_text not_ok test6_failed (report_errors verbose) (add_call_plain handl))
         pageSize max_sessions 0 (uninit_add env) (conn st, out);
       if failed then Some (FAILURE, out, st\<lparr>conn := c\<rparr>)
       else do {
         let max_sessions = total_sessions;
         (failed, addResp, c, out) \<leftarrow> add_loop (createSessionRequest (uninit_request env)) not_ok
           (add_call_text not_ok test6_failed (report_errors verbose) (add_call_plain handl))
           pageSize max_sessions 0 addResp (c, out);
         if failed then Some (FAILURE, out, st\<lparr>conn := c\<rparr>)
         else do {
           (failed, c, out) \<leftarrow> closed_until_none (\<lambda>status. False)
             (closed_call_text (\<lambda>status. False) (report_closed verbose closed_title8) (opof_get_closed_sessions args))
             1 (responses_init env) (c, out @ header_if verbose);
           Some (SUCCESS, out @ test6_end total_sessions,
             st\<lparr>conn := c\<rparr>) } } } }"

definition test7_begin :: "32 word \<Rightarrow> string" where
  "test7_begin max_sessions =
     NL @ NL @ ''Running Test 7: Testing get and delete on invalid sessions'' @
     NL @ TAB @ ''Number of Sessions: '' @ show_d max_sessions @ NL"

definition opof_test7_text ::
  "'w env \<Rightarrow> string \<Rightarrow> 32 word \<Rightarrow> u32 \<Rightarrow> u16 \<Rightarrow> string \<Rightarrow> 'w tester \<Rightarrow> (u32 \<times> string \<times> 'w tester) option" where
  "opof_test7_text env address max_sessions pageSize port cert st = do {
     let handl = opof_create_sessionTable (new_client env) (ssl env) address (ucast port) cert;
     (status, st) \<leftarrow> opof_delete_all_sessions env handl (sint pageSize) st;
     if status = FAILURE then Some (FAILURE, [], st)
     else do {
       let out = test7_begin max_sessions;
       let total_sessions = max_sessions;
       (failed, addResp, c, out) \<leftarrow> add_loop (createSessionRequest (uninit_request env)) (\<lambda>status. status = FAILURE)
         (add_call_text (\<lambda>status. status = FAILURE) adding_failed_plain (\<lambda>_. Some []) (add_call_plain handl))
         pageSize max_sessions 0 (uninit_add env) (conn st, out);
       if failed then Some (FAILURE, out, st\<lparr>conn := c\<rparr>)
       else do {
         (status, resp, c) \<leftarrow> opof_get_session handl (scast (total_sessions + 1)) (uninit_rsp env 0) c;
         let out = out @ NL @ TAB @ ''Test 7 Get session ID: '' @ show_d (total_sessions + 1) @ '' response: '' @
           getStatusCode status @ NL;
         (status, resp, c) \<leftarrow> opof_del_session handl (scast (total_sessions + 1)) resp c;
         let out = out @ TAB @ ''Test 7 Delete session ID: '' @ show_d (total_sessions + 1) @ '' response '' @
           getStatusCode status @ NL;
         if status = FAILURE then None else Some (SUCCESS, out, st\<lparr>conn := c\<rparr>) } } }"

definition test8_begin :: "32 word \<Rightarrow> u32 \<Rightarrow> string" where
  "test8_begin max_sessions pageSize =
     NL @ NL @ ''Running Test 8: Test delete and recreating session table handle'' @
     NL @ sizes_line max_sessions pageSize"

definition test8_end :: "string \<Rightarrow> string" where
  "test8_end rate =
     NL @ NL @ TAB @ ''Sessions per second (add and close): '' @ rate @ NL @ NL"

definition opof_test8_text ::
  "'w env \<Rightarrow> string \<Rightarrow> 32 word \<Rightarrow> u32 \<Rightarrow> u16 \<Rightarrow> string \<Rightarrow> bool \<Rightarrow> string \<Rightarrow> 'w tester \<Rightarrow> (u32 \<times> string \<times> 'w tester) option" where
  "opof_test8_text env address max_sessions pageSize port cert verbose rate st = do {
     let handl = opof_create_sessionTable (new_client env) (ssl env) address (ucast port) cert;
     (status, st) \<leftarrow> opof_delete_all_sessions env handl (sint pageSize) st;
     if status = FAILURE then Some (FAILURE, [], st)
     else do {
       let out = test8_begin max_sessions pageSize;
       (failed, addResp, c, out) \<leftarrow> add_loop (createSessionRequest (uninit_request env)) not_ok
         (add_call_text not_ok adding_failed (report_errors verbose) (add_call_plain handl))
         pageSize max_sessions 0 (uninit_add env) (conn st, out);
       if failed then Some (FAILURE, out, st\<lparr>conn := c\<rparr>)
       else do {
         let handl = opof_create_sessionTable (new_client env) (ssl env) address (ucast port) cert;
         let args = \<lparr>handle = handl, str_pageSize = pageSize\<rparr>;
         (failed, c, out) \<leftarrow> closed_until_none (\<lambda>status. False)
           (closed_call_text (\<lambda>status. False) (report_closed verbose closed_title8) (opof_get_closed_sessions args))
           1 (responses_init env) (c, out @ header_if verbose);
         Some (SUCCESS, out @ test8_end rate,
           st\<lparr>conn := c\<rparr>) } } }"

definition test11_begin :: "32 word \<Rightarrow> u32 \<Rightarrow> string" where
  "test11_begin max_sessions pageSize =
     NL @ NL @ ''Running Test 11: Testing get closed sessions IPV6'' @ sizes_line max_sessions pageSize @
     adding_line max_sessions"

definition opof_test11_text ::
  "'w env \<Rightarrow> string \<Rightarrow> 32 word \<Rightarrow> u32 \<Rightarrow> u16 \<Rightarrow> string \<Rightarrow> bool \<Rightarrow> string \<Rightarrow> 'w tester \<Rightarrow> (u32 \<times> string \<times> 'w tester) option" where
  "opof_test11_text env address max_sessions pageSize port cert verbose rate st = do {
     let handl = opof_create_sessionTable (new_client env) (ssl env) address (ucast port) cert;
     let args = \<lparr>handle = handl, str_pageSize = pageSize\<rparr>;
     (status, st) \<leftarrow> opof_delete_all_sessions env handl (sint pageSize) st;
     if status = FAILURE then Some (FAILURE, [], st)
     else do {
       let out = test11_begin max_sessions pageSize;
       (failed, addResp, c, out) \<leftarrow> add_loop (createSessionRequest6 (uninit_request env)) not_ok
         (add_call_text not_ok adding_failed (report_errors verbose) (add_call_plain handl))
         pageSize max_sessions 0 (uninit_add env) (conn st, out);
       if failed then Some (FAILURE, out, st\<lparr>conn := c\<rparr>)
       else do {
         (failed, c, out) \<leftarrow> closed_until_none (\<lambda>status. False)
           (closed_call_text (\<lambda>status. False) (report_closed verbose closed_title) (opof_get_closed_sessions args))
           1 (responses_init env) (c, out @ header_if verbose @ closing_line);
         Some (SUCCESS, out @ test8_end rate,
           st\<lparr>conn := c\<rparr>) } } }"

subsection \<open>The text changes nothing else\<close>

lemma bind_SomeE:
  assumes "Option.bind x f = Some y"
  obtains z where "x = Some z" and "f z = Some y"
  using assms by (cases x) auto

lemma add_loop_text:
  assumes "add_loop mk failed (add_call_text failed failure report add) p M b a s = Some y"
  shows "add_loop mk failed add p M b a (fst s) = Some (fst y, fst (snd y), fst (snd (snd y)))"
proof -
  have "add' = add_call_text failed failure report add \<longrightarrow>
      add_loop mk failed add p M b a (fst s) = Some (fst y, fst (snd y), fst (snd (snd y)))"
    if "add_loop mk failed add' p M b a s = Some y" for add'
  proof (rule add_loop.raw_induct [where P = "\<lambda>mk failed add' p M b a s y.
      add' = add_call_text failed failure report add \<longrightarrow>
      add_loop mk failed add p M b a (fst s) = Some (fst y, fst (snd y), fst (snd (snd y)))", OF _ that], goal_cases)
    case H: (1 loop mk failed add' p M b a s y)
    show ?case
    proof
      assume add': "add' = add_call_text failed failure report add"
      show "add_loop mk failed add p M b a (fst s) = Some (fst y, fst (snd y), fst (snd (snd y)))"
      proof (cases "sint M \<le> 0")
        case True
        then show ?thesis using H(2) by (auto simp: add_loop.simps)
      next
        case False
        let ?n = "if sint (M - p) < 0 then M else p"
        obtain rs st a1 c1 out1 where rs: "mk ?n (scast b) = Some rs"
          and call: "add' (sint ?n) rs a s = Some (st, a1, c1, out1)"
          and rest: "(if failed st then Some (True, a1, c1, out1) else loop mk failed add' p (M - p) (b + ?n) a1 (c1, out1)) = Some y"
          using H(2) False unfolding Let_def by (auto simp: bind_eq_Some_conv simp del: if_split)
        have add: "add (sint ?n) rs a (fst s) = Some (st, a1, c1)"
          using call unfolding add' add_call_text_def
          by (auto simp: bind_eq_Some_conv Let_def split: prod.splits if_splits)
        show ?thesis
        proof (cases "failed st")
          case True
          then show ?thesis using rs add rest False by (subst add_loop.simps) (auto simp: Let_def)
        next
          case nf: False
          then have "loop mk failed add' p (M - p) (b + ?n) a1 (c1, out1) = Some y" using rest by simp
          from H(1) [OF this] show ?thesis
            using rs add nf False add' by (subst add_loop.simps) (simp add: Let_def)
        qed
      qed
    qed
  qed
  then show ?thesis using assms by blast
qed

lemma closed_until_none_text:
  assumes "closed_until_none failed (closed_call_text failed report get) n rs s = Some y"
  shows "closed_until_none failed get n rs (fst s) = Some (fst y, fst (snd y))"
proof -
  have "get' = closed_call_text failed report get \<longrightarrow> closed_until_none failed get n rs (fst s) = Some (fst y, fst (snd y))"
    if "closed_until_none failed get' n rs s = Some y" for get'
  proof (rule closed_until_none.raw_induct [where P = "\<lambda>failed get' n rs s y.
      get' = closed_call_text failed report get \<longrightarrow>
      closed_until_none failed get n rs (fst s) = Some (fst y, fst (snd y))", OF _ that], goal_cases)
    case H: (1 loop failed get' n rs s y)
    show ?case
    proof
      assume get': "get' = closed_call_text failed report get"
      show "closed_until_none failed get n rs (fst s) = Some (fst y, fst (snd y))"
      proof (cases "n = 0")
        case True
        then show ?thesis using H(2) by (auto simp: closed_until_none.simps)
      next
        case False
        obtain st n1 rs1 c1 out1 where call: "get' rs s = Some (st, n1, rs1, c1, out1)"
          and rest: "(if 0 < n1 \<and> failed st then Some (True, c1, out1) else loop failed get' n1 rs1 (c1, out1)) = Some y"
          using H(2) False by (auto simp: bind_eq_Some_conv simp del: if_split)
        have get: "get rs (fst s) = Some (st, n1, rs1, c1)"
          using call unfolding get' closed_call_text_def
          by (auto simp: bind_eq_Some_conv Let_def split: prod.splits if_splits)
        show ?thesis
        proof (cases "0 < n1 \<and> failed st")
          case True
          then show ?thesis using get rest False by (subst closed_until_none.simps) auto
        next
          case nf: False
          then have "loop failed get' n1 rs1 (c1, out1) = Some y" using rest unfolding if_not_P [OF nf] by simp
          from H(1) [OF this] show ?thesis
            using get nf False get' by (subst closed_until_none.simps) auto
        qed
      qed
    qed
  qed
  then show ?thesis using assms by blast
qed

lemma list_text_seen:
  assumes "list_text verbose h p key0 n rs k c out = Some y"
  shows "\<exists>ids. list_until_none h p key0 n rs seen c = Some (ids, fst y)"
  using assms
proof -
  have "\<forall>seen. \<exists>ids. list_until_none h p key0 n rs seen c = Some (ids, fst y)"
  proof (rule list_text.raw_induct [where P = "\<lambda>verbose h p key0 n rs k c out y.
      \<forall>seen. \<exists>ids. list_until_none h p key0 n rs seen c = Some (ids, fst y)", OF _ assms], goal_cases)
    case H: (1 loop verbose h p key0 n rs k c out y)
    show ?case
    proof (cases "n = 0")
      case True
      then show ?thesis using H(2) by (auto simp: list_until_none.simps)
    next
      case False
      obtain st key1 n1 rs1 c1 key2 tx where
          call: "opof_get_all_sessions h key0 p rs c = Some (st, key1, n1, rs1, c1)"
        and key2: "last_id rs1 [0..<n1] key1 = Some key2"
        and rest: "loop verbose h p key2 n1 rs1 (if 0 < n1 then k + 1 else k) c1 (out @ tx) = Some y"
        using H(2) False by (auto simp: bind_eq_Some_conv simp del: if_split)
      from H(1) [OF rest] show ?thesis
        using call key2 False by (subst list_until_none.simps) simp
    qed
  qed
  then show ?thesis by blast
qed

lemma each_session_text_same:
  "each_session_text verbose call js resp c out = Some (c', out') \<Longrightarrow> each_session call js resp c = Some c'"
  by (induction js arbitrary: resp c out) (auto simp: bind_eq_Some_conv split: if_splits)

lemmas loops_text = add_loop_text closed_until_none_text

lemma test1_text:
  "opof_test1_text env a M p port cert verbose rate st = Some (status, out, st') \<Longrightarrow>
   opof_test1 env a M p port cert st = Some (status, st')"
  unfolding opof_test1_text_def opof_test1_def
  by (auto simp: Let_def elim!: bind_SomeE dest!: loops_text split: if_splits)

lemma test2_text:
  "opof_test2_text env a M p port cert verbose st = Some (status, out, st') \<Longrightarrow>
   \<exists>ids. opof_test2 env a M p port cert st = Some (status, ids, st')"
  unfolding opof_test2_text_def opof_test2_def
  by (fastforce simp: Let_def elim!: bind_SomeE dest!: loops_text list_text_seen [where seen = "[]"] split: if_splits)

lemma test3_text:
  "opof_test3_text env a M p port cert verbose st = Some (status, out, st') \<Longrightarrow>
   opof_test3 env a M p port cert st = Some (status, st')"
  unfolding opof_test3_text_def opof_test3_def
  by (auto simp: Let_def elim!: bind_SomeE dest!: loops_text each_session_text_same split: if_splits)

lemma test4_text:
  "opof_test4_text env a M p port cert verbose st = Some (status, out, st') \<Longrightarrow>
   opof_test4 env a M p port cert st = Some (status, st')"
  unfolding opof_test4_text_def opof_test4_def
  by (auto simp: Let_def elim!: bind_SomeE dest!: loops_text each_session_text_same split: if_splits)

lemma test5_text:
  "opof_test5_text env a M p port cert verbose st = Some (status, out, st') \<Longrightarrow>
   opof_test5 env a M p port cert st = Some (status, st')"
  unfolding opof_test5_text_def opof_test5_def
  by (auto simp: Let_def elim!: bind_SomeE dest!: loops_text split: if_splits)

lemma test6_text:
  "opof_test6_text env a M p port cert verbose st = Some (status, out, st') \<Longrightarrow>
   opof_test6 env a M p port cert st = Some (status, st')"
  unfolding opof_test6_text_def opof_test6_def
  by (auto simp: Let_def elim!: bind_SomeE dest!: loops_text split: if_splits)

lemma test7_text:
  "opof_test7_text env a M p port cert st = Some (status, out, st') \<Longrightarrow>
   opof_test7 env a M p port cert st = Some (status, st')"
  unfolding opof_test7_text_def opof_test7_def
  by (auto simp: Let_def elim!: bind_SomeE dest!: loops_text split: if_splits)

lemma test8_text:
  "opof_test8_text env a M p port cert verbose rate st = Some (status, out, st') \<Longrightarrow>
   opof_test8 env a M p port cert st = Some (status, st')"
  unfolding opof_test8_text_def opof_test8_def
  by (auto simp: Let_def elim!: bind_SomeE dest!: loops_text split: if_splits)

lemma test11_text:
  "opof_test11_text env a M p port cert verbose rate st = Some (status, out, st') \<Longrightarrow>
   opof_test11 env a M p port cert st = Some (status, st')"
  unfolding opof_test11_text_def opof_test11_def
  by (auto simp: Let_def elim!: bind_SomeE dest!: loops_text split: if_splits)

text \<open>
  Printing changes nothing else: whatever a test of the full suite prints,
  verbose or not, its status and the state it leaves are those of the test without its text.
\<close>

lemma tests_text_same:
  "(opof_test1_text env a M p port cert verbose rate st = Some (status, out, st') \<longrightarrow>
      opof_test1 env a M p port cert st = Some (status, st')) \<and>
   (opof_test2_text env a M p port cert verbose st = Some (status, out, st') \<longrightarrow>
      (\<exists>seen. opof_test2 env a M p port cert st = Some (status, seen, st'))) \<and>
   (opof_test3_text env a M p port cert verbose st = Some (status, out, st') \<longrightarrow>
      opof_test3 env a M p port cert st = Some (status, st')) \<and>
   (opof_test4_text env a M p port cert verbose st = Some (status, out, st') \<longrightarrow>
      opof_test4 env a M p port cert st = Some (status, st')) \<and>
   (opof_test5_text env a M p port cert verbose st = Some (status, out, st') \<longrightarrow>
      opof_test5 env a M p port cert st = Some (status, st')) \<and>
   (opof_test6_text env a M p port cert verbose st = Some (status, out, st') \<longrightarrow>
      opof_test6 env a M p port cert st = Some (status, st')) \<and>
   (opof_test7_text env a M p port cert st = Some (status, out, st') \<longrightarrow>
      opof_test7 env a M p port cert st = Some (status, st')) \<and>
   (opof_test8_text env a M p port cert verbose rate st = Some (status, out, st') \<longrightarrow>
      opof_test8 env a M p port cert st = Some (status, st')) \<and>
   (opof_test11_text env a M p port cert verbose rate st = Some (status, out, st') \<longrightarrow>
      opof_test11 env a M p port cert st = Some (status, st'))"
  by (intro conjI impI)
    (erule test1_text test2_text test3_text test4_text test5_text test6_text test7_text test8_text test11_text)+

end
