(* ===== verification/Test_Report.thy ===== *)
theory Test_Report
  imports Test_Output
begin

text \<open>
  What the verbose tests print when the client is connected to a device that keeps the contract
  (\<open>session_client\<close>), and then to the test server: which sessions are in the lists of errors, in the
  tables of closed sessions and among the rows of single sessions.
\<close>

subsection \<open>The text of the reports\<close>

definition errors_text :: "addSessionErrors list \<Rightarrow> string" where
  "errors_text es = (if es = [] then [] else errors_title @ concat (map error_line es))"

definition closed_text :: "string \<Rightarrow> sessionResponse_t list \<Rightarrow> string" where
  "closed_text title rs = title @ decimal (length rs) @ NL @ concat (map print_response rs)"

lemma error_lines_ok:
  "\<forall>i\<in>set is. i < length es \<Longrightarrow> error_lines es is = Some (concat (map (\<lambda>i. error_line (es ! i)) is))"
  by (induction "is") auto

lemma response_rows_ok:
  "\<forall>i\<in>set is. i < length rs \<Longrightarrow> response_rows rs is = Some (concat (map (\<lambda>i. print_response (rs ! i)) is))"
  by (induction "is") auto

lemma report_errors_ok:
  assumes n: "number_errors r = of_nat n" "n \<le> length (sessionErrors r)" "n < 2 ^ 31"
  shows "report_errors True r = Some (errors_text (take n (sessionErrors r)))"
proof -
  have "error_lines (sessionErrors r) [0..<n] = Some (concat (map error_line (take n (sessionErrors r))))"
    using n(2) by (simp add: error_lines_ok map_nth_take)
  moreover have "take n (sessionErrors r) = [] \<longleftrightarrow> n = 0" using n(2) by auto
  ultimately show ?thesis using n(1,3) by (simp add: report_errors_def errors_text_def)
qed

lemma response_rows_take: "n \<le> length rs \<Longrightarrow> response_rows rs [0..<n] = Some (concat (map print_response (take n rs)))"
  by (simp add: response_rows_ok map_nth_take)

lemma report_closed_ok: "n \<le> length rs \<Longrightarrow> report_closed True title st n rs = Some (closed_text title (take n rs))"
  by (simp add: report_closed_def response_rows_take closed_text_def)

subsection \<open>Which sessions are refused\<close>

definition refused_as :: "SESSION_STATUS_T \<Rightarrow> u64 \<Rightarrow> addSessionErrors" where
  "refused_as st k = \<lparr>err_sessionId = k, err_errorStatus = status_code st\<rparr>"

lemma rejects_full: "limit < length ids \<Longrightarrow> client_errors (rejects limit ids ks) = map (refused_as RESOURCE_EXHAUSTED) ks"
  by (induction ks arbitrary: ids) (auto simp: admit_status_def client_errors_def refused_as_def)

lemma rejects_known:
  "set ks \<subseteq> set ids \<Longrightarrow> length ids \<le> limit \<Longrightarrow> client_errors (rejects limit ids ks) = map (refused_as ALREADY_EXISTS) ks"
  by (induction ks arbitrary: ids) (auto simp: admit_status_def client_errors_def refused_as_def)

lemma rejects_new:
  "distinct (ids @ ks) \<Longrightarrow>
   client_errors (rejects limit ids ks) = map (refused_as RESOURCE_EXHAUSTED) (drop (Suc limit - length ids) ks)"
proof (induction ks arbitrary: ids)
  case (Cons k ks)
  show ?case
  proof (cases "limit < length ids")
    case True
    then show ?thesis using rejects_full [OF True, of "k # ks"] by simp
  next
    case False
    then show ?thesis using Cons.IH [of "ids @ [k]"] Cons.prems by (simp add: admit_status_def Suc_diff_le)
  qed
qed (simp add: client_errors_def)

context session_client
begin

subsection \<open>What a connected client prints\<close>

lemma add_loop_report:
  assumes "inv (world c) ids" and h: "connected (obj h)" and mk: "makes_requests mk"
    and p: "0 < p" "p \<le> BUFFER_MAX" and M: "b + M < 2 ^ 31"
    and room: "length (sessionErrors addResp) = BUFFER_MAX" and f: "\<not> failed (status_code OK)"
  shows "\<exists>r w bs. add_loop mk failed (add_call_text failed failure (report_errors True) (add_call_plain h))
      (of_nat p) (of_nat M) (of_nat b) addResp (c, out) =
      Some (False, r, c\<lparr>world := w\<rparr>, out @ concat (map errors_text bs)) \<and>
    inv w (admit limit ids (ids_from b (b + M))) \<and> length (sessionErrors r) = BUFFER_MAX \<and>
    concat bs = client_errors (rejects limit ids (ids_from b (b + M)))"
proof -
  let ?R = "\<lambda>s e. b \<le> e \<and> (\<exists>w bs. s = (c\<lparr>world := w\<rparr>, out @ concat (map errors_text bs)) \<and>
    inv w (admit limit ids (ids_from b e)) \<and> concat bs = client_errors (rejects limit ids (ids_from b e)))"
  let ?add = "add_call_text failed failure (report_errors True) (add_call_plain h)"
  have R0: "?R (c, out) b"
    using assms(1) by (auto simp: ids_from_def client_errors_def intro!: exI [of _ "world c"] exI [of _ "[]"])
  have round: "\<exists>rs addResp' s'. mk (of_nat n) (of_nat e) = Some rs \<and> ?add (int n) rs addResp s = Some (status_code OK, addResp', s') \<and>
      ?R s' (e + n) \<and> length (sessionErrors addResp') = BUFFER_MAX"
    if R: "?R s e" and n: "n \<le> BUFFER_MAX" "length (sessionErrors addResp) = BUFFER_MAX" for s n e addResp
  proof -
    obtain w bs where s: "s = (c\<lparr>world := w\<rparr>, out @ concat (map errors_text bs))" and e: "b \<le> e"
      and w: "inv w (admit limit ids (ids_from b e))" and bs: "concat bs = client_errors (rejects limit ids (ids_from b e))"
      using R by blast
    let ?E = "rejects limit (admit limit ids (ids_from b e)) (ids_from e (e + n))"
    have inv: "inv (world (c\<lparr>world := w\<rparr>)) (admit limit ids (ids_from b e))" using w by simp
    obtain rs r w' where rs: "mk (of_nat n) (of_nat e) = Some rs"
      "opof_add_session (int n) h rs addResp (c\<lparr>world := w\<rparr>) = Some (status_code OK, r, c\<lparr>world := w\<rparr>\<lparr>world := w'\<rparr>)"
      and w': "inv w' (admit limit (admit limit ids (ids_from b e)) (ids_from e (e + n)))" "length (sessionErrors r) = BUFFER_MAX"
      and E: "number_errors r = of_nat (length ?E)" "take (length ?E) (sessionErrors r) = client_errors ?E"
      using add_batch [OF inv h mk n, of e] by blast
    have "length ?E \<le> n" using rejects_length [of limit "admit limit ids (ids_from b e)" "ids_from e (e + n)"]
      by (simp add: ids_from_def)
    then have "length ?E \<le> length (sessionErrors r)" "length ?E < 2 ^ 31" using n(1) w'(2) by (simp_all add: BUFFER_MAX_def)
    from report_errors_ok [OF E(1) this] have "report_errors True r = Some (errors_text (client_errors ?E))" unfolding E(2) .
    then have add: "?add (int n) rs addResp s =
        Some (status_code OK, r, c\<lparr>world := w'\<rparr>, out @ concat (map errors_text (bs @ [client_errors ?E])))"
      using rs(2) f unfolding s by (simp add: add_call_text_def add_call_plain_def del: status_code.simps)
    have "concat (bs @ [client_errors ?E]) = client_errors (rejects limit ids (ids_from b e @ ids_from e (e + n)))"
      using bs by (simp add: rejects_append client_errors_def)
    moreover have "ids_from b e @ ids_from e (e + n) = ids_from b (e + n)" using e by (simp add: ids_from_append)
    moreover have "admit limit (admit limit ids (ids_from b e)) (ids_from e (e + n)) = admit limit ids (ids_from b (e + n))"
      using e by (simp add: admit_append [symmetric] ids_from_append)
    ultimately have "?R (c\<lparr>world := w'\<rparr>, out @ concat (map errors_text (bs @ [client_errors ?E]))) (e + n)"
      using w'(1) e by (metis trans_le_add1)
    then show ?thesis using rs(1) add w'(2) by blast
  qed
  have "\<exists>r s'. add_loop mk failed ?add (of_nat p) (of_nat M) (of_nat b) addResp (c, out) = Some (False, r, s') \<and>
      ?R s' (b + M) \<and> length (sessionErrors r) = BUFFER_MAX"
    by (rule add_loop_rounds [where R = ?R and c = "(c, out)" and failed = failed, OF R0 p M room f]) (rule round)
  then show ?thesis by blast
qed

lemma closed_report:
  assumes "inv (world c) ids" and h: "connected (obj (handle args))"
    and p: "str_pageSize args = of_nat p" "0 < p" "p \<le> BUFFER_MAX"
    and room: "length responses = BUFFER_MAX" and n: "n \<noteq> 0" and f: "\<not> failed (status_code OK)"
  shows "\<exists>w ps. closed_until_none failed (closed_call_text failed (report_closed True title) (opof_get_closed_sessions args))
      n responses (c, out) = Some (False, c\<lparr>world := w\<rparr>, out @ concat (map (closed_text title) ps)) \<and>
    inv w [] \<and> map rsp_sessionId (concat ps) = ids"
proof -
  let ?Q = "\<lambda>s ids'. \<exists>w ps. s = (c\<lparr>world := w\<rparr>, out @ concat (map (closed_text title) ps)) \<and> inv w ids' \<and>
    map rsp_sessionId (concat ps) @ ids' = ids"
  let ?get = "closed_call_text failed (report_closed True title) (opof_get_closed_sessions args)"
  have sp: "sint (str_pageSize args) = int p" using p by (simp add: BUFFER_MAX_def)
  have Q0: "?Q (c, out) ids" using assms(1) by (intro exI [of _ "world c"] exI [of _ "[]"]) simp
  have page: "\<exists>st n responses' s' ids''. ?get responses s = Some (st, n, responses', s') \<and> ?Q s' ids'' \<and>
      length responses' = BUFFER_MAX \<and> (if n = 0 then ids'' = [] else length ids'' < length ids' \<and> \<not> failed st)"
    if Q: "?Q s ids'" and len: "length responses = BUFFER_MAX" for s ids' responses
  proof -
    obtain w ps where s: "s = (c\<lparr>world := w\<rparr>, out @ concat (map (closed_text title) ps))" "inv w ids'"
      "map rsp_sessionId (concat ps) @ ids' = ids" using Q by blast
    have inv: "inv (world (c\<lparr>world := w\<rparr>)) ids'" using s(2) by simp
    let ?n = "length (take p ids')" and ?st = "status_code (if ids' = [] then NOT_FOUND else OK)"
    obtain rs w' where r: "opof_get_closed_sessions args responses (c\<lparr>world := w\<rparr>) =
        Some (?st, ?n, rs, c\<lparr>world := w\<rparr>\<lparr>world := w'\<rparr>)"
      "length rs = BUFFER_MAX" "first_ids ?n rs = take p ids'" "inv w' (drop p ids')"
      using opof_get_closed_sessions_ok [OF inv h, of responses] p len unfolding sp by auto
    have "?n \<le> length rs" using r(2) p(3) by simp
    from report_closed_ok [OF this] have "?get responses s =
        Some (?st, ?n, rs, c\<lparr>world := w'\<rparr>, out @ concat (map (closed_text title) (ps @ [take ?n rs])))"
      using r(1) f p(2) unfolding s(1) by (auto simp: closed_call_text_def simp del: status_code.simps)
    moreover have "map rsp_sessionId (concat (ps @ [take ?n rs])) @ drop p ids' = ids"
      using r(3) s(3) by (simp add: first_ids_def take_map)
    moreover have "if ?n = 0 then drop p ids' = [] else length (drop p ids') < length ids' \<and> \<not> failed ?st"
      using p(2) f by (auto simp del: status_code.simps)
    ultimately show ?thesis using r(2,4) by blast
  qed
  have "\<exists>s'. closed_until_none failed ?get n responses (c, out) = Some (False, s') \<and> ?Q s' []"
    by (rule closed_loop_pages [where Q = ?Q and c = "(c, out)" and ids = ids, OF Q0 room n]) (rule page)
  then show ?thesis by auto
qed

end

definition test1_report :: "nat \<Rightarrow> nat \<Rightarrow> addSessionErrors list list \<Rightarrow> sessionResponse_t list list \<Rightarrow> string \<Rightarrow> string" where
  "test1_report M p bs ps rate =
     test1_begin (of_nat M) (of_nat p) @ concat (map errors_text bs) @
     print_response_header @ closing_line @ concat (map (closed_text closed_title) ps) @ test1_end (of_nat M) rate"

definition test6_report ::
  "nat \<Rightarrow> nat \<Rightarrow> addSessionErrors list list \<Rightarrow> addSessionErrors list list \<Rightarrow> sessionResponse_t list list \<Rightarrow> string" where
  "test6_report M p bs bs' ps =
     test6_begin (of_nat M) (of_nat p) @ concat (map errors_text bs) @ concat (map errors_text bs') @
     print_response_header @ concat (map (closed_text closed_title8) ps) @ test6_end (of_nat M)"

definition test3_report :: "nat \<Rightarrow> sessionResponse_t list \<Rightarrow> string" where
  "test3_report M rows =
     test3_begin (of_nat M) @ adding_line (of_nat M) @ getting_line @ print_response_header @
     concat (map print_response rows) @ test3_end (of_nat M)"

context session_client
begin

text \<open>The first pass over all sessions, on an empty device, and the pages of closed sessions in the end.\<close>

lemma first_pass_report:
  assumes w: "inv w []" and env: "test_env env" and p: "0 < p" "p \<le> BUFFER_MAX" and M: "M < 2 ^ 31"
  shows "\<exists>r w' bs. add_loop (createSessionRequest (uninit_request env)) not_ok
      (add_call_text not_ok failure (report_errors True)
        (add_call_plain (opof_create_sessionTable (new_client env) (ssl env) a q cert)))
      (of_nat p) (of_nat M) 0 (uninit_add env) (c\<lparr>world := w\<rparr>, out) =
      Some (False, r, c\<lparr>world := w'\<rparr>, out @ concat (map errors_text bs)) \<and>
    inv w' (offered M) \<and> length (sessionErrors r) = BUFFER_MAX \<and>
    concat bs = map (refused_as RESOURCE_EXHAUSTED) (ids_from (Suc limit) M)"
proof -
  have "inv (world (c\<lparr>world := w\<rparr>)) []" and "0 + M < 2 ^ 31" using w M by simp_all
  from add_loop_report [where failed = not_ok, OF this(1) test_env_connected [OF env]
      makes_createSessionRequest p this(2) test_env_room [OF env]]
  show ?thesis
    using rejects_new [of "[]" "ids_from 0 M" limit] ids_from_distinct [of M 0] M
    by (simp add: offered_def ids_from_def drop_map)
qed

lemma closed_pages_report:
  assumes w: "inv w ids" and "test_env env" and "0 < p" "p \<le> BUFFER_MAX" and "\<not> failed (status_code OK)"
  shows "\<exists>w' ps. closed_until_none failed (closed_call_text failed (report_closed True title)
      (opof_get_closed_sessions \<lparr>handle = opof_create_sessionTable (new_client env) (ssl env) a q cert, str_pageSize = of_nat p\<rparr>))
      1 (responses_init env) (c\<lparr>world := w\<rparr>, out) =
      Some (False, c\<lparr>world := w'\<rparr>, out @ concat (map (closed_text title) ps)) \<and>
    inv w' [] \<and> map rsp_sessionId (concat ps) = ids"
proof -
  let ?args = "\<lparr>handle = opof_create_sessionTable (new_client env) (ssl env) a q cert, str_pageSize = of_nat p\<rparr>"
  have i: "inv (world (c\<lparr>world := w\<rparr>)) ids" and hs: "connected (obj (handle ?args))" "str_pageSize ?args = of_nat p"
    using w assms(2) by simp_all
  from closed_report [where failed = failed and title = title and out = out, OF i hs assms(3,4) responses_init_length one_neq_zero assms(5)]
  show ?thesis by simp
qed

lemma test1_report_ok:
  assumes env: "test_env env" and st: "test_state st" and p: "0 < p" "p \<le> BUFFER_MAX" and M: "M < 2 ^ 31"
  shows "\<exists>st' bs ps. opof_test1_text env a (of_nat M) (of_nat p) port cert True rate st =
      Some (SUCCESS, test1_report M p bs ps rate, st') \<and> holds_sessions st' [] \<and>
    concat bs = map (refused_as RESOURCE_EXHAUSTED) (ids_from (Suc limit) M) \<and> map rsp_sessionId (concat ps) = offered M"
proof -
  let ?h = "opof_create_sessionTable (new_client env) (ssl env) a (ucast port) cert"
  let ?failed = "\<lambda>status. status = status_code NOT_FOUND"
  obtain w where w: "opof_delete_all_sessions env ?h (sint (of_nat p :: u32)) st =
      Some (SUCCESS, st\<lparr>conn := (conn st)\<lparr>world := w\<rparr>\<rparr>)" "inv w []"
    using deleted_all [OF env st] by blast
  obtain r w1 bs where add: "add_loop (createSessionRequest (uninit_request env)) not_ok
      (add_call_text not_ok adding_failed (report_errors True) (add_call_plain ?h)) (of_nat p) (of_nat M) 0
      (uninit_add env) ((conn st)\<lparr>world := w\<rparr>, test1_begin (of_nat M) (of_nat p)) =
      Some (False, r, (conn st)\<lparr>world := w1\<rparr>, test1_begin (of_nat M) (of_nat p) @ concat (map errors_text bs))"
    "inv w1 (offered M)" "concat bs = map (refused_as RESOURCE_EXHAUSTED) (ids_from (Suc limit) M)"
    using first_pass_report [OF w(2) env p M] by blast
  have f: "\<not> ?failed (status_code OK)" by simp
  let ?out = "(test1_begin (of_nat M) (of_nat p) @ concat (map errors_text bs)) @ header_if True @ closing_line"
  obtain w2 ps where close: "closed_until_none ?failed (closed_call_text ?failed (report_closed True closed_title)
      (opof_get_closed_sessions \<lparr>handle = ?h, str_pageSize = of_nat p\<rparr>)) 1 (responses_init env) ((conn st)\<lparr>world := w1\<rparr>, ?out) =
      Some (False, (conn st)\<lparr>world := w2\<rparr>, ?out @ concat (map (closed_text closed_title) ps))"
    "inv w2 []" "map rsp_sessionId (concat ps) = offered M"
    using closed_pages_report [where failed = ?failed and title = closed_title and out = ?out, OF add(2) env p f] by blast
  have "opof_test1_text env a (of_nat M) (of_nat p) port cert True rate st =
      Some (SUCCESS, test1_report M p bs ps rate, st\<lparr>conn := (conn st)\<lparr>world := w2\<rparr>\<rparr>)"
    using w(1) add(1) close(1)
    by (simp add: opof_test1_text_def test1_report_def Let_def header_if_def del: status_code.simps One_nat_def)
  then show ?thesis using add(3) close(2,3) by (auto simp: holds_sessions_def)
qed

text \<open>The second pass of test 6: a full device refuses every session for want of room, another knows them all.\<close>

lemma second_pass_rejects:
  assumes "M < 2 ^ 31"
  shows "client_errors (rejects limit (offered M) (ids_from 0 M)) =
    map (refused_as (if M \<le> limit then ALREADY_EXISTS else RESOURCE_EXHAUSTED)) (ids_from 0 M)"
  using assms rejects_full [of limit "offered M" "ids_from 0 M"] rejects_known [of "ids_from 0 M" "offered M" limit]
  by (auto simp: offered_eq ids_from_def min_def)

lemma second_pass_report:
  assumes w: "inv w (offered M)" and env: "test_env env" and p: "0 < p" "p \<le> BUFFER_MAX" and M: "M < 2 ^ 31"
    and room: "length (sessionErrors addResp) = BUFFER_MAX"
  shows "\<exists>r w' bs. add_loop (createSessionRequest (uninit_request env)) not_ok
      (add_call_text not_ok failure (report_errors True)
        (add_call_plain (opof_create_sessionTable (new_client env) (ssl env) a q cert)))
      (of_nat p) (of_nat M) 0 addResp (c\<lparr>world := w\<rparr>, out) =
      Some (False, r, c\<lparr>world := w'\<rparr>, out @ concat (map errors_text bs)) \<and>
    inv w' (offered M) \<and> length (sessionErrors r) = BUFFER_MAX \<and>
    concat bs = map (refused_as (if M \<le> limit then ALREADY_EXISTS else RESOURCE_EXHAUSTED)) (ids_from 0 M)"
proof -
  have i: "inv (world (c\<lparr>world := w\<rparr>)) (offered M)" and M0: "0 + M < 2 ^ 31" using w M by simp_all
  have "admit limit (offered M) (ids_from 0 M) = offered M"
    using admit_again [of limit "[]" M "ids_from 0 M"] by (simp add: offered_def ids_from_def)
  then show ?thesis
    using add_loop_report [where failed = not_ok and failure = failure and out = out, OF i test_env_connected [OF env]
        makes_createSessionRequest p M0 room] second_pass_rejects [OF M]
    by (simp split del: if_split)
qed

lemma test6_report_ok:
  assumes env: "test_env env" and st: "test_state st" and p: "0 < p" "p \<le> BUFFER_MAX" and M: "M < 2 ^ 31"
  shows "\<exists>st' bs bs' ps. opof_test6_text env a (of_nat M) (of_nat p) port cert True st =
      Some (SUCCESS, test6_report M p bs bs' ps, st') \<and> holds_sessions st' [] \<and>
    concat bs = map (refused_as RESOURCE_EXHAUSTED) (ids_from (Suc limit) M) \<and>
    concat bs' = map (refused_as (if M \<le> limit then ALREADY_EXISTS else RESOURCE_EXHAUSTED)) (ids_from 0 M) \<and>
    map rsp_sessionId (concat ps) = offered M"
proof -
  let ?h = "opof_create_sessionTable (new_client env) (ssl env) a (ucast port) cert"
  let ?b = "test6_begin (of_nat M) (of_nat p)" and ?add = "add_call_text not_ok test6_failed (report_errors True) (add_call_plain ?h)"
  obtain w where w: "opof_delete_all_sessions env ?h (sint (of_nat p :: u32)) st =
      Some (SUCCESS, st\<lparr>conn := (conn st)\<lparr>world := w\<rparr>\<rparr>)" "inv w []"
    using deleted_all [OF env st] by blast
  obtain r w1 bs where add: "add_loop (createSessionRequest (uninit_request env)) not_ok ?add (of_nat p) (of_nat M) 0
      (uninit_add env) ((conn st)\<lparr>world := w\<rparr>, ?b) = Some (False, r, (conn st)\<lparr>world := w1\<rparr>, ?b @ concat (map errors_text bs))"
    "inv w1 (offered M)" "length (sessionErrors r) = BUFFER_MAX"
    "concat bs = map (refused_as RESOURCE_EXHAUSTED) (ids_from (Suc limit) M)"
    using first_pass_report [OF w(2) env p M] by blast
  let ?b1 = "?b @ concat (map errors_text bs)"
  obtain r2 w2 bs' where add2: "add_loop (createSessionRequest (uninit_request env)) not_ok ?add (of_nat p) (of_nat M) 0
      r ((conn st)\<lparr>world := w1\<rparr>, ?b1) = Some (False, r2, (conn st)\<lparr>world := w2\<rparr>, ?b1 @ concat (map errors_text bs'))"
    "inv w2 (offered M)"
    "concat bs' = map (refused_as (if M \<le> limit then ALREADY_EXISTS else RESOURCE_EXHAUSTED)) (ids_from 0 M)"
    using second_pass_report [OF add(2) env p M add(3)] by blast
  have f: "\<not> (\<lambda>_ :: u32. False) (status_code OK)" by simp
  let ?out = "(?b1 @ concat (map errors_text bs')) @ header_if True"
  obtain w3 ps where close: "closed_until_none (\<lambda>_. False) (closed_call_text (\<lambda>_. False) (report_closed True closed_title8)
      (opof_get_closed_sessions \<lparr>handle = ?h, str_pageSize = of_nat p\<rparr>)) 1 (responses_init env) ((conn st)\<lparr>world := w2\<rparr>, ?out) =
      Some (False, (conn st)\<lparr>world := w3\<rparr>, ?out @ concat (map (closed_text closed_title8) ps))"
    "inv w3 []" "map rsp_sessionId (concat ps) = offered M"
    using closed_pages_report [where failed = "\<lambda>_. False" and title = closed_title8 and out = ?out, OF add2(2) env p f]
    by blast
  have "opof_test6_text env a (of_nat M) (of_nat p) port cert True st =
      Some (SUCCESS, test6_report M p bs bs' ps, st\<lparr>conn := (conn st)\<lparr>world := w3\<rparr>\<rparr>)"
    using w(1) add(1) add2(1) close(1)
    by (simp add: opof_test6_text_def test6_report_def Let_def header_if_def del: status_code.simps One_nat_def)
  moreover have "holds_sessions (st\<lparr>conn := (conn st)\<lparr>world := w3\<rparr>\<rparr>) []" using close(2) by (simp add: holds_sessions_def)
  ultimately show ?thesis using add(4) add2(3) close(3) by blast
qed

end

context session_client
begin

text \<open>The pass of a test that prints nothing about the batches.\<close>

lemma silent_pass:
  assumes w: "inv w []" and env: "test_env env" and p: "0 < p" "p \<le> BUFFER_MAX" and M: "M < 2 ^ 31"
    and f: "\<not> failed (status_code OK)"
  shows "\<exists>r w'. add_loop (createSessionRequest (uninit_request env)) failed
      (add_call_text failed failure (\<lambda>_. Some [])
        (add_call_plain (opof_create_sessionTable (new_client env) (ssl env) a q cert)))
      (of_nat p) (of_nat M) 0 (uninit_add env) (c\<lparr>world := w\<rparr>, out) =
      Some (False, r, c\<lparr>world := w'\<rparr>, out) \<and> inv w' (offered M)"
proof -
  let ?h = "opof_create_sessionTable (new_client env) (ssl env) a q cert"
  let ?add = "add_call_text failed failure (\<lambda>_. Some []) (add_call_plain ?h)"
  let ?Q = "\<lambda>s ids. \<exists>w. s = (c\<lparr>world := w\<rparr>, out) \<and> inv w ids"
  have Q0: "?Q (c\<lparr>world := w\<rparr>, out) []" and M0: "0 + M < 2 ^ 31" using w M by auto
  have batch: "\<exists>rs addResp' s'. createSessionRequest (uninit_request env) (of_nat n) (of_nat b) = Some rs \<and>
      ?add (int n) rs addResp s = Some (status_code OK, addResp', s') \<and> ?Q s' (admit limit ids (ids_from b (b + n))) \<and>
      length (sessionErrors addResp') = BUFFER_MAX"
    if Q: "?Q s ids" and n: "n \<le> BUFFER_MAX" "length (sessionErrors addResp) = BUFFER_MAX" for s ids n b addResp
  proof -
    obtain w1 where s: "s = (c\<lparr>world := w1\<rparr>, out)" "inv (world (c\<lparr>world := w1\<rparr>)) ids" using Q by auto
    obtain rs r w' where rs: "createSessionRequest (uninit_request env) (of_nat n) (of_nat b) = Some rs"
      and r: "opof_add_session (int n) ?h rs addResp (c\<lparr>world := w1\<rparr>) = Some (status_code OK, r, c\<lparr>world := w1\<rparr>\<lparr>world := w'\<rparr>)"
      "inv w' (admit limit ids (ids_from b (b + n)))" "length (sessionErrors r) = BUFFER_MAX"
      using add_batch [OF s(2) test_env_connected [OF env] makes_createSessionRequest n, of "uninit_request env" b] by blast
    have "?add (int n) rs addResp s = Some (status_code OK, r, c\<lparr>world := w'\<rparr>, out)"
      using r(1) f unfolding s(1) by (simp add: add_call_text_def add_call_plain_def del: status_code.simps)
    then show ?thesis using rs r(2,3) by blast
  qed
  have "\<exists>r s'. add_loop (createSessionRequest (uninit_request env)) failed ?add (of_nat p) (of_nat M) (of_nat 0) (uninit_add env)
      (c\<lparr>world := w\<rparr>, out) = Some (False, r, s') \<and> ?Q s' (admit limit [] (ids_from 0 (0 + M))) \<and> length (sessionErrors r) = BUFFER_MAX"
    by (rule add_loop_batches [where Q = ?Q and c = "(c\<lparr>world := w\<rparr>, out)" and ids = "[]" and failed = failed,
          OF Q0 p M0 test_env_room [OF env] f]) (rule batch)
  then show ?thesis by (auto simp: offered_def)
qed

end

text \<open>The row that is printed for a session that does not exist: that of an accepted session \<open>0\<close>.\<close>

definition no_session :: sessionResponse_t where
  "no_session = \<lparr>rsp_sessionId = 0, rsp_inPackets = 0, rsp_outPackets = 0, rsp_inBytes = 0, rsp_outBytes = 0,
     rsp_sessionState = state_code ESTABLISHED, rsp_sessionCloseCode = close_code NOT_CLOSED,
     rsp_requestStatus = request_code ACCEPTED\<rparr>"

lemma converted_default: "convertSessionResponse2c default_sessionResponse resp = no_session"
  by (cases resp) (simp add: convertSessionResponse2c_def default_sessionResponse_def no_session_def)

context session_client
begin

lemma each_get_report:
  assumes inv: "inv (world c) ids" and h: "connected (obj h)" and js: "\<forall>j\<in>set js. j < 2 ^ 31"
  shows "\<exists>rows. each_session_text True (opof_get_session h) js resp c out =
      Some (c, out @ concat (map print_response rows)) \<and>
    list_all2 (\<lambda>j r. if of_nat j \<in> set ids then rsp_sessionId r = of_nat j else r = no_session) js rows"
  using js
proof (induction js arbitrary: resp out)
  case (Cons j js)
  have j: "sent_id (of_nat j) = of_nat j" using Cons.prems sent_id_small [OF of_nat_small] by simp
  obtain r where r: "opof_get_session h (of_nat j) resp c =
      Some (status_code (if of_nat j \<in> set ids then OK else NOT_FOUND), r, c)"
    "if of_nat j \<in> set ids then rsp_sessionId r = of_nat j else r = no_session"
    using opof_get_session_ok [OF inv h, of "of_nat j" resp] unfolding j converted_default by blast
  have nf: "status_code (if of_nat j \<in> set ids then OK else NOT_FOUND) \<noteq> FAILURE" by (simp del: status_code.simps)
  have js': "\<forall>j\<in>set js. j < 2 ^ 31" using Cons.prems by simp
  from Cons.IH [OF js', of r "out @ print_response r"] obtain rows where
    "each_session_text True (opof_get_session h) js r c (out @ print_response r) =
      Some (c, (out @ print_response r) @ concat (map print_response rows))"
    "list_all2 (\<lambda>j r. if of_nat j \<in> set ids then rsp_sessionId r = of_nat j else r = no_session) js rows" by blast
  then show ?case
    using r nf by (intro exI [of _ "r # rows"]) (simp del: status_code.simps)
qed simp

lemma mem_offered: "M < 2 ^ 31 \<Longrightarrow> j < M \<Longrightarrow> of_nat j \<in> set (offered M) \<longleftrightarrow> j < Suc limit"
  by (auto simp: offered_eq ids_from_def word_of_nat_eq_iff take_bit_nat_eq_self)

lemma test3_report_ok:
  assumes env: "test_env env" and st: "test_state st" and p: "0 < p" "p \<le> BUFFER_MAX" and M: "M < 2 ^ 31"
  shows "\<exists>st' rows. opof_test3_text env a (of_nat M) (of_nat p) port cert True st =
      Some (SUCCESS, test3_report M (rows @ replicate (M - Suc limit) no_session), st') \<and>
    holds_sessions st' (offered M) \<and> map rsp_sessionId rows = offered M"
proof -
  let ?h = "opof_create_sessionTable (new_client env) (ssl env) a (ucast port) cert"
  let ?f = "\<lambda>status. status = FAILURE"
  let ?out = "test3_begin (of_nat M) @ adding_line (of_nat M)"
  obtain w where w: "opof_delete_all_sessions env ?h (sint (of_nat p :: u32)) st =
      Some (SUCCESS, st\<lparr>conn := (conn st)\<lparr>world := w\<rparr>\<rparr>)" "inv w []"
    using deleted_all [OF env st] by blast
  obtain r w1 where add: "add_loop (createSessionRequest (uninit_request env)) ?f
      (add_call_text ?f adding_failed_plain (\<lambda>_. Some []) (add_call_plain ?h)) (of_nat p) (of_nat M) 0
      (uninit_add env) ((conn st)\<lparr>world := w\<rparr>, ?out) = Some (False, r, (conn st)\<lparr>world := w1\<rparr>, ?out)"
    "inv w1 (offered M)"
    using silent_pass [where failed = ?f, OF w(2) env p M status_FAILURE(1)] by blast
  let ?out1 = "?out @ getting_line @ header_if True"
  have i: "inv (world ((conn st)\<lparr>world := w1\<rparr>)) (offered M)" using add(2) by simp
  have js: "\<forall>j\<in>set [0..<M]. j < 2 ^ 31" using M by simp
  obtain rows where get: "each_session_text True (opof_get_session ?h) [0..<M] (uninit_rsp env 0) ((conn st)\<lparr>world := w1\<rparr>) ?out1 =
      Some ((conn st)\<lparr>world := w1\<rparr>, ?out1 @ concat (map print_response rows))"
    and rows: "list_all2 (\<lambda>j r. if of_nat j \<in> set (offered M) then rsp_sessionId r = of_nat j else r = no_session) [0..<M] rows"
    using each_get_report [OF i test_env_connected [OF env] js] by blast
  have len: "length rows = M" and nth: "\<And>j. j < M \<Longrightarrow> if j < Suc limit then rsp_sessionId (rows ! j) = of_nat j else rows ! j = no_session"
    using rows mem_offered [OF M] by (auto simp: list_all2_conv_all_nth split: if_splits)
  have "drop (Suc limit) rows = replicate (M - Suc limit) no_session"
    using len nth by (intro nth_equalityI) (auto dest: spec split: if_splits)
  moreover have "map rsp_sessionId (take (Suc limit) rows) = offered M"
    using len nth by (intro nth_equalityI) (auto simp: offered_eq [OF M] ids_from_def split: if_splits)
  moreover have "opof_test3_text env a (of_nat M) (of_nat p) port cert True st =
      Some (SUCCESS, test3_report M rows, st\<lparr>conn := (conn st)\<lparr>world := w1\<rparr>\<rparr>)"
    using w(1) add(1) get M
    by (simp add: opof_test3_text_def test3_report_def Let_def header_if_def del: status_code.simps One_nat_def)
  ultimately show ?thesis
    using add(2) append_take_drop_id [of "Suc limit" rows]
    by (intro exI [of _ "st\<lparr>conn := (conn st)\<lparr>world := w1\<rparr>\<rparr>"] exI [of _ "take (Suc limit) rows"]) (simp add: holds_sessions_def)
qed

end

subsection \<open>The test server\<close>

text \<open>
  C20: Against the test server a verbose test 1 prints, whatever the page size, a
  line for each session beyond the 1001 that the server takes, which says that it is full, and a row for
  each session it took, once and in order, and then says that all sessions were closed.
\<close>

theorem test1_reports:
  assumes "holds_ids (world (conn st)) ids" and "\<forall>k\<in>set ids. k < 2 ^ 31"
    and "\<forall>address cert. served (new_client env address cert)" and "length (sessionErrors (uninit_add env)) = BUFFER_MAX"
    and "0 < p" and "p \<le> BUFFER_MAX" and "M < 2 ^ 31"
  shows "\<exists>st' errors pages. opof_test1_text env address (of_nat M) (of_nat p) port cert True rate st =
      Some (SUCCESS, test1_report M p errors pages rate, st') \<and> holds_ids (world (conn st')) [] \<and>
    concat errors = map (\<lambda>i. refused_as RESOURCE_EXHAUSTED (of_nat i)) [HASHTABLE_SIZE + 1..<M] \<and>
    map rsp_sessionId (concat pages) = map of_nat [0..<min M (HASHTABLE_SIZE + 1)]"
  using lib.test1_report_ok [OF test_env_served [OF assms(3,4)] test_state_holds [OF assms(1,2)] assms(5-7)]
  by (simp add: lib.offered_eq [OF assms(7)] ids_from_def lib.holds_sessions_def comp_def)

text \<open>
  C21: A verbose test 6, which offers the same sessions twice, prints a line for
  every session of the second pass: that it exists already, unless there were more than 1000; then the
  server is full, and that is what it says of the sessions it has as well.
\<close>

theorem test6_reports:
  assumes "holds_ids (world (conn st)) ids" and "\<forall>k\<in>set ids. k < 2 ^ 31"
    and "\<forall>address cert. served (new_client env address cert)" and "length (sessionErrors (uninit_add env)) = BUFFER_MAX"
    and "0 < p" and "p \<le> BUFFER_MAX" and "M < 2 ^ 31"
  shows "\<exists>st' first second pages. opof_test6_text env address (of_nat M) (of_nat p) port cert True st =
      Some (SUCCESS, test6_report M p first second pages, st') \<and> holds_ids (world (conn st')) [] \<and>
    concat first = map (\<lambda>i. refused_as RESOURCE_EXHAUSTED (of_nat i)) [HASHTABLE_SIZE + 1..<M] \<and>
    concat second =
      map (\<lambda>i. refused_as (if M \<le> HASHTABLE_SIZE then ALREADY_EXISTS else RESOURCE_EXHAUSTED) (of_nat i)) [0..<M] \<and>
    map rsp_sessionId (concat pages) = map of_nat [0..<min M (HASHTABLE_SIZE + 1)]"
  using lib.test6_report_ok [OF test_env_served [OF assms(3,4)] test_state_holds [OF assms(1,2)] assms(5-7)]
  by (simp add: lib.offered_eq [OF assms(7)] ids_from_def lib.holds_sessions_def comp_def)

text \<open>
  C22: A verbose test 3, which asks for each session it has offered, prints the
  rows of those the server took, in order; for each of the others, which do not exist, it prints the
  row of an established session with id 0 whose request was accepted.
\<close>

theorem test3_reports:
  assumes "holds_ids (world (conn st)) ids" and "\<forall>k\<in>set ids. k < 2 ^ 31"
    and "\<forall>address cert. served (new_client env address cert)" and "length (sessionErrors (uninit_add env)) = BUFFER_MAX"
    and "0 < p" and "p \<le> BUFFER_MAX" and "M < 2 ^ 31"
  shows "\<exists>st' rows. opof_test3_text env address (of_nat M) (of_nat p) port cert True st =
      Some (SUCCESS, test3_report M (rows @ replicate (M - (HASHTABLE_SIZE + 1)) no_session), st') \<and>
    map rsp_sessionId rows = map of_nat [0..<min M (HASHTABLE_SIZE + 1)]"
  using lib.test3_report_ok [OF test_env_served [OF assms(3,4)] test_state_holds [OF assms(1,2)] assms(5-7)]
  by (simp add: lib.offered_eq [OF assms(7)] ids_from_def) blast

subsection \<open>The properties on a concrete server\<close>

lemma ex_state:
  obtains s where "run_all add_ok (map ex_request [1, 2, 3]) (server_init ex_rng) = Some s"
    and "holds_ids (world (conn (ex_tester s))) [1, 2, 3]" and "\<forall>k\<in>set [1, 2, 3 :: u64]. k < 2 ^ 31"
proof -
  obtain s where "run_all add_ok (map ex_request [1, 2, 3]) (server_init ex_rng) = Some s" "holds_ids s [1, 2, 3]"
    by (rule ex_holds)
  then show thesis using that [of s] by simp
qed

lemma ex_sizes: "0 < (4::nat)" "4 \<le> BUFFER_MAX" "(10::nat) < 2 ^ 31" "(1010::nat) < 2 ^ 31"
  by (simp_all add: BUFFER_MAX_def)

lemma ex_env_ok: "\<forall>address cert. served (new_client ex_env address cert)" "length (sessionErrors (uninit_add ex_env)) = BUFFER_MAX"
  by simp_all

text \<open>1010 sessions in pages of four.\<close>

lemma test1_reports_witness:
  "\<exists>s st' errors pages. run_all add_ok (map ex_request [1, 2, 3]) (server_init ex_rng) = Some s \<and>
     opof_test1_text ex_env ''localhost'' (of_nat 1010) (of_nat 4) 3443 '''' True ''1.0'' (ex_tester s) =
       Some (SUCCESS, test1_report 1010 4 errors pages ''1.0'', st') \<and>
     map err_sessionId (concat errors) = [1001, 1002, 1003, 1004, 1005, 1006, 1007, 1008, 1009] \<and>
     map rsp_sessionId (concat pages) = map of_nat [0..<1001]"
proof -
  obtain s where s: "run_all add_ok (map ex_request [1, 2, 3]) (server_init ex_rng) = Some s"
    and h: "holds_ids (world (conn (ex_tester s))) [1, 2, 3]" "\<forall>k\<in>set [1, 2, 3 :: u64]. k < 2 ^ 31" by (rule ex_state)
  have u: "[HASHTABLE_SIZE + 1..<1010] = [1001, 1002, 1003, 1004, 1005, 1006, 1007, 1008, 1009]"
    by (simp add: HASHTABLE_SIZE_def upt_rec)
  have m: "min 1010 (HASHTABLE_SIZE + 1) = 1001" by (simp add: HASHTABLE_SIZE_def)
  obtain st' errors pages where t: "opof_test1_text ex_env ''localhost'' (of_nat 1010) (of_nat 4) 3443 '''' True ''1.0'' (ex_tester s) =
      Some (SUCCESS, test1_report 1010 4 errors pages ''1.0'', st')"
    and e: "concat errors = map (\<lambda>i. refused_as RESOURCE_EXHAUSTED (of_nat i)) [1001, 1002, 1003, 1004, 1005, 1006, 1007, 1008, 1009]"
    and q: "map rsp_sessionId (concat pages) = map of_nat [0..<1001]"
    using test1_reports [OF h ex_env_ok ex_sizes(1,2,4), of "''localhost''" 3443 "''''" "''1.0''"] unfolding u m by blast
  have "map err_sessionId (concat errors) = [1001, 1002, 1003, 1004, 1005, 1006, 1007, 1008, 1009]"
    unfolding e by (simp add: refused_as_def)
  then show ?thesis using s t q by (intro exI conjI)
qed

lemma test6_reports_witness:
  "\<exists>s st' second pages first. run_all add_ok (map ex_request [1, 2, 3]) (server_init ex_rng) = Some s \<and>
     opof_test6_text ex_env ''localhost'' (of_nat 10) (of_nat 4) 3443 '''' True (ex_tester s) =
       Some (SUCCESS, test6_report 10 4 first second pages, st') \<and>
     concat second = map (\<lambda>i. refused_as ALREADY_EXISTS (of_nat i)) [0..<10]"
proof -
  obtain s where s: "run_all add_ok (map ex_request [1, 2, 3]) (server_init ex_rng) = Some s"
    and h: "holds_ids (world (conn (ex_tester s))) [1, 2, 3]" "\<forall>k\<in>set [1, 2, 3 :: u64]. k < 2 ^ 31" by (rule ex_state)
  have c: "(if 10 \<le> HASHTABLE_SIZE then ALREADY_EXISTS else RESOURCE_EXHAUSTED) = ALREADY_EXISTS"
    by (simp add: HASHTABLE_SIZE_def)
  show ?thesis
    using s test6_reports [OF h ex_env_ok ex_sizes(1-3), of "''localhost''" 3443 "''''"] unfolding c by blast
qed

lemma test3_reports_witness:
  "\<exists>s st' rows. run_all add_ok (map ex_request [1, 2, 3]) (server_init ex_rng) = Some s \<and>
     opof_test3_text ex_env ''localhost'' (of_nat 1010) (of_nat 4) 3443 '''' True (ex_tester s) =
       Some (SUCCESS, test3_report 1010 (rows @ replicate 9 no_session), st') \<and>
     map rsp_sessionId rows = map of_nat [0..<1001]"
proof -
  obtain s where s: "run_all add_ok (map ex_request [1, 2, 3]) (server_init ex_rng) = Some s"
    and h: "holds_ids (world (conn (ex_tester s))) [1, 2, 3]" "\<forall>k\<in>set [1, 2, 3 :: u64]. k < 2 ^ 31" by (rule ex_state)
  have m: "min 1010 (HASHTABLE_SIZE + 1) = 1001" "1010 - (HASHTABLE_SIZE + 1) = 9" by (simp_all add: HASHTABLE_SIZE_def)
  show ?thesis
    using s test3_reports [OF h ex_env_ok ex_sizes(1,2,4), of "''localhost''" 3443 "''''"] unfolding m by blast
qed

end
