(* ===== verification/Late_Calls.thy ===== *)
theory Late_Calls
  imports End_To_End
begin

text \<open>
  Calls that exceed their deadline. What the client is told is the status \<open>DEADLINE_EXCEEDED\<close> and
  nothing else; the server may have done nothing, a part or all of what was asked
  (\<open>include/opof.h\<close> says so of the status). Test 10 of \<open>src/opof_run_tests.c\<close> makes such a call again
  with a longer deadline (\<open>add_call_deadline\<close>, \<open>closed_call_deadline\<close>): for added sessions this comes to
  the same as one call that ends in time; for closed sessions, what the first call took from the server is lost.
  Either way the test comes to its end.
\<close>

subsection \<open>The connection\<close>

text \<open>The stub with the deadline of four seconds for the streaming calls.\<close>

definition in_time :: "'w stub \<Rightarrow> 'w stub" where
  "in_time stub = stub\<lparr>stub_addSession := (\<lambda>_. stub_addSession stub 4000),
     stub_getClosedSessions := (\<lambda>_. stub_getClosedSessions stub 4000)\<rparr>"

definition Status_deadline :: Status where
  "Status_deadline = \<lparr>error_code = DEADLINE_EXCEEDED, error_message = ''Deadline Exceeded''\<rparr>"

text \<open>
  A stub of a server that streams slowly: with a deadline of four seconds every call ends in time. With
  any deadline a streaming call either ends in time or is late. Then the handler for added sessions finds itself
  cancelled before some request, the first included, or has come to the end; the handler for closed sessions finds
  itself cancelled when it looks, at its beginning, or it has run and some of its messages have arrived.
\<close>

locale late_client = session_client +
  fixes late :: "'a stub \<Rightarrow> bool"
  assumes late_in_time: "late stub \<Longrightarrow> connected (in_time stub)"
    and late_add: "late stub \<Longrightarrow>
      (\<exists>rc. stub_addSession stub d ms s =
         reply default_addSessionResponse (addSession add_server (\<lambda>_. False) rc ms default_addSessionResponse s)) \<or>
      (\<exists>rc j. stub_addSession stub d ms s = do {
         (_, _, s) \<leftarrow> addSession add_server (\<lambda>i. j \<le> i) rc ms default_addSessionResponse s;
         Some (Status_deadline, default_addSessionResponse, s) })"
    and late_closed: "late stub \<Longrightarrow>
      (\<exists>uninit page. stub_getClosedSessions stub d q s = getClosedSessions closed_server False uninit page q s) \<or>
      (\<exists>cancelled uninit page j. stub_getClosedSessions stub d q s = do {
         (_, ms, s) \<leftarrow> getClosedSessions closed_server cancelled uninit page q s;
         Some (Status_deadline, take j ms, s) })"

subsection \<open>The calls\<close>

lemma add_session_in_time:
  "g_deadline c = 4000 \<Longrightarrow> opof_add_session n (h\<lparr>obj := in_time (obj h)\<rparr>) req resp c = opof_add_session n h req resp c"
  by (simp add: opof_add_session_def addSessionClient_def in_time_def opof_get_deadline_def)

lemma closed_sessions_in_time:
  "g_deadline c = 4000 \<Longrightarrow>
   opof_get_closed_sessions (args\<lparr>handle := (handle args)\<lparr>obj := in_time (obj (handle args))\<rparr>\<rparr>) responses c =
   opof_get_closed_sessions args responses c"
  by (simp add: opof_get_closed_sessions_def getClosedSessions_client_def in_time_def opof_get_deadline_def Let_def)

text \<open>\<open>opof_delete_all_sessions\<close> makes no streaming call.\<close>

lemma delete_page_same:
  assumes "del_call h = del_call h'"
  shows "delete_page env st h responses js status resp c = delete_page env st h' responses js status resp c"
  by (induction js arbitrary: status resp c) (simp_all add: assms split_def cong: option.case_cong)

lemma delete_all_loop_same:
  assumes "delete_all_loop env st g n r status resp c = Some y"
  shows "get_all_call g = get_all_call h \<and> del_call g = del_call h \<longrightarrow>
    delete_all_loop env st h n r status resp c = Some y"
proof (rule delete_all_loop.raw_induct [where P = "\<lambda>env st g n r status resp c y.
    get_all_call g = get_all_call h \<and> del_call g = del_call h \<longrightarrow>
    delete_all_loop env st h n r status resp c = Some y", OF _ assms], goal_cases)
  case H: (1 loop env st g n r status resp c y)
  show ?case
  proof
    assume eqs: "get_all_call g = get_all_call h \<and> del_call g = del_call h"
    obtain a k rs where r: "r = (a, k, rs)" by (cases r)
    show "delete_all_loop env st h n r status resp c = Some y"
    proof (cases "k = 0")
      case True
      then show ?thesis using H(2) r by (simp add: delete_all_loop.simps)
    next
      case False
      obtain s1 a1 k1 rs1 c1 s2 resp2 c2 where
          get: "with_retry env st (get_all_call g n) (a, k, rs) c = Some (s1, (a1, k1, rs1), c1)"
        and del: "delete_page env st g rs1 [0..<k1] s1 resp c1 = Some (s2, resp2, c2)"
        and rest: "loop env st g n (a1, k1, rs1) s2 resp2 c2 = Some y"
        using H(2) r False by (auto simp: bind_eq_Some_conv)
      have "delete_page env st h rs1 [0..<k1] s1 resp c1 = Some (s2, resp2, c2)"
        using del delete_page_same [of g h] eqs by metis
      then show ?thesis
        using H(1) [OF rest] get eqs r False by (subst delete_all_loop.simps) simp
    qed
  qed
qed

lemma delete_all_in_time:
  "opof_delete_all_sessions env (h\<lparr>obj := in_time (obj h)\<rparr>) n st = Some (SUCCESS, st') \<Longrightarrow>
   opof_delete_all_sessions env h n st = Some (SUCCESS, st')"
proof -
  have "get_all_call (h\<lparr>obj := in_time (obj h)\<rparr>) = get_all_call h" "del_call (h\<lparr>obj := in_time (obj h)\<rparr>) = del_call h"
    by (simp_all add: fun_eq_iff get_all_call_def del_call_def opof_get_all_sessions_def getAllSessions_client_def
      opof_del_session_def deleteSessionClient_def in_time_def)
  then have eqs: "get_all_call (h\<lparr>obj := in_time (obj h)\<rparr>) = get_all_call h \<and> del_call (h\<lparr>obj := in_time (obj h)\<rparr>) = del_call h"
    by blast
  show "opof_delete_all_sessions env (h\<lparr>obj := in_time (obj h)\<rparr>) n st = Some (SUCCESS, st') \<Longrightarrow>
   opof_delete_all_sessions env h n st = Some (SUCCESS, st')"
    by (auto simp: opof_delete_all_sessions_def bind_eq_Some_conv dest!: delete_all_loop_same [THEN mp, OF _ eqs])
qed

context session_client
begin

text \<open>The handler that is cancelled before request \<open>j\<close>, or at the end.\<close>

lemma addSession_until:
  assumes "inv s ids" and wf: "\<forall>m\<in>set ms. wf_message m"
  shows "\<exists>st m s'. addSession add_server (\<lambda>i. j \<le> i) rc ms response s = Some (st, m, s') \<and>
    inv s' (admit limit ids (map pb_sessionId (take j ms)))"
proof (cases "j < length ms")
  case True
  have split: "ms = take j ms @ ms ! j # drop (Suc j) ms" using True by (simp add: id_take_nth_drop)
  have "\<forall>m\<in>set (take j ms @ [ms ! j]). wf_message m" using wf True by (auto dest: in_set_takeD)
  from addSession_cancelled [OF assms(1) this, of "\<lambda>i. j \<le> i" rc "drop (Suc j) ms" response] True
  show ?thesis using split by auto
next
  case False
  then show ?thesis using addSession_all [OF assms, of "\<lambda>i. j \<le> i" rc response] by auto
qed

end

context late_client
begin

text \<open>One call to add sessions, in time or late.\<close>

lemma late_add_session:
  assumes inv: "inv (world c) ids" and h: "late (obj h)"
    and n: "n \<le> length req" "\<forall>r\<in>set (take n req). sendable r" and room: "n \<le> length (sessionErrors resp)"
  defines "ks \<equiv> map sessId (take n req)"
  shows "\<exists>j resp' w. j \<le> n \<and> inv w (admit limit ids (take j ks)) \<and> length (sessionErrors resp') = length (sessionErrors resp) \<and>
    (opof_add_session (int n) h req resp c = Some (4, resp', c\<lparr>world := w\<rparr>) \<or>
     j = n \<and> opof_add_session (int n) h req resp c = Some (0, resp', c\<lparr>world := w\<rparr>) \<and>
     number_errors resp' = of_nat (length (rejects limit ids ks)) \<and>
     take (length (rejects limit ids ks)) (sessionErrors resp') = client_errors (rejects limit ids ks))"
proof -
  have ok: "\<forall>i\<in>set [0..<n]. i < length req \<and> sendable (req ! i)"
    using n by (auto simp: all_set_conv_all_nth)
  obtain ms where ms: "write_requests req [0..<n] default_sessionRequest = Some ms" "\<forall>m\<in>set ms. wf_message m"
    "map pb_sessionId ms = map (\<lambda>i. sessId (req ! i)) [0..<n]"
    using write_requests_ok [OF ok] by blast
  have ids: "map pb_sessionId ms = ks"
    unfolding ks_def using ms(3) map_nth_take [OF n(1), of sessId] by simp
  have kl: "length ks = n" using n(1) by (simp add: ks_def)
  let ?R = "rejects limit ids ks"
  consider rc where "stub_addSession (obj h) (opof_get_deadline c) ms (world c) =
      reply default_addSessionResponse (addSession add_server (\<lambda>_. False) rc ms default_addSessionResponse (world c))"
    | rc j where "stub_addSession (obj h) (opof_get_deadline c) ms (world c) = do {
         (_, _, s) \<leftarrow> addSession add_server (\<lambda>i. j \<le> i) rc ms default_addSessionResponse (world c);
         Some (Status_deadline, default_addSessionResponse, s) }"
    using late_add [OF h] by metis
  then show ?thesis
  proof cases
    case 1
    let ?m = "default_addSessionResponse\<lparr>pb_responseError := ?R\<rparr>"
    obtain w where w: "addSession add_server (\<lambda>_. False) rc ms default_addSessionResponse (world c) = Some (Status_OK, ?m, w)"
      and inv': "inv w (admit limit ids ks)"
      using addSession_all [OF inv ms(2), of "\<lambda>_. False" rc default_addSessionResponse] unfolding ids by auto
    have "length ?R \<le> length (sessionErrors resp)" using rejects_length [of limit ids ks] kl room by simp
    then obtain resp' where resp': "convertAddSessionResponse2c resp ?m = Some resp'"
      "length (sessionErrors resp') = length (sessionErrors resp)"
      "number_errors resp' = of_nat (length ?R)" "take (length ?R) (sessionErrors resp') = client_errors ?R"
      using convert_errors_ok [of ?m resp] by (auto simp: client_errors_def)
    have "opof_add_session (int n) h req resp c = Some (0, resp', c\<lparr>world := w\<rparr>)"
      using ms(1) 1 w resp'(1)
      by (simp add: opof_add_session_def addSessionClient_def reply_def Status_OK_def)
    then show ?thesis using inv' resp'(2-4) kl by (intro exI [of _ n]) auto
  next
    case 2
    obtain st m w where w: "addSession add_server (\<lambda>i. j \<le> i) rc ms default_addSessionResponse (world c) = Some (st, m, w)"
      and inv': "inv w (admit limit ids (map pb_sessionId (take j ms)))"
      using addSession_until [OF inv ms(2)] by blast
    have "inv w (admit limit ids (take (min j n) ks))"
    proof -
      have "take (min j n) ks = take j ks" using kl by (simp add: min_def)
      moreover have "map pb_sessionId (take j ms) = take j ks" unfolding ids [symmetric] by (simp add: take_map)
      ultimately show ?thesis using inv' by simp
    qed
    moreover obtain resp' where resp': "convertAddSessionResponse2c resp default_addSessionResponse = Some resp'"
      "length (sessionErrors resp') = length (sessionErrors resp)"
      using convert_errors_ok [of default_addSessionResponse resp] by (auto simp: default_addSessionResponse_def)
    moreover have "opof_add_session (int n) h req resp c = Some (4, resp', c\<lparr>world := w\<rparr>)"
      using ms(1) 2 w resp'(1)
      by (simp add: opof_add_session_def addSessionClient_def Status_deadline_def)
    ultimately show ?thesis by (intro exI [of _ "min j n"]) auto
  qed
qed

text \<open>The call of test 10: the second call, with four seconds, ends in time.\<close>

lemma add_call_deadline_late:
  assumes inv: "inv (world c) ids" and h: "late (obj h)"
    and n: "n \<le> length req" "\<forall>r\<in>set (take n req). sendable r" and room: "n \<le> length (sessionErrors resp)"
  defines "ks \<equiv> map sessId (take n req)"
  shows "\<exists>j resp' c'. add_call_deadline h (int n) req resp c = Some (status_code OK, resp', c') \<and>
    inv (world c') (admit limit ids ks) \<and> length (sessionErrors resp') = length (sessionErrors resp) \<and>
    number_errors resp' = of_nat (length (rejects limit (admit limit ids (take j ks)) ks)) \<and>
    take (length (rejects limit (admit limit ids (take j ks)) ks)) (sessionErrors resp') =
      client_errors (rejects limit (admit limit ids (take j ks)) ks)"
proof -
  have kl: "length ks = n" using n(1) by (simp add: ks_def)
  obtain j r1 w1 where w1: "inv w1 (admit limit ids (take j ks))" and len: "length (sessionErrors r1) = length (sessionErrors resp)"
    and call: "opof_add_session (int n) h req resp c = Some (4, r1, c\<lparr>world := w1\<rparr>) \<or>
     j = n \<and> opof_add_session (int n) h req resp c = Some (0, r1, c\<lparr>world := w1\<rparr>) \<and>
     number_errors r1 = of_nat (length (rejects limit ids ks)) \<and>
     take (length (rejects limit ids ks)) (sessionErrors r1) = client_errors (rejects limit ids ks)"
    using late_add_session [OF inv h n room] unfolding ks_def by blast
  from call show ?thesis
  proof
    assume first: "opof_add_session (int n) h req resp c = Some (4, r1, c\<lparr>world := w1\<rparr>)"
    let ?c = "(c\<lparr>world := w1\<rparr>)\<lparr>g_deadline := 4000\<rparr>" and ?h = "h\<lparr>obj := in_time (obj h)\<rparr>"
    let ?ids = "admit limit ids (take j ks)"
    have inv1: "inv (world ?c) ?ids" using w1 by simp
    have "connected (obj ?h)" using late_in_time [OF h] by simp
    moreover have "length (rejects limit ?ids ks) \<le> length (sessionErrors r1)"
      using rejects_length [of limit ?ids ks] kl room len by simp
    ultimately obtain r2 w2 where "opof_add_session (int n) ?h req r1 ?c = Some (status_code OK, r2, ?c\<lparr>world := w2\<rparr>)"
      and res: "inv w2 (admit limit ?ids ks)" "length (sessionErrors r2) = length (sessionErrors resp)"
        "number_errors r2 = of_nat (length (rejects limit ?ids ks))"
        "take (length (rejects limit ?ids ks)) (sessionErrors r2) = client_errors (rejects limit ?ids ks)"
      using opof_add_session_ok [OF inv1 _ refl n, where resp = r1] unfolding ks_def [symmetric] len by blast
    then have "add_call_deadline h (int n) req resp c = Some (status_code OK, r2, ?c\<lparr>world := w2\<rparr>)"
      using first add_session_in_time [where h = h and c = ?c and n = "int n" and req = req and resp = r1]
      by (simp add: add_call_deadline_def opof_set_deadline_def Let_def)
    then show ?thesis using res admit_again [of limit ids j ks] by (intro exI [of _ j]) auto
  next
    assume "j = n \<and> opof_add_session (int n) h req resp c = Some (0, r1, c\<lparr>world := w1\<rparr>) \<and>
     number_errors r1 = of_nat (length (rejects limit ids ks)) \<and>
     take (length (rejects limit ids ks)) (sessionErrors r1) = client_errors (rejects limit ids ks)"
    then show ?thesis using w1 kl len by (intro exI [of _ 0]) (auto simp: add_call_deadline_def)
  qed
qed

text \<open>
  One call for closed sessions, in time or late: it has taken \<open>k\<close> sessions from the server, a page or, when the
  handler found itself cancelled, none; a message arrives only in the first case.
\<close>

lemma late_get_closed:
  assumes inv: "inv (world c) ids" and h: "late (obj (handle args))"
    and size: "0 < sint (str_pageSize args)" "sint (str_pageSize args) \<le> int BUFFER_MAX"
    and room: "sint (str_pageSize args) \<le> int (length responses)"
  defines "p \<equiv> nat (sint (str_pageSize args))"
  shows "\<exists>k\<in>{0, p}. \<exists>n st responses' w. opof_get_closed_sessions args responses c = Some (st, n, responses', c\<lparr>world := w\<rparr>) \<and>
    inv w (drop k ids) \<and> length responses' = length responses \<and> (0 < n \<longrightarrow> k = p) \<and>
    (st = 4 \<or> k = p \<and> st = status_code (if ids = [] then NOT_FOUND else OK) \<and> n = length (take p ids))"
proof -
  let ?q = "default_sessionRequestArgs\<lparr>pb_pageSize := str_pageSize args\<rparr>"
  have run: "\<exists>st ms w. getClosedSessions closed_server False u pg ?q (world c) = Some (st, ms, w) \<and>
      error_code st = (if ids = [] then NOT_FOUND else OK) \<and> length ms = length (take p ids) \<and> inv w (drop p ids)" for u pg
    using getClosedSessions_eager [OF inv, of ?q u pg] size by (auto simp: p_def dest: arg_cong [of _ _ length])
  obtain k st ms w where r: "stub_getClosedSessions (obj (handle args)) (opof_get_deadline c) ?q (world c) = Some (st, ms, w)"
    and k: "k \<in> {0, p}" "ms \<noteq> [] \<longrightarrow> k = p" and inv': "inv w (drop k ids)" and len: "length ms \<le> length (take p ids)"
    and st: "st = Status_deadline \<or>
      k = p \<and> error_code st = (if ids = [] then NOT_FOUND else OK) \<and> length ms = length (take p ids)"
    using late_closed [OF h, of "opof_get_deadline c" ?q "world c"]
  proof
    assume "\<exists>u pg. stub_getClosedSessions (obj (handle args)) (opof_get_deadline c) ?q (world c) =
      getClosedSessions closed_server False u pg ?q (world c)"
    then obtain u pg where "stub_getClosedSessions (obj (handle args)) (opof_get_deadline c) ?q (world c) =
      getClosedSessions closed_server False u pg ?q (world c)" by blast
    then show ?thesis using run [of u pg] that [of _ _ _ p] by auto
  next
    assume "\<exists>cancelled u pg j. stub_getClosedSessions (obj (handle args)) (opof_get_deadline c) ?q (world c) = do {
         (_, ms, s) \<leftarrow> getClosedSessions closed_server cancelled u pg ?q (world c);
         Some (Status_deadline, take j ms, s) }"
    then obtain cancelled u pg j where call: "stub_getClosedSessions (obj (handle args)) (opof_get_deadline c) ?q (world c) = do {
         (_, ms, s) \<leftarrow> getClosedSessions closed_server cancelled u pg ?q (world c);
         Some (Status_deadline, take j ms, s) }" by blast
    show ?thesis
    proof (cases cancelled)
      case True
      then show ?thesis using call inv that [of Status_deadline "[]" "world c" 0] by (simp add: getClosedSessions_def)
    next
      case False
      then show ?thesis using call run [of u pg] that [of _ _ _ p] by (auto simp: min_le_iff_disj)
    qed
  qed
  have "length (take p ids) \<le> p" by simp
  then have "0 + length ms \<le> length responses" using len room unfolding p_def by linarith
  from read_closed_ok [OF this] obtain r1 where "read_closed ms 0 responses = Some (length ms, r1)"
    and r1: "length r1 = length responses" by auto
  then have "opof_get_closed_sessions args responses c = Some (status_code (error_code st), length ms, r1, c\<lparr>world := w\<rparr>)"
    using r by (simp add: opof_get_closed_sessions_def getClosedSessions_client_def Let_def)
  moreover have "status_code (error_code st) = 4 \<or> k = p \<and>
      status_code (error_code st) = status_code (if ids = [] then NOT_FOUND else OK) \<and> length ms = length (take p ids)"
    using st by (auto simp: Status_deadline_def)
  ultimately show ?thesis using k(2) inv' r1
    by (intro bexI [OF _ k(1)] exI [of _ "length ms"] exI [of _ "status_code (error_code st)"] exI [of _ r1] exI [of _ w])
      (auto simp del: status_code.simps)
qed

text \<open>
  The call of test 10 for closed sessions: what a first call that was late has taken, a page or nothing, is lost.
\<close>

lemma closed_call_deadline_late:
  assumes inv: "inv (world c) ids" and h: "late (obj (handle args))"
    and size: "0 < sint (str_pageSize args)" "sint (str_pageSize args) \<le> int BUFFER_MAX"
    and room: "sint (str_pageSize args) \<le> int (length responses)"
    and first: "opof_get_closed_sessions args responses c = Some (4, n1, responses1, c1)"
  defines "p \<equiv> nat (sint (str_pageSize args))"
  shows "\<exists>k\<in>{0, p}. inv (world c1) (drop k ids) \<and> (0 < n1 \<longrightarrow> k = p) \<and>
    (\<exists>st responses' c'. closed_call_deadline args responses c =
        Some (st, length (take p (drop k ids)), responses', c') \<and> length responses' = length responses \<and>
      first_ids (length (take p (drop k ids))) responses' = take p (drop k ids) \<and> inv (world c') (drop (k + p) ids))"
proof -
  obtain k w where k: "k \<in> {0, p}" "0 < n1 \<longrightarrow> k = p"
    and c1: "c1 = c\<lparr>world := w\<rparr>" "inv w (drop k ids)" "length responses1 = length responses"
    using late_get_closed [OF inv h size room] first unfolding p_def by fastforce
  let ?c = "c1\<lparr>g_deadline := 4000\<rparr>"
  let ?args = "args\<lparr>handle := (handle args)\<lparr>obj := in_time (obj (handle args))\<rparr>\<rparr>"
  have inv1: "inv (world ?c) (drop k ids)" using c1 by simp
  have conn: "connected (obj (handle ?args))" using late_in_time [OF h] by simp
  obtain r2 w2 where "opof_get_closed_sessions ?args responses1 ?c =
      Some (status_code (if drop k ids = [] then NOT_FOUND else OK), length (take p (drop k ids)), r2, ?c\<lparr>world := w2\<rparr>)"
    "first_ids (length (take p (drop k ids))) r2 = take p (drop k ids)" "inv w2 (drop p (drop k ids))"
    "length r2 = length responses"
    using opof_get_closed_sessions_ok [OF inv1 conn, of responses1] size room c1(3) unfolding p_def by auto
  then have "\<exists>st responses' c'. closed_call_deadline args responses c =
        Some (st, length (take p (drop k ids)), responses', c') \<and> length responses' = length responses \<and>
      first_ids (length (take p (drop k ids))) responses' = take p (drop k ids) \<and> inv (world c') (drop (k + p) ids)"
    using first closed_sessions_in_time [where args = args and c = ?c and responses = responses1]
    by (intro exI [of _ "status_code (if drop k ids = [] then NOT_FOUND else OK)"] exI [of _ r2] exI [of _ "?c\<lparr>world := w2\<rparr>"])
      (simp add: closed_call_deadline_def opof_set_deadline_def Let_def add.commute del: status_code.simps)
  then show ?thesis using k(2) c1 by (intro bexI [OF _ k(1)]) simp
qed

text \<open>So each round of the loop of test 10 takes sessions from the server as long as there are some.\<close>

lemma closed_call_deadline_page:
  assumes inv: "inv (world c) ids" and h: "late (obj (handle args))"
    and p: "str_pageSize args = of_nat p" "0 < p" "p \<le> BUFFER_MAX" and room: "length responses = BUFFER_MAX"
  shows "\<exists>st n responses' c' ids'. closed_call_deadline args responses c = Some (st, n, responses', c') \<and>
    inv (world c') ids' \<and> length responses' = BUFFER_MAX \<and> (if n = 0 then ids' = [] else length ids' < length ids)"
proof -
  have sp: "sint (str_pageSize args) = int p" using p by (simp add: BUFFER_MAX_def)
  have size: "0 < sint (str_pageSize args)" "sint (str_pageSize args) \<le> int BUFFER_MAX"
    and r: "sint (str_pageSize args) \<le> int (length responses)" using p room unfolding sp by simp_all
  obtain k n st r1 w where first: "opof_get_closed_sessions args responses c = Some (st, n, r1, c\<lparr>world := w\<rparr>)"
    and w: "inv w (drop k ids)" "length r1 = BUFFER_MAX"
    and st: "st = 4 \<or> k = p \<and> st = status_code (if ids = [] then NOT_FOUND else OK) \<and> n = length (take p ids)"
    using late_get_closed [OF inv h size r] unfolding sp room nat_int by blast
  show ?thesis
  proof (cases "st = 4")
    case True
    have n: "if length (take p (drop k ids)) = 0 then drop (k + p) ids = [] else length (drop (k + p) ids) < length ids" for k
      using p(2) by auto
    show ?thesis
      using closed_call_deadline_late [OF inv h size r first [unfolded True]] n unfolding sp room nat_int by blast
  next
    case False
    then have "closed_call_deadline args responses c = Some (st, n, r1, c\<lparr>world := w\<rparr>)"
      using first by (simp add: closed_call_deadline_def)
    then show ?thesis using w st False p(2) by (intro exI [of _ st] exI [of _ n] exI [of _ r1]) auto
  qed
qed

subsection \<open>Test 10\<close>

lemma add_batch_deadline:
  assumes "inv (world c) ids" and h: "late (obj h)" and mk: "makes_requests mk"
    and n: "n \<le> BUFFER_MAX" and room: "length (sessionErrors addResp) = BUFFER_MAX"
  shows "\<exists>rs addResp' c'. mk (of_nat n) (of_nat b) = Some rs \<and>
    add_call_deadline h (int n) rs addResp c = Some (status_code OK, addResp', c') \<and>
    inv (world c') (admit limit ids (ids_from b (b + n))) \<and> length (sessionErrors addResp') = BUFFER_MAX"
proof -
  have "n < 2 ^ 31" using n by (simp add: BUFFER_MAX_def)
  then obtain rs where rs: "mk (of_nat n) (of_nat b) = Some rs" "length rs = n"
    "map sessId rs = ids_from b (b + n)" "\<forall>r\<in>set rs. sendable r"
    using mk unfolding makes_requests_def shifted_ids [symmetric] by blast
  then show ?thesis
    using add_call_deadline_late [OF assms(1) h, of n rs addResp] n room by auto
qed

text \<open>Test 10 ends with \<open>SUCCESS\<close>, whichever of its calls are late.\<close>

lemma test10_late:
  assumes inv: "inv (world (conn st)) ids" and sm: "small ids"
    and env: "\<forall>address cert. late (new_client env address cert)" "length (sessionErrors (uninit_add env)) = BUFFER_MAX"
    and p: "0 < p" "p \<le> BUFFER_MAX" and M: "M < 2 ^ 31"
  shows "\<exists>st'. opof_test10 env a (of_nat M) (of_nat p) port cert st = Some (SUCCESS, st') \<and> inv (world (conn st')) []"
proof -
  let ?h = "opof_create_sessionTable (new_client env) (ssl env) a (ucast port) cert"
  let ?args = "\<lparr>handle = ?h, str_pageSize = of_nat p\<rparr>"
  let ?Q = "\<lambda>c. inv (world c)" and ?failed = "\<lambda>status. status \<noteq> status_code OK"
  have h: "late (obj ?h)" using env(1) by (simp add: opof_create_sessionTable_def Let_def)
  then have ha: "late (obj (handle ?args))" by simp
  have conn: "connected (obj (?h\<lparr>obj := in_time (obj ?h)\<rparr>))" using late_in_time [OF h] by simp
  obtain w where "opof_delete_all_sessions env (?h\<lparr>obj := in_time (obj ?h)\<rparr>) (sint (of_nat p :: u32)) st =
      Some (SUCCESS, st\<lparr>conn := (conn st)\<lparr>world := w\<rparr>\<rparr>)" and w: "inv w []"
    using opof_delete_all_sessions_ok [OF inv conn sm] by blast
  note deleted = delete_all_in_time [OF this(1)]
  let ?c = "snd (opof_set_deadline 1 ((conn st)\<lparr>world := w\<rparr>))"
  have Q: "?Q ?c []" using w by (simp add: opof_set_deadline_def Let_def)
  have batch: "\<exists>rs addResp' c'. createSessionRequest (uninit_request env) (of_nat n) (of_nat b) = Some rs \<and>
      add_call_deadline ?h (int n) rs addResp c = Some (status_code OK, addResp', c') \<and>
      ?Q c' (admit limit ids (ids_from b (b + n))) \<and> length (sessionErrors addResp') = BUFFER_MAX"
    if "?Q c ids" "n \<le> BUFFER_MAX" "length (sessionErrors addResp) = BUFFER_MAX" for c ids n b addResp
    by (rule add_batch_deadline [OF that(1) h makes_createSessionRequest that(2,3)])
  have M': "0 + M < 2 ^ 31" and f: "\<not> ?failed (status_code OK)" using M by simp_all
  obtain r c1 ids1 where add: "add_loop (createSessionRequest (uninit_request env)) ?failed (add_call_deadline ?h)
      (of_nat p) (of_nat M) (of_nat 0) (uninit_add env) ?c = Some (False, r, c1)" and Q1: "?Q c1 ids1"
    using add_loop_batches [where Q = ?Q and c = ?c and ids = "[]" and failed = ?failed
        and add = "add_call_deadline ?h" and mk = "createSessionRequest (uninit_request env)" and limit = limit, OF Q p M' env(2) f batch]
    by fast
  let ?c1 = "snd (opof_set_deadline 1 c1)"
  have Q1: "?Q ?c1 ids1" using Q1 by (simp add: opof_set_deadline_def Let_def)
  have page: "\<exists>st n responses' c' ids'. closed_call_deadline ?args responses c = Some (st, n, responses', c') \<and> ?Q c' ids' \<and>
      length responses' = BUFFER_MAX \<and> (if n = 0 then ids' = [] else length ids' < length ids \<and> \<not> (\<lambda>_. False) st)"
    if Q: "?Q c ids" "length responses = BUFFER_MAX" for c ids responses
    unfolding not_False_eq_True simp_thms by (rule closed_call_deadline_page [OF Q(1) ha _ p Q(2)]) simp
  have "\<exists>c2. closed_until_none (\<lambda>_. False) (closed_call_deadline ?args) 1 (responses_init env) ?c1 = Some (False, c2) \<and> ?Q c2 []"
    by (rule closed_loop_pages [where Q = ?Q and c = ?c1 and ids = ids1 and failed = "\<lambda>_. False"])
      (use Q1 page in simp_all)
  then show ?thesis using deleted add by (auto simp add: opof_test10_def Let_def del: status_code.simps One_nat_def)
qed

end

subsection \<open>The test server\<close>

definition slow :: "server stub \<Rightarrow> bool" where
  "slow stub \<longleftrightarrow> served (in_time stub) \<and>
     (\<forall>d ms s.
       (\<exists>rc. stub_addSession stub d ms s = reply default_addSessionResponse
          (addSession opof_add_session_server (\<lambda>_. False) rc ms default_addSessionResponse s)) \<or>
       (\<exists>rc j. stub_addSession stub d ms s = do {
          (_, _, s) \<leftarrow> addSession opof_add_session_server (\<lambda>i. j \<le> i) rc ms default_addSessionResponse s;
          Some (Status_deadline, default_addSessionResponse, s) })) \<and>
     (\<forall>d q s.
       (\<exists>uninit page. stub_getClosedSessions stub d q s =
          getClosedSessions opof_get_closed_sessions_server False uninit page q s) \<or>
       (\<exists>cancelled uninit page j. stub_getClosedSessions stub d q s = do {
          (_, ms, s) \<leftarrow> getClosedSessions opof_get_closed_sessions_server cancelled uninit page q s;
          Some (Status_deadline, take j ms, s) }))"

interpretation slow_lib: late_client holds_ids holds_at HASHTABLE_SIZE
  opof_add_session_server opof_get_session_server opof_del_session_server
  opof_get_closed_sessions_server opof_get_all_sessions_server served slow
  by unfold_locales (simp_all add: slow_def)

text \<open>
  C16: Repeating a call that exceeded its deadline, as test 10 does, leaves on the server
  exactly the sessions that one call in time would have left, each once, however many of the requests
  the first call had got to; the sessions it had got to are reported as refused the second time.
\<close>

theorem add_after_deadline:
  assumes "holds_ids (world c) ids" and "slow (obj h)" and "n \<le> length req"
    and "\<forall>r\<in>set (take n req). ipver r = ipver_code IPV6 \<longrightarrow> wf_sessionRequest_t r" and "n \<le> length (sessionErrors resp)"
  defines "ks \<equiv> map sessId (take n req)"
  shows "\<exists>j resp' c'. add_call_deadline h (int n) req resp c = Some (status_code OK, resp', c') \<and>
    holds_ids (world c') (admit HASHTABLE_SIZE ids ks) \<and>
    (let refused = rejects HASHTABLE_SIZE (admit HASHTABLE_SIZE ids (take j ks)) ks
     in number_errors resp' = of_nat (length refused) \<and>
        take (length refused) (sessionErrors resp') = client_errors refused \<and>
        take j (map pbe_sessionId refused) = take j ks)"
proof -
  have s: "\<forall>r\<in>set (take n req). sendable r" using assms(4) by (simp add: sendable_def)
  have "take j (map pbe_sessionId (rejects HASHTABLE_SIZE (admit HASHTABLE_SIZE ids (take j ks)) ks)) = take j ks" for j
  proof (cases "j \<le> length ks")
    case True
    then show ?thesis using admit_again [of HASHTABLE_SIZE ids j ks] by simp
  next
    case False
    then show ?thesis using admit_again [of HASHTABLE_SIZE ids j ks] by simp
  qed
  then show ?thesis
    using slow_lib.add_call_deadline_late [OF assms(1-3) s assms(5)] unfolding ks_def Let_def by metis
qed

text \<open>
  C17: When a call for closed sessions exceeds its deadline, the sessions that it took from
  the server are lost: the whole page, if its handler ran, as it did when a message arrived, or none, if the handler
  found itself cancelled. The repeated call returns the page after them, and the server has forgotten both.
\<close>

theorem closed_after_deadline:
  assumes "holds_ids (world c) ids" and "slow (obj (handle args))"
    and "0 < p" "p \<le> BUFFER_MAX" and "str_pageSize args = of_nat p" and "p \<le> length responses"
    and "opof_get_closed_sessions args responses c = Some (status_code DEADLINE_EXCEEDED, n1, responses1, c1)"
  shows "\<exists>k\<in>{0, p}. holds_ids (world c1) (drop k ids) \<and> (0 < n1 \<longrightarrow> k = p) \<and>
    (\<exists>status n responses' c'. closed_call_deadline args responses c = Some (status, n, responses', c') \<and>
      map rsp_sessionId (take n responses') = take p (drop k ids) \<and> holds_ids (world c') (drop (k + p) ids))"
proof -
  have p: "sint (str_pageSize args) = int p"
    using assms(4,5) by (simp add: BUFFER_MAX_def signed_of_nat signed_take_bit_int_eq_self)
  have size: "0 < sint (str_pageSize args)" "sint (str_pageSize args) \<le> int BUFFER_MAX" "sint (str_pageSize args) \<le> int (length responses)"
    and first: "opof_get_closed_sessions args responses c = Some (4, n1, responses1, c1)"
    using assms(3,4,6,7) unfolding p by simp_all
  show ?thesis
    using slow_lib.closed_call_deadline_late [OF assms(1,2) size first] unfolding p nat_int first_ids_def by blast
qed

text \<open>
  C18: Test 10 ends, with \<open>SUCCESS\<close>, against a server that streams too slowly for the
  deadline of one millisecond which the test sets, whichever of its calls are late and however much the
  server has done by then, and leaves the server empty.
\<close>

theorem test10_slow_server:
  assumes "holds_ids (world (conn st)) ids" and "\<forall>k\<in>set ids. k < 2 ^ 31"
    and "\<forall>address cert. slow (new_client env address cert)" and "length (sessionErrors (uninit_add env)) = BUFFER_MAX"
    and "0 < p" and "p \<le> BUFFER_MAX" and "M < 2 ^ 31"
  shows "\<exists>st'. opof_test10 env address (of_nat M) (of_nat p) port cert st = Some (SUCCESS, st') \<and>
    holds_ids (world (conn st')) []"
  using slow_lib.test10_late [OF assms(1) _ assms(3-7)] assms(2) by (simp add: small_def)

text \<open>A server that gets to one request only in less than four seconds, or sends one session.\<close>

definition slow_process :: "server stub" where
  "slow_process = in_process\<lparr>
     stub_addSession := (\<lambda>d ms s. if d < 4000
       then do {
         (_, _, s) \<leftarrow> addSession opof_add_session_server (\<lambda>i. 1 \<le> i) (ex_request 0) ms default_addSessionResponse s;
         Some (Status_deadline, default_addSessionResponse, s) }
       else stub_addSession in_process d ms s),
     stub_getClosedSessions := (\<lambda>d q s. if d < 4000
       then do {
         (_, ms, s) \<leftarrow> getClosedSessions opof_get_closed_sessions_server False (\<lambda>_. ex_rsp) 0 q s;
         Some (Status_deadline, take 1 ms, s) }
       else stub_getClosedSessions in_process d q s)\<rparr>"

lemma slow_slow_process: "slow slow_process"
proof -
  have "served (in_time slow_process)"
    unfolding served_def in_time_def slow_process_def by (auto simp: in_process_def)
  moreover have "(\<exists>rc. stub_addSession slow_process d ms s = reply default_addSessionResponse
          (addSession opof_add_session_server (\<lambda>_. False) rc ms default_addSessionResponse s)) \<or>
       (\<exists>rc j. stub_addSession slow_process d ms s = do {
          (_, _, s) \<leftarrow> addSession opof_add_session_server (\<lambda>i. j \<le> i) rc ms default_addSessionResponse s;
          Some (Status_deadline, default_addSessionResponse, s) })" for d ms s
    by (cases "d < 4000") (auto simp: slow_process_def in_process_def)
  moreover have "(\<exists>uninit page. stub_getClosedSessions slow_process d q s =
          getClosedSessions opof_get_closed_sessions_server False uninit page q s) \<or>
       (\<exists>cancelled uninit page j. stub_getClosedSessions slow_process d q s = do {
          (_, ms, s) \<leftarrow> getClosedSessions opof_get_closed_sessions_server cancelled uninit page q s;
          Some (Status_deadline, take j ms, s) })" for d q s
  proof (cases "d < 4000")
    case True
    then show ?thesis
      by (intro disjI2 exI [of _ False] exI [of _ "\<lambda>_. ex_rsp"] exI [of _ 0] exI [of _ 1]) (simp add: slow_process_def)
  next
    case False
    then show ?thesis
      by (intro disjI1 exI [of _ "\<lambda>_. ex_rsp"] exI [of _ 0]) (simp add: slow_process_def in_process_def)
  qed
  ultimately show ?thesis unfolding slow_def by blast
qed

definition ex_slow :: "server sessionTable_t" where
  "ex_slow = \<lparr>obj = slow_process\<rparr>"

lemma ex_slow_slow [simp]: "slow (obj ex_slow)"
  by (simp add: ex_slow_def slow_slow_process)

text \<open>Two sessions are added by two calls; the first call gets to the first of them.\<close>

lemma add_after_deadline_witness:
  "\<exists>s resp' c'. run_all add_ok (map ex_request [1, 2, 3]) (server_init ex_rng) = Some s \<and>
     add_call_deadline ex_slow 2 [ex_request 4, ex_request 5] ex_add_response (ex_client s) = Some (status_code OK, resp', c') \<and>
     holds_ids (world c') [1, 2, 3, 4, 5]"
proof -
  obtain s where s: "run_all add_ok (map ex_request [1, 2, 3]) (server_init ex_rng) = Some s"
    and h: "holds_ids s [1, 2, 3]" by (rule ex_holds)
  have h': "holds_ids (world (ex_client s)) [1, 2, 3]" using h by simp
  have n: "2 \<le> length [ex_request 4, ex_request 5]" "2 \<le> length (sessionErrors ex_add_response)"
    and v: "\<forall>r\<in>set (take 2 [ex_request 4, ex_request 5]). ipver r = ipver_code IPV6 \<longrightarrow> wf_sessionRequest_t r"
    by (simp_all add: ex_request_def wf_sessionRequest_t_def)
  have a: "admit HASHTABLE_SIZE [1, 2, 3] (map sessId (take 2 [ex_request 4, ex_request 5])) = [1, 2, 3, 4, 5]"
    by (simp add: admit_status_def HASHTABLE_SIZE_def)
  show ?thesis using s add_after_deadline [OF h' ex_slow_slow n(1) v n(2)] unfolding a by auto
qed

text \<open>Of three sessions, with pages of one, the first is lost and the second is returned.\<close>

lemma closed_after_deadline_witness:
  "\<exists>s status n responses' c'. run_all add_ok (map ex_request [1, 2, 3]) (server_init ex_rng) = Some s \<and>
     closed_call_deadline \<lparr>handle = ex_slow, str_pageSize = 1\<rparr> [ex_rsp] (ex_client s) = Some (status, n, responses', c') \<and>
     map rsp_sessionId (take n responses') = [2] \<and> holds_ids (world c') [3]"
proof -
  obtain s where s: "run_all add_ok (map ex_request [1, 2, 3]) (server_init ex_rng) = Some s"
    and h: "holds_ids s [1, 2, 3]" by (rule ex_holds)
  have h': "holds_ids (world (ex_client s)) [1, 2, 3]" using h by simp
  let ?args = "\<lparr>handle = ex_slow, str_pageSize = 1\<rparr>" and ?q = "default_sessionRequestArgs\<lparr>pb_pageSize := 1\<rparr>"
  have size: "0 < sint (pb_pageSize ?q)" "sint (pb_pageSize ?q) \<le> int BUFFER_MAX" by (simp_all add: BUFFER_MAX_def)
  obtain st ms w where r: "getClosedSessions opof_get_closed_sessions_server False (\<lambda>_. ex_rsp) 0 ?q s = Some (st, ms, w)"
    "map pbr_sessionId ms = [1]"
    using store.getClosedSessions_eager [OF h size, of "\<lambda>_. ex_rsp" 0] by auto
  obtain m where ms: "ms = [m]" using r(2) by (cases ms) auto
  have first: "opof_get_closed_sessions ?args [ex_rsp] (ex_client s) =
      Some (status_code DEADLINE_EXCEEDED, 1, [convertSessionResponse2c m ex_rsp], (ex_client s)\<lparr>world := w\<rparr>)"
    using r(1)
    by (simp add: opof_get_closed_sessions_def getClosedSessions_client_def ex_slow_def slow_process_def ms
      opof_get_deadline_def ex_client_def initial_deadline_def Status_deadline_def)
  have o: "slow (obj (handle ?args))" "str_pageSize ?args = of_nat 1" by simp_all
  show ?thesis
    using s closed_after_deadline [OF h' o(1) _ _ o(2) _ first] by (auto simp: BUFFER_MAX_def)
qed

text \<open>Ten sessions in pages of four, against a server that holds three and is late with every first call.\<close>

lemma test10_slow_server_witness:
  "\<exists>s st'. run_all add_ok (map ex_request [1, 2, 3]) (server_init ex_rng) = Some s \<and>
     opof_test10 (ex_env\<lparr>new_client := \<lambda>_ _. slow_process\<rparr>) ''localhost'' (of_nat 10) (of_nat 4) 3443 '''' (ex_tester s) =
       Some (SUCCESS, st') \<and> holds_ids (world (conn st')) []"
proof -
  obtain s where s: "run_all add_ok (map ex_request [1, 2, 3]) (server_init ex_rng) = Some s"
    and h: "holds_ids s [1, 2, 3]" by (rule ex_holds)
  let ?env = "ex_env\<lparr>new_client := \<lambda>_ _. slow_process\<rparr>"
  have h': "holds_ids (world (conn (ex_tester s))) [1, 2, 3]" using h by simp
  have k: "\<forall>k\<in>set [1, 2, 3 :: u64]. k < 2 ^ 31" by simp
  have e: "\<forall>address cert. slow (new_client ?env address cert)" "length (sessionErrors (uninit_add ?env)) = BUFFER_MAX"
    by (simp_all add: slow_slow_process)
  have n: "0 < (4::nat)" "4 \<le> BUFFER_MAX" "(10::nat) < 2 ^ 31" by (simp_all add: BUFFER_MAX_def)
  show ?thesis using s test10_slow_server [OF h' k e n, of "''localhost''" 3443 "''''"] by blast
qed

end
