(* ===== verification/Restart.thy ===== *)
theory Restart
  imports End_To_End
begin

text \<open>
  Test 9 of \<open>src/opof_run_tests.c\<close>: the server process is killed, calls fail with \<open>UNAVAILABLE\<close>, the
  test gives the command that starts the server before every further try, and the server is reachable
  again some tries later. What the new server has sent since its start is recorded, to tell which sessions the
  test adds and takes back. (Followed is the process that runs the test, not the children it forks, which wait
  for the server to end.) The test succeeds exactly when that happens within the configured number of
  tries, or when it has no session to add: then it reports success although there is no server.
\<close>

subsection \<open>A client whose server can be away\<close>

definition Status_unavailable :: Status where
  "Status_unavailable = \<lparr>error_code = UNAVAILABLE, error_message = ''failed to connect to all addresses''\<rparr>"

text \<open>
  \<open>down w n\<close>: no server can be reached, and one can after the command that starts it has been given
  \<open>n + 1\<close> times; it holds no sessions. \<open>taken w\<close> is a history: the ids of the closed sessions that the server has
  sent since it was started.
\<close>

locale restart_client = session_client +
  fixes down :: "'a \<Rightarrow> nat \<Rightarrow> bool"
    and boot :: "'a \<Rightarrow> 'a"
    and taken :: "'a \<Rightarrow> u64 list"
  assumes down_add: "connected stub \<Longrightarrow> down w n \<Longrightarrow>
      stub_addSession stub d ms w = Some (Status_unavailable, default_addSessionResponse, w)"
    and down_closed: "connected stub \<Longrightarrow> down w n \<Longrightarrow>
      stub_getClosedSessions stub d q w = Some (Status_unavailable, [], w)"
    and boot_later: "down w (Suc n) \<Longrightarrow> down (boot w) n"
    and boot_now: "down w 0 \<Longrightarrow> inv (boot w) [] \<and> taken (boot w) = []"
    and add_taken: "connected stub \<Longrightarrow> stub_addSession stub d ms w = Some (st, m, w') \<Longrightarrow> taken w' = taken w"
    and closed_taken: "connected stub \<Longrightarrow> stub_getClosedSessions stub d q w = Some (st, rs, w') \<Longrightarrow>
      inv w ids \<Longrightarrow> taken w' = taken w @ map pbr_sessionId rs"
begin

lemma add_unavailable:
  assumes "connected (obj h)" and "down (world c) n" and "\<forall>r\<in>set rs. sendable r"
  shows "\<exists>a'. opof_add_session (int (length rs)) h rs a c = Some (status_code UNAVAILABLE, a', c) \<and>
    length (sessionErrors a') = length (sessionErrors a)"
proof -
  have "\<forall>i\<in>set [0..<length rs]. i < length rs \<and> sendable (rs ! i)" using assms(3) by simp
  from write_requests_ok [OF this, of default_sessionRequest]
  obtain ms where ms: "write_requests rs [0..<length rs] default_sessionRequest = Some ms" by blast
  obtain a' where "convertAddSessionResponse2c a default_addSessionResponse = Some a'"
    "length (sessionErrors a') = length (sessionErrors a)"
    using convert_errors_ok [of default_addSessionResponse a] by (auto simp: default_addSessionResponse_def)
  then show ?thesis
    using ms down_add [OF assms(1,2)] by (auto simp: opof_add_session_def addSessionClient_def Status_unavailable_def)
qed

text \<open>The history over the calls of the client library.\<close>

lemma add_session_taken:
  "opof_add_session n h rs a c = Some (st, a', c') \<Longrightarrow> connected (obj h) \<Longrightarrow> taken (world c') = taken (world c)"
  by (auto simp: opof_add_session_def addSessionClient_def bind_eq_Some_conv dest: add_taken)

lemma closed_sessions_taken:
  assumes "opof_get_closed_sessions args responses c = Some (st, n, responses', c')" and "connected (obj (handle args))"
    and "inv (world c) ids"
  shows "taken (world c') = taken (world c) @ first_ids n responses'"
proof -
  let ?q = "default_sessionRequestArgs\<lparr>pb_pageSize := str_pageSize args\<rparr>"
  obtain st1 ms w where call: "stub_getClosedSessions (obj (handle args)) (opof_get_deadline c) ?q (world c) = Some (st1, ms, w)"
    and r: "read_closed ms 0 responses = Some (n, responses')" and c': "c' = c\<lparr>world := w\<rparr>"
    using assms(1) by (auto simp: opof_get_closed_sessions_def getClosedSessions_client_def bind_eq_Some_conv Let_def)
  have "length ms \<le> length responses"
    using read_closed_overrun [of 0 responses ms] r by (cases "length ms \<le> length responses") simp_all
  then have "first_ids n responses' = map pbr_sessionId ms"
    using read_closed_ok [of 0 ms responses] r by (auto simp: first_ids_def)
  then show ?thesis using closed_taken [OF assms(2) call assms(3)] c' by simp
qed

text \<open>A batch of a test: the requests for the sessions \<open>b\<close> up to \<open>b + n\<close>.\<close>

lemma add_batch_of:
  assumes "inv (world c) ids" and "connected (obj h)" and mk: "makes_requests mk" and "mk (of_nat n) (of_nat b) = Some rs"
    and "n \<le> BUFFER_MAX" and "length (sessionErrors a) = BUFFER_MAX"
  shows "\<exists>a' w. opof_add_session (int n) h rs a c = Some (status_code OK, a', c\<lparr>world := w\<rparr>) \<and>
    inv w (admit limit ids (ids_from b (b + n))) \<and> taken w = taken (world c) \<and> length (sessionErrors a') = BUFFER_MAX"
  using add_batch [OF assms(1-3,5,6), of b] assms(2,4) by (fastforce dest: add_session_taken)

text \<open>The tries after the first one, each after the command that starts the server.\<close>

lemma tries_until_up:
  assumes h: "connected (obj h)" and mk: "makes_requests mk" and rs: "mk (of_nat m) (of_nat b) = Some rs" and m: "m \<le> BUFFER_MAX"
    and "down (world c) k" and "length (sessionErrors a) = BUFFER_MAX"
  shows "\<exists>a' w. retry_loop n (\<lambda>c. c\<lparr>world := boot (world c)\<rparr>) (opof_add_session (int m) h rs) (status_code UNAVAILABLE) a c =
      Some (status_code (if k < n then OK else UNAVAILABLE), a', c\<lparr>world := w\<rparr>) \<and>
    (if k < n then inv w (admit limit [] (ids_from b (b + m))) \<and> taken w = [] else down w (k - n)) \<and>
    length (sessionErrors a') = BUFFER_MAX"
  using assms(5,6)
proof (induction n arbitrary: k c a)
  case 0
  then show ?case by (auto intro!: exI [of _ "world c"])
next
  case (Suc n)
  let ?c = "c\<lparr>world := boot (world c)\<rparr>"
  show ?case
  proof (cases k)
    case 0
    have up: "inv (world ?c) []" "taken (world ?c) = []" using boot_now Suc.prems(1) 0 by simp_all
    from add_batch_of [OF up(1) h mk rs m Suc.prems(2)] obtain a' w where
      "opof_add_session (int m) h rs a ?c = Some (status_code OK, a', ?c\<lparr>world := w\<rparr>)"
      "inv w (admit limit [] (ids_from b (b + m)))" "taken w = []" "length (sessionErrors a') = BUFFER_MAX"
      unfolding up(2) by blast
    then show ?thesis using 0 by auto
  next
    case (Suc k')
    have d: "down (world ?c) k'" using boot_later Suc.prems(1) Suc by simp
    have len: "length rs = m" and s: "\<forall>r\<in>set rs. sendable r"
      using makes_requestsD [OF mk rs] m by (simp_all add: BUFFER_MAX_def)
    obtain a' where a': "opof_add_session (int m) h rs a ?c = Some (status_code UNAVAILABLE, a', ?c)"
      "length (sessionErrors a') = BUFFER_MAX"
      using add_unavailable [OF h d s, of a] len Suc.prems(2) by auto
    have "retry_loop (Suc n) (\<lambda>c. c\<lparr>world := boot (world c)\<rparr>) (opof_add_session (int m) h rs) (status_code UNAVAILABLE) a c =
        retry_loop n (\<lambda>c. c\<lparr>world := boot (world c)\<rparr>) (opof_add_session (int m) h rs) (status_code UNAVAILABLE) a' ?c"
      using a'(1) by simp
    then show ?thesis using Suc.IH [OF d a'(2)] Suc by (auto simp del: status_code.simps retry_loop.simps)
  qed
qed

end

context restart_client
begin

text \<open>What killing and starting the server do to the world of a run.\<close>

definition restart_env :: "nat \<Rightarrow> 'a env \<Rightarrow> bool" where
  "restart_env delay env \<longleftrightarrow> test_env env \<and> (\<forall>i w. sleep env i w = w) \<and> start_server env = boot \<and>
     (\<forall>w. inv w [] \<longrightarrow> down (kill_server env w) delay)"

lemma restart_pause:
  "restart_env delay env \<Longrightarrow>
   (\<lambda>c. let c = sleep_world env i c in c\<lparr>world := start_server env (world c)\<rparr>) = (\<lambda>c. c\<lparr>world := boot (world c)\<rparr>)"
  by (simp add: fun_eq_iff restart_env_def sleep_world_def)

lemma add_call_restart_up:
  assumes "inv (world c) ids" and "connected (obj h)" and "makes_requests mk" and "mk (of_nat n) (of_nat b) = Some rs"
    and "n \<le> BUFFER_MAX" and "length (sessionErrors a) = BUFFER_MAX"
  shows "\<exists>a' w. add_call_restart env st h (int n) rs a c = Some (status_code OK, a', c\<lparr>world := w\<rparr>) \<and>
    inv w (admit limit ids (ids_from b (b + n))) \<and> taken w = taken (world c) \<and> length (sessionErrors a') = BUFFER_MAX"
  using add_batch_of [OF assms] by (auto simp: add_call_restart_def)

lemma add_call_restart_down:
  fixes st :: "'a tester"
  assumes env: "restart_env delay env" and "down (world c) k" and h: "connected (obj h)" and mk: "makes_requests mk"
    and rs: "mk (of_nat n) (of_nat b) = Some rs" and n: "n \<le> BUFFER_MAX" and "length (sessionErrors a) = BUFFER_MAX"
  defines "up \<equiv> int k < getRetryAttempts st"
  shows "\<exists>a' w. add_call_restart env st h (int n) rs a c = Some (status_code (if up then OK else UNAVAILABLE), a', c\<lparr>world := w\<rparr>) \<and>
    (if up then inv w (admit limit [] (ids_from b (b + n))) \<and> taken w = [] else \<exists>k. down w k) \<and> length (sessionErrors a') = BUFFER_MAX"
proof -
  let ?n = "nat (getRetryAttempts st)"
  have len: "length rs = n" and s: "\<forall>r\<in>set rs. sendable r"
    using makes_requestsD [OF mk rs] n by (simp_all add: BUFFER_MAX_def)
  obtain a1 where a1: "opof_add_session (int n) h rs a c = Some (status_code UNAVAILABLE, a1, c)"
    "length (sessionErrors a1) = BUFFER_MAX"
    using add_unavailable [OF h assms(2) s, of a] len assms(7) by auto
  have up: "up \<longleftrightarrow> k < ?n" by (auto simp: up_def)
  have "add_call_restart env st h (int n) rs a c =
      retry_loop ?n (\<lambda>c. c\<lparr>world := boot (world c)\<rparr>) (opof_add_session (int n) h rs) (status_code UNAVAILABLE) a1 c"
    using a1(1) by (simp add: add_call_restart_def restart_pause [OF env] del: retry_loop.simps)
  then show ?thesis
    using tries_until_up [OF h mk rs n assms(2) a1(2), of ?n] unfolding up by (auto simp del: status_code.simps split: if_splits)
qed

text \<open>
  The loop that adds the sessions, started without a server. When the server comes up in time, the first
  batch brings it up and all batches are added.
\<close>

lemma add_loop_restart:
  fixes st :: "'a tester"
  assumes env: "restart_env delay env" and "down (world c) delay" and h: "connected (obj h)" and mk: "makes_requests mk"
    and p: "0 < p" "p \<le> BUFFER_MAX" and M: "0 < M" "M < 2 ^ 31" and room: "length (sessionErrors a) = BUFFER_MAX"
  defines "up \<equiv> int delay < getRetryAttempts st"
  shows "\<exists>a' c'. add_loop mk (\<lambda>status. status \<noteq> status_code OK) (add_call_restart env st h) (of_nat p) (of_nat M) 0 a c =
      Some (\<not> up, a', c') \<and>
    (if up then inv (world c') (admit limit [] (ids_from 0 M)) \<and> taken (world c') = [] else \<exists>k. down (world c') k)"
proof (cases up)
  case True
  let ?R = "\<lambda>c b. b = 0 \<and> down (world c) delay \<or> inv (world c) (admit limit [] (ids_from 0 b)) \<and> taken (world c) = []"
  have round: "\<exists>rs a' c'. mk (of_nat n) (of_nat b) = Some rs \<and>
      add_call_restart env st h (int n) rs a c = Some (status_code OK, a', c') \<and> ?R c' (b + n) \<and>
      length (sessionErrors a') = BUFFER_MAX"
    if R: "?R c b" and n: "n \<le> BUFFER_MAX" "length (sessionErrors a) = BUFFER_MAX" for c n b a
  proof -
    have "n < 2 ^ 31" using n(1) by (simp add: BUFFER_MAX_def)
    then obtain rs where rs: "mk (of_nat n) (of_nat b) = Some rs" using mk unfolding makes_requests_def by blast
    have "\<exists>a' w. add_call_restart env st h (int n) rs a c = Some (status_code OK, a', c\<lparr>world := w\<rparr>) \<and>
        inv w (admit limit [] (ids_from 0 (b + n))) \<and> taken w = [] \<and> length (sessionErrors a') = BUFFER_MAX"
    proof (cases "b = 0 \<and> down (world c) delay")
      case d: True
      have "down (world c) delay" using d by blast
      from add_call_restart_down [where st = st, OF env this h mk rs n] show ?thesis
        using d True unfolding up_def by simp
    next
      case False
      have "inv (world c) (admit limit [] (ids_from 0 b))" "taken (world c) = []" using R False by blast+
      moreover have "admit limit (admit limit [] (ids_from 0 b)) (ids_from b (b + n)) = admit limit [] (ids_from 0 (b + n))"
        by (simp add: admit_append [symmetric] ids_from_append)
      ultimately show ?thesis using add_call_restart_up [where st = st and env = env, OF _ h mk rs n] by metis
    qed
    then show ?thesis using rs by auto
  qed
  have R0: "?R c 0" using assms(2) by simp
  have M': "0 + M < 2 ^ 31" and f: "\<not> (\<lambda>status. status \<noteq> status_code OK) (status_code OK)" using M by simp_all
  obtain a' c' where "add_loop mk (\<lambda>status. status \<noteq> status_code OK) (add_call_restart env st h) (of_nat p) (of_nat M) (of_nat 0) a c =
      Some (False, a', c')" "?R c' (0 + M)"
    using add_loop_rounds [where R = ?R and c = c and b = 0 and mk = mk and add = "add_call_restart env st h" and
        failed = "\<lambda>status. status \<noteq> status_code OK", OF R0 p M' room f round] by blast
  then show ?thesis using True M(1) by auto
next
  case False
  have p31: "p < 2 ^ 31" using p by (simp add: BUFFER_MAX_def)
  let ?n = "min M p"
  have n: "?n \<le> BUFFER_MAX" "?n < 2 ^ 31" using p p31 by auto
  then obtain rs where rs: "mk (of_nat ?n) (of_nat 0) = Some rs" using mk unfolding makes_requests_def by blast
  obtain a' w where a': "add_call_restart env st h (int ?n) rs a c = Some (status_code UNAVAILABLE, a', c\<lparr>world := w\<rparr>)"
    "\<exists>k. down w k"
    using add_call_restart_down [where st = st, OF env assms(2) h mk rs n(1) room] False unfolding up_def by auto
  have "add_loop mk (\<lambda>status. status \<noteq> status_code OK) (add_call_restart env st h) (of_nat p) (of_nat M) 0 a c =
      Some (True, a', c\<lparr>world := w\<rparr>)"
    using a'(1) rs M n(2) buffer_size [OF M(2) p31]
    by (subst add_loop.simps) (simp add: Let_def del: min_def)
  then show ?thesis using a'(2) False by auto
qed

text \<open>The loop that asks for closed sessions: together they are the sessions that were there, in their order.\<close>

lemma closed_loop_taken:
  assumes "inv (world c) ids" and h: "connected (obj (handle args))"
    and p: "str_pageSize args = of_nat p" "0 < p" "p \<le> BUFFER_MAX"
    and room: "length responses = BUFFER_MAX" and n: "n \<noteq> 0"
  shows "\<exists>c'. closed_until_none (\<lambda>_. False) (opof_get_closed_sessions args) n responses c = Some (False, c') \<and>
    inv (world c') [] \<and> taken (world c') = taken (world c) @ ids"
proof -
  let ?all = "taken (world c) @ ids"
  let ?Q = "\<lambda>c ids. inv (world c) ids \<and> taken (world c) @ ids = ?all"
  have sp: "sint (str_pageSize args) = int p" using p by (simp add: BUFFER_MAX_def)
  have page: "\<exists>st n responses' c2 ids'. opof_get_closed_sessions args responses c1 = Some (st, n, responses', c2) \<and> ?Q c2 ids' \<and>
      length responses' = BUFFER_MAX \<and> (if n = 0 then ids' = [] else length ids' < length ids \<and> \<not> (\<lambda>_. False) st)"
    if Q: "?Q c1 ids" and len: "length responses = BUFFER_MAX" for c1 ids responses
  proof -
    obtain responses' w where r: "opof_get_closed_sessions args responses c1 =
        Some (status_code (if ids = [] then NOT_FOUND else OK), length (take p ids), responses', c1\<lparr>world := w\<rparr>)"
      "length responses' = BUFFER_MAX" "first_ids (length (take p ids)) responses' = take p ids" "inv w (drop p ids)"
      using opof_get_closed_sessions_ok [of c1 ids args responses] Q h p len unfolding sp by auto
    have "taken w @ drop p ids = ?all"
      using closed_sessions_taken [OF r(1) h] Q r(3) by (metis append.assoc append_take_drop_id client.select_convs(2) client.surjective client.update_convs(2))
    then show ?thesis using r p(2) by (cases "ids = []") (auto simp del: status_code.simps)
  qed
  have "\<exists>c'. closed_until_none (\<lambda>_. False) (opof_get_closed_sessions args) n responses c = Some (False, c') \<and> ?Q c' []"
    by (rule closed_loop_pages [where Q = ?Q and c = c and ids = ids]) (use assms(1) room n page in simp_all)
  then show ?thesis by simp
qed

text \<open>Test 9.\<close>

lemma test9_restart:
  fixes st :: "'a tester"
  assumes env: "restart_env delay env" and st: "test_state st" and p: "0 < p" "p \<le> BUFFER_MAX" and M: "M < 2 ^ 31"
  defines "up \<equiv> int delay < getRetryAttempts st"
  shows "\<exists>st'. opof_test9 env a (of_nat M) (of_nat p) port cert st = Some (if M = 0 \<or> up then SUCCESS else FAILURE, st') \<and>
    (if 0 < M \<and> up then holds_sessions st' [] \<and> taken (world (conn st')) = offered M
     else \<exists>k. down (world (conn st')) k)"
proof -
  let ?h = "opof_create_sessionTable (new_client env) (ssl env) a (ucast port) cert"
  let ?args = "\<lparr>handle = ?h, str_pageSize = of_nat p\<rparr>" and ?mk = "createSessionRequest (uninit_request env)"
  have te: "test_env env" using env by (simp add: restart_env_def)
  note h = test_env_connected [OF te, of "ssl env" a "ucast port" cert]
  obtain w where w: "opof_delete_all_sessions env ?h (sint (of_nat p :: u32)) st =
      Some (SUCCESS, st\<lparr>conn := (conn st)\<lparr>world := w\<rparr>\<rparr>)" "inv w []"
    using deleted_all [OF te st] by blast
  let ?st = "st\<lparr>conn := (conn st)\<lparr>world := w\<rparr>\<rparr>" and ?c = "(conn st)\<lparr>world := kill_server env w\<rparr>"
  have d: "down (world ?c) delay" using env w(2) by (simp add: restart_env_def)
  have up: "up \<longleftrightarrow> int delay < getRetryAttempts ?st" by (simp add: up_def getRetryAttempts_def)
  show ?thesis
  proof (cases "M = 0")
    case True
    have "opof_get_closed_sessions ?args (responses_init env) ?c = Some (status_code UNAVAILABLE, 0, responses_init env, ?c)"
      using down_closed [OF h d] by (simp add: opof_get_closed_sessions_def getClosedSessions_client_def Status_unavailable_def)
    then have "closed_until_none (\<lambda>_. False) (opof_get_closed_sessions ?args) 1 (responses_init env) ?c = Some (False, ?c)"
      by (subst closed_until_none.simps) (simp add: closed_until_none.simps)
    moreover have "add_loop mk failed add x 0 0 r ?c = Some (False, r, ?c)" for mk failed add x r
      by (simp add: add_loop.simps)
    ultimately show ?thesis using w(1) d True by (auto simp: opof_test9_def Let_def simp del: One_nat_def)
  next
    case False
    then have M0: "0 < M" by simp
    obtain r c' where add: "add_loop ?mk (\<lambda>status. status \<noteq> status_code OK) (add_call_restart env ?st ?h) (of_nat p) (of_nat M) 0
        (uninit_add env) ?c = Some (\<not> up, r, c')"
      and c': "if up then inv (world c') (offered M) \<and> taken (world c') = [] else \<exists>k. down (world c') k"
      using add_loop_restart [where st = ?st, OF env d h makes_createSessionRequest p M0 M test_env_room [OF te]]
      unfolding up offered_def by blast
    show ?thesis
    proof (cases up)
      case True
      have i: "inv (world c') (offered M)" "taken (world c') = []" using c' True by simp_all
      have ha: "connected (obj (handle ?args))" "str_pageSize ?args = of_nat p" using h by simp_all
      obtain c2 where "closed_until_none (\<lambda>_. False) (opof_get_closed_sessions ?args) 1 (responses_init env) c' =
          Some (False, c2)" "inv (world c2) []" "taken (world c2) = offered M"
        using closed_loop_taken [OF i(1) ha p responses_init_length one_neq_zero, of env] i(2) by auto
      then show ?thesis
        using w(1) add True M0 by (auto simp: opof_test9_def Let_def holds_sessions_def simp del: status_code.simps One_nat_def)
    next
      case nup: False
      then show ?thesis
        using w(1) add c' M0 by (auto simp: opof_test9_def Let_def simp del: status_code.simps One_nat_def)
    qed
  qed
qed

end

subsection \<open>The machine of the test server\<close>

text \<open>
  Either the server process answers, or no server does: after it was killed, until \<open>n\<close> more start
  commands than the next one have been given. Starting a second server does not harm the first. Beside the server
  that answers stands the history of the ids it has sent as closed.
\<close>

datatype host = Up server "u64 list" | Down nat

fun host_taken :: "host \<Rightarrow> u64 list" where
  "host_taken (Up s log) = log"
| "host_taken (Down n) = []"

fun kill_process :: "nat \<Rightarrow> host \<Rightarrow> host" where
  "kill_process delay (Up s log) = Down delay"
| "kill_process delay (Down n) = Down n"

fun start_process :: "server \<Rightarrow> host \<Rightarrow> host" where
  "start_process fresh (Up s log) = Up s log"
| "start_process fresh (Down 0) = Up fresh []"
| "start_process fresh (Down (Suc n)) = Down n"

text \<open>The operations of the device on the machine: those of the server that answers.\<close>

fun host_add :: "sessionRequest_t \<Rightarrow> host \<Rightarrow> (u32 \<times> host) option" where
  "host_add p (Up s log) = do { (status, s) \<leftarrow> opof_add_session_server p s; Some (status, Up s log) }"
| "host_add p (Down n) = None"

fun host_get :: "u64 \<Rightarrow> sessionResponse_t \<Rightarrow> host \<Rightarrow> (u32 \<times> sessionResponse_t \<times> host) option" where
  "host_get k r (Up s log) = do { (status, r, s) \<leftarrow> opof_get_session_server k r s; Some (status, r, Up s log) }"
| "host_get k r (Down n) = None"

fun host_del :: "u64 \<Rightarrow> sessionResponse_t \<Rightarrow> host \<Rightarrow> (u32 \<times> sessionResponse_t \<times> host) option" where
  "host_del k r (Up s log) = do { (status, r, s) \<leftarrow> opof_del_session_server k r s; Some (status, r, Up s log) }"
| "host_del k r (Down n) = None"

fun host_closed ::
  "statisticsRequestArgs_t \<Rightarrow> sessionResponse_t list \<Rightarrow> host \<Rightarrow> (nat \<times> sessionResponse_t list \<times> host) option" where
  "host_closed q rs (Up s log) = do {
     (n, rs, s) \<leftarrow> opof_get_closed_sessions_server q rs s; Some (n, rs, Up s (log @ first_ids n rs)) }"
| "host_closed q rs (Down n) = None"

fun host_all ::
  "int \<Rightarrow> u64 \<Rightarrow> int \<Rightarrow> sessionResponse_t list \<Rightarrow> host \<Rightarrow> (nat \<times> u64 \<times> sessionResponse_t list \<times> host) option" where
  "host_all psize k pc rs (Up s log) = do {
     (n, k, rs, s) \<leftarrow> opof_get_all_sessions_server psize k pc rs s; Some (n, k, rs, Up s log) }"
| "host_all psize k pc rs (Down n) = None"

definition host_holds :: "host \<Rightarrow> u64 list \<Rightarrow> bool" where
  "host_holds w ids \<longleftrightarrow> (case w of Up s log \<Rightarrow> holds_ids s ids | Down n \<Rightarrow> False)"

definition host_at :: "host \<Rightarrow> u64 list \<Rightarrow> nat \<Rightarrow> bool" where
  "host_at w ids k \<longleftrightarrow> (case w of Up s log \<Rightarrow> holds_at s ids k | Down n \<Rightarrow> False)"

definition host_down :: "host \<Rightarrow> nat \<Rightarrow> bool" where
  "host_down w n \<longleftrightarrow> w = Down n"

lemma host_simps [simp]:
  "host_holds (Up s log) ids = holds_ids s ids" "\<not> host_holds (Down n) ids"
  "host_at (Up s log) ids k = holds_at s ids k" "\<not> host_at (Down n) ids k"
  by (simp_all add: host_holds_def host_at_def)

lemma host_holdsE: "host_holds w ids \<Longrightarrow> (\<And>s log. w = Up s log \<Longrightarrow> holds_ids s ids \<Longrightarrow> P) \<Longrightarrow> P"
  by (cases w) simp_all

lemma host_atE: "host_at w ids k \<Longrightarrow> (\<And>s log. w = Up s log \<Longrightarrow> holds_at s ids k \<Longrightarrow> P) \<Longrightarrow> P"
  by (cases w) simp_all

interpretation hosted: eager_backend host_holds host_at HASHTABLE_SIZE host_add host_get host_del host_closed host_all
proof unfold_locales
  show "distinct ids" if "host_holds w ids" for w ids
    using that store.inv_distinct by (elim host_holdsE) simp
  show "host_holds w ids" if "host_at w ids pos" for w ids pos
    using that store.at_inv by (elim host_atE) simp
  show "\<exists>w'. host_add p w = Some (status_code (admit_status HASHTABLE_SIZE ids (sessId p)), w') \<and>
      host_holds w' (if admit_status HASHTABLE_SIZE ids (sessId p) = OK then ids @ [sessId p] else ids)"
    if "host_holds w ids" for w ids p
    using that by (elim host_holdsE) (use store.add_law [of _ ids p] in fastforce)
  show "if k \<in> set ids then \<exists>r. host_get k c w = Some (status_code OK, r, w) \<and> rsp_sessionId r = k
      else host_get k c w = Some (status_code NOT_FOUND, c, w)"
    if "host_holds w ids" for w ids k c
    using that by (elim host_holdsE) (use store.get_law [of _ ids k c] in fastforce)
  show "if k \<in> set ids
      then \<exists>r w'. host_del k c w = Some (status_code OK, r, w') \<and> rsp_sessionId r = k \<and> host_holds w' (removeAll k ids)
      else host_del k c w = Some (status_code NOT_FOUND, c, w)"
    if "host_holds w ids" for w ids k c
    using that by (elim host_holdsE) (use store.del_law [of _ ids k c] in fastforce)
  show "\<exists>n cs' w'. host_closed q cs w = Some (n, cs', w') \<and> n \<le> nat (sint (stat_pageSize q)) \<and>
        length cs' = length cs \<and> distinct (map rsp_sessionId (take n cs')) \<and>
        set (map rsp_sessionId (take n cs')) \<subseteq> set ids \<and>
        host_holds w' (filter (\<lambda>k. k \<notin> set (map rsp_sessionId (take n cs'))) ids)"
    if "host_holds w ids" "0 < sint (stat_pageSize q)" "sint (stat_pageSize q) \<le> int (length cs)" for w ids q cs
  proof -
    note a = that
    from a(1) obtain s log where s: "w = Up s log" "holds_ids s ids" by (rule host_holdsE)
    obtain n cs' s' where "opof_get_closed_sessions_server q cs s = Some (n, cs', s')" "n \<le> nat (sint (stat_pageSize q))"
      "length cs' = length cs" "distinct (map rsp_sessionId (take n cs'))" "set (map rsp_sessionId (take n cs')) \<subseteq> set ids"
      "holds_ids s' (filter (\<lambda>k. k \<notin> set (map rsp_sessionId (take n cs'))) ids)"
      using store.closed_law [OF s(2) a(2,3)] by blast
    then show ?thesis using s(1) by (intro exI [of _ n] exI [of _ cs'] exI [of _ "Up s' (log @ first_ids n cs')"]) simp
  qed
  show "\<exists>cs' w'. host_all psize key pc cs w = Some (length page, last (key # page), cs', w') \<and>
        length cs' = length cs \<and> map rsp_sessionId (take (length page) cs') = page \<and>
        host_at w' ids ((if key = UINT_MAX then 0 else pos) + length page)"
    if "host_at w ids pos" "0 < psize" "psize \<le> int (length cs)"
      "page = take (nat psize) (drop (if key = UINT_MAX then 0 else pos) ids)" for w ids pos psize cs page key pc
  proof -
    note a = that
    from a(1) obtain s log where s: "w = Up s log" "holds_at s ids pos" by (rule host_atE)
    obtain cs' s' where "opof_get_all_sessions_server psize key pc cs s = Some (length page, last (key # page), cs', s')"
      "length cs' = length cs" "map rsp_sessionId (take (length page) cs') = page"
      "holds_at s' ids ((if key = UINT_MAX then 0 else pos) + length page)"
      using store.all_law [OF s(2) a(2-4), of pc] by blast
    then show ?thesis using s(1) by (intro exI [of _ cs'] exI [of _ "Up s' log"]) simp
  qed
  show "\<exists>w0. host_at w0 ids 0 \<and> (\<forall>psize pc cs. host_all psize UINT_MAX pc cs w = host_all psize UINT_MAX pc cs w0)"
    if "host_holds w ids" for w ids
  proof -
    from that obtain s log where s: "w = Up s log" "holds_ids s ids" by (rule host_holdsE)
    obtain s0 where "holds_at s0 ids 0" "\<forall>psize pc cs. opof_get_all_sessions_server psize UINT_MAX pc cs s =
        opof_get_all_sessions_server psize UINT_MAX pc cs s0"
      using store.restart_law [OF s(2)] by blast
    then show ?thesis using s(1) by (intro exI [of _ "Up s0 log"]) simp
  qed
  show "host_at w' (removeAll k ids) (pos - 1)"
    if "host_at w ids pos" "k \<in> set (take pos ids)" "host_del k c w = Some (st, r, w')" for w ids pos k c st r w'
    using that(1) by (rule host_atE) (use that(2,3) store.del_at_law in \<open>auto simp: bind_eq_Some_conv\<close>)
  show "map rsp_sessionId (take n cs') = take (nat (sint (stat_pageSize q))) ids"
    if "host_holds w ids" "0 < sint (stat_pageSize q)" "sint (stat_pageSize q) \<le> int (length cs)"
      "host_closed q cs w = Some (n, cs', w')" for w ids q cs n cs' w'
    using that(1) by (rule host_holdsE) (use that(2-4) store.eager_law in \<open>auto simp: bind_eq_Some_conv\<close>)
qed

subsection \<open>The connection\<close>

text \<open>
  A stub of a channel to the machine: its calls are performed by the server that answers, and fail with
  \<open>UNAVAILABLE\<close> when there is none, as gRPC documents.
\<close>

definition host_served :: "host stub \<Rightarrow> bool" where
  "host_served stub \<longleftrightarrow>
     (\<forall>d ms s log. \<exists>request_c. stub_addSession stub d ms (Up s log) = reply default_addSessionResponse
       (addSession host_add (\<lambda>_. False) request_c ms default_addSessionResponse (Up s log))) \<and>
     (\<forall>d sid s log. \<exists>c. stub_getSession stub d sid (Up s log) = reply default_sessionResponse
       (getSession host_get False c sid default_sessionResponse (Up s log))) \<and>
     (\<forall>d sid s log. \<exists>c. stub_deleteSession stub d sid (Up s log) = reply default_sessionResponse
       (deleteSession host_del False c sid default_sessionResponse (Up s log))) \<and>
     (\<forall>d q s log. \<exists>uninit page. stub_getClosedSessions stub d q (Up s log) =
       getClosedSessions host_closed False uninit page q (Up s log)) \<and>
     (\<forall>d q s log. \<exists>uninit. stub_getAllSessions stub d q (Up s log) = reply default_sessionResponses
       (getAllSessions host_all False uninit q default_sessionResponses (Up s log))) \<and>
     (\<forall>d ms n. stub_addSession stub d ms (Down n) = Some (Status_unavailable, default_addSessionResponse, Down n)) \<and>
     (\<forall>d sid n. stub_getSession stub d sid (Down n) = Some (Status_unavailable, default_sessionResponse, Down n)) \<and>
     (\<forall>d sid n. stub_deleteSession stub d sid (Down n) = Some (Status_unavailable, default_sessionResponse, Down n)) \<and>
     (\<forall>d q n. stub_getClosedSessions stub d q (Down n) = Some (Status_unavailable, [], Down n)) \<and>
     (\<forall>d q n. stub_getAllSessions stub d q (Down n) = Some (Status_unavailable, default_sessionResponses, Down n))"

lemma holds_ids_init: "holds_ids (server_init g) []"
  using server_inv_init [of g] by (auto simp: holds_ids_def)

lemma host_addSession_taken:
  "addSession_loop host_add cancelled i ms c m w = Some (st, m', w') \<Longrightarrow> host_taken w' = host_taken w"
proof (induction ms arbitrary: i c m w)
  case (Cons r ms)
  have "host_add p w = Some (status, w1) \<Longrightarrow> host_taken w1 = host_taken w" for p status w1
    by (cases w) (auto simp: bind_eq_Some_conv)
  then show ?case using Cons by (fastforce simp: bind_eq_Some_conv Let_def split: if_splits)
qed simp

lemma write_closed_ids:
  "write_closed cs is m = Some ms \<Longrightarrow>
   (\<forall>i\<in>set is. i < length cs) \<and> map pbr_sessionId ms = map (\<lambda>i. rsp_sessionId (cs ! i)) is"
  by (induction "is" arbitrary: m ms) (auto simp: bind_eq_Some_conv load_def Let_def split: if_splits)

lemma host_closed_taken:
  assumes "getClosedSessions host_closed False uninit page q (Up s log) = Some (st, ms, w')"
  shows "host_taken w' = log @ map pbr_sessionId ms"
proof -
  obtain n cs s' where r: "opof_get_closed_sessions_server \<lparr>stat_pageSize = pb_pageSize q, stat_page = page\<rparr>
      (map uninit [0..<BUFFER_MAX]) s = Some (n, cs, s')" and w': "w' = Up s' (log @ first_ids n cs)"
    and ms: "if n = 0 then ms = [] else write_closed cs [0..<n] default_sessionResponse = Some ms"
    using assms by (auto simp: getClosedSessions_def Let_def bind_eq_Some_conv split: if_splits)
  show ?thesis
  proof (cases "n = 0")
    case True
    then show ?thesis using ms w' by (simp add: first_ids_def)
  next
    case False
    then have "write_closed cs [0..<n] default_sessionResponse = Some ms" using ms by simp
    note w = write_closed_ids [OF this]
    have "n - 1 < length cs" using w False by simp
    then show ?thesis using w w' map_nth_take [of n cs rsp_sessionId] by (simp add: first_ids_def)
  qed
qed

interpretation rebooted: restart_client host_holds host_at HASHTABLE_SIZE host_add host_get host_del host_closed host_all
  host_served host_down "start_process (server_init g)" host_taken
  for g
proof unfold_locales
  fix stub :: "host stub" and w :: host and ids
  assume h: "host_served stub" and "host_holds w ids"
  from this(2) obtain s log where s: "w = Up s log" by (rule host_holdsE)
  show "\<exists>rc. stub_addSession stub d ms w = reply default_addSessionResponse
      (addSession host_add (\<lambda>_. False) rc ms default_addSessionResponse w)" for d ms
    using h by (simp add: host_served_def s)
  show "\<exists>c. stub_getSession stub d sid w = reply default_sessionResponse
      (getSession host_get False c sid default_sessionResponse w)" for d sid
    using h by (simp add: host_served_def s)
  show "\<exists>c. stub_deleteSession stub d sid w = reply default_sessionResponse
      (deleteSession host_del False c sid default_sessionResponse w)" for d sid
    using h by (simp add: host_served_def s)
  show "\<exists>uninit page. stub_getClosedSessions stub d q w = getClosedSessions host_closed False uninit page q w" for d q
    using h by (simp add: host_served_def s)
  show "\<exists>uninit. stub_getAllSessions stub d q w = reply default_sessionResponses
      (getAllSessions host_all False uninit q default_sessionResponses w)" for d q
    using h by (simp add: host_served_def s)
  show "host_taken w' = host_taken w @ map pbr_sessionId rs"
    if "stub_getClosedSessions stub d q w = Some (st, rs, w')" for d q st rs w'
  proof -
    have "\<exists>u pg. stub_getClosedSessions stub d q w = getClosedSessions host_closed False u pg q (Up s log)"
      using h by (simp add: host_served_def s)
    then obtain u pg where "stub_getClosedSessions stub d q w = getClosedSessions host_closed False u pg q (Up s log)" by blast
    then show ?thesis using host_closed_taken that s by simp
  qed
next
  show "host_taken w' = host_taken w"
    if "host_served stub" "stub_addSession stub d ms w = Some (st, m, w')" for stub d ms w st m w'
  proof (cases w)
    case (Up s log)
    have "\<exists>rc. stub_addSession stub d ms w = reply default_addSessionResponse
        (addSession host_add (\<lambda>_. False) rc ms default_addSessionResponse w)"
      using that(1) by (simp add: host_served_def Up)
    with that(2) obtain rc where "reply default_addSessionResponse
        (addSession host_add (\<lambda>_. False) rc ms default_addSessionResponse w) = Some (st, m, w')"
      by auto
    then show ?thesis by (auto simp: reply_def addSession_def bind_eq_Some_conv dest: host_addSession_taken)
  next
    case (Down n)
    then show ?thesis using that by (simp add: host_served_def)
  qed
qed (simp_all add: host_served_def host_down_def holds_ids_init)

text \<open>
  C19: Test 9, which kills the server, succeeds exactly when there is no session to add or the server is
  reachable again within the configured number of tries. With sessions to add, the sessions that the new server
  has then sent as closed are those of the test, each once and in order, up to the 1001 that it takes, and none is
  left on it; without, the success is reported while no server is running.
\<close>

theorem test9_killed_server:
  assumes "world (conn st) = Up s log" and "holds_ids s ids" and "\<forall>k\<in>set ids. k < 2 ^ 31"
    and "\<forall>address cert. host_served (new_client env address cert)" and "length (sessionErrors (uninit_add env)) = BUFFER_MAX"
    and "kill_server env = kill_process delay" and "start_server env = start_process (server_init g)"
    and "\<forall>i w. sleep env i w = w" and "0 < p" and "p \<le> BUFFER_MAX" and "M < 2 ^ 31"
  defines "up \<equiv> int delay < getRetryAttempts st"
  shows "\<exists>st'. opof_test9 env address (of_nat M) (of_nat p) port cert st =
      Some (if M = 0 \<or> up then SUCCESS else FAILURE, st') \<and>
    (if 0 < M \<and> up
     then \<exists>s'. world (conn st') = Up s' (map of_nat [0..<min M (HASHTABLE_SIZE + 1)]) \<and> holds_ids s' []
     else \<exists>n. world (conn st') = Down n)"
proof -
  have te: "rebooted.test_env env" using assms(4,5) by (simp add: rebooted.test_env_def)
  have "host_down (kill_process delay w) delay" if "host_holds w []" for w
    using that by (elim host_holdsE) (simp add: host_down_def)
  then have env: "rebooted.restart_env g delay env" using te assms(6-8) by (simp add: rebooted.restart_env_def)
  have "host_holds (world (conn st)) ids" "small ids" using assms(1-3) by (simp_all add: small_def)
  then have st: "rebooted.test_state st" unfolding rebooted.test_state_def by blast
  have offered: "rebooted.offered M = map of_nat [0..<min M (HASHTABLE_SIZE + 1)]"
    using rebooted.offered_eq [OF assms(11)] by (simp add: ids_from_def)
  have "\<exists>s'. w = Up s' (host_taken w) \<and> holds_ids s' []" if "host_holds w []" for w
    using that by (elim host_holdsE) simp
  then show ?thesis
    using rebooted.test9_restart [OF env st assms(9-11), of address port cert]
    unfolding up_def rebooted.holds_sessions_def host_down_def offered by (metis (no_types, lifting))
qed

text \<open>A stub in the same process; the server comes up with the third start command.\<close>

definition in_host :: "host stub" where
  "in_host = \<lparr>
     stub_addSession = (\<lambda>d ms w. case w of
         Up s log \<Rightarrow> reply default_addSessionResponse (addSession host_add (\<lambda>_. False) (ex_request 0) ms default_addSessionResponse w)
       | Down n \<Rightarrow> Some (Status_unavailable, default_addSessionResponse, w)),
     stub_getSession = (\<lambda>d sid w. case w of
         Up s log \<Rightarrow> reply default_sessionResponse (getSession host_get False ex_rsp sid default_sessionResponse w)
       | Down n \<Rightarrow> Some (Status_unavailable, default_sessionResponse, w)),
     stub_deleteSession = (\<lambda>d sid w. case w of
         Up s log \<Rightarrow> reply default_sessionResponse (deleteSession host_del False ex_rsp sid default_sessionResponse w)
       | Down n \<Rightarrow> Some (Status_unavailable, default_sessionResponse, w)),
     stub_getClosedSessions = (\<lambda>d q w. case w of
         Up s log \<Rightarrow> getClosedSessions host_closed False (\<lambda>_. ex_rsp) 0 q w
       | Down n \<Rightarrow> Some (Status_unavailable, [], w)),
     stub_getAllSessions = (\<lambda>d q w. case w of
         Up s log \<Rightarrow> reply default_sessionResponses (getAllSessions host_all False (\<lambda>_. ex_rsp) q default_sessionResponses w)
       | Down n \<Rightarrow> Some (Status_unavailable, default_sessionResponses, w))\<rparr>"

lemma host_served_in_host [simp]: "host_served in_host"
  unfolding host_served_def by (auto simp: in_host_def)

definition host_env :: "nat \<Rightarrow> host env" where
  "host_env delay = \<lparr>new_client = (\<lambda>_ _. in_host), ssl = True, sleep = (\<lambda>_ w. w), kill_server = kill_process delay,
     start_server = start_process (server_init ex_rng), uninit_request = (\<lambda>_. ex_request 0), uninit_add = ex_add_response,
     uninit_rsp = (\<lambda>_. ex_rsp)\<rparr>"

definition host_tester :: "server \<Rightarrow> int \<Rightarrow> host tester" where
  "host_tester s attempts = \<lparr>conn = \<lparr>g_deadline = initial_deadline, world = Up s []\<rparr>, g_retryInterval = 15, g_retryAttempts = attempts\<rparr>"

text \<open>The server is there with the third try of a hundred, and with the third of two not.\<close>

lemma test9_killed_server_witness:
  "\<exists>s st1 st2 s1 n. run_all add_ok (map ex_request [1, 2, 3]) (server_init ex_rng) = Some s \<and>
     opof_test9 (host_env 2) ''localhost'' (of_nat 4) (of_nat 3) 3443 [] (host_tester s 100) = Some (SUCCESS, st1) \<and>
     world (conn st1) = Up s1 [0, 1, 2, 3] \<and> holds_ids s1 [] \<and>
     opof_test9 (host_env 2) ''localhost'' (of_nat 4) (of_nat 3) 3443 [] (host_tester s 2) = Some (FAILURE, st2) \<and>
     world (conn st2) = Down n"
proof -
  obtain s where s: "run_all add_ok (map ex_request [1, 2, 3]) (server_init ex_rng) = Some s"
    and h: "holds_ids s [1, 2, 3]" by (rule ex_holds)
  have k: "\<forall>k\<in>set [1, 2, 3 :: u64]. k < 2 ^ 31" by simp
  have e: "\<forall>address cert. host_served (new_client (host_env 2) address cert)"
    "length (sessionErrors (uninit_add (host_env 2))) = BUFFER_MAX" "kill_server (host_env 2) = kill_process 2"
    "start_server (host_env 2) = start_process (server_init ex_rng)" "\<forall>i w. sleep (host_env 2) i w = w"
    by (simp_all add: host_env_def BUFFER_MAX_def)
  have n: "0 < (3::nat)" "3 \<le> BUFFER_MAX" "(4::nat) < 2 ^ 31" by (simp_all add: BUFFER_MAX_def)
  have w: "world (conn (host_tester s attempts)) = Up s []" for attempts by (simp add: host_tester_def)
  have a: "getRetryAttempts (host_tester s attempts) = attempts" for attempts
    by (simp add: host_tester_def getRetryAttempts_def)
  have l: "map of_nat [0..<min 4 (HASHTABLE_SIZE + 1)] = [0, 1, 2, 3 :: u64]"
    by (simp add: HASHTABLE_SIZE_def upt_rec)
  note run = test9_killed_server [OF w h k e n, where address = "''localhost''" and port = 3443 and cert = "[]", unfolded a l]
  show ?thesis
    using s run [of 100] run [of 2] by simp blast
qed

end
