(* ===== verification/Session_Handle.thy ===== *)
theory Session_Handle
  imports Session_Client
begin

text \<open>
  Handles of the client library in memory (\<open>src/opof_clientlib.cc\<close>): \<open>opof_create_sessionTable\<close>
  allocates a handle and a client object, \<open>opof_delete_sessionTable\<close> deletes the object and frees the
  handle. In the other theories a handle is the value of its struct, which is what a live handle
  reads as here; a handle that is used after it was deleted faults. \<open>malloc\<close> and \<open>new\<close> succeed, and never return
  an address twice: a use after the deletion is undefined also where the allocator has given the memory of the
  handle to a new one, which such a use would then reach.
\<close>

subsection \<open>Operations\<close>

record 'w handle_memory =
  handles :: "ptr memory"           \<comment> \<open>\<open>struct sessionTable\<close>: the field \<open>obj\<close>\<close>
  clients :: "'w stub memory"       \<comment> \<open>objects of \<open>SessionTableClient\<close>\<close>
  handle_brk :: addr

definition no_handles :: "'w handle_memory" where
  "no_handles = \<lparr>handles = (\<lambda>_. None), clients = (\<lambda>_. None), handle_brk = 0\<rparr>"

text \<open>What a call reads through its handle: \<open>static_cast\<close> of \<open>obj\<close>, then the object.\<close>

definition read_handle :: "addr \<Rightarrow> 'w handle_memory \<Rightarrow> 'w sessionTable_t option" where
  "read_handle sessionHandle m = do {
     client \<leftarrow> handles m sessionHandle;
     c \<leftarrow> deref (clients m) client;
     Some \<lparr>obj = c\<rparr> }"

definition create_handle ::
  "(string \<Rightarrow> string option \<Rightarrow> 'w stub) \<Rightarrow> bool \<Rightarrow> string \<Rightarrow> u32 \<Rightarrow> string \<Rightarrow> 'w handle_memory \<Rightarrow> addr \<times> 'w handle_memory" where
  "create_handle new_client with_ssl host port public_key m =
     (let table = opof_create_sessionTable new_client with_ssl host port public_key;
          sessionHandle = handle_brk m;
          client = handle_brk m + 1;
          m = m\<lparr>handle_brk := handle_brk m + 2, clients := (clients m)(client \<mapsto> obj table)\<rparr>
      in (sessionHandle, m\<lparr>handles := (handles m)(sessionHandle \<mapsto> Some client)\<rparr>))"

definition opof_delete_sessionTable :: "addr \<Rightarrow> 'w handle_memory \<Rightarrow> 'w handle_memory option" where
  "opof_delete_sessionTable sessionHandle m = do {
     client \<leftarrow> handles m sessionHandle;
     cs \<leftarrow> release client (clients m);
     hs \<leftarrow> release (Some sessionHandle) (handles m);
     Some (m\<lparr>clients := cs, handles := hs\<rparr>) }"

subsection \<open>Reachable memories\<close>

inductive handles_reachable :: "'w handle_memory \<Rightarrow> bool" where
  init: "handles_reachable no_handles"
| create: "handles_reachable m \<Longrightarrow> create_handle new_client with_ssl host port public_key m = (a, m') \<Longrightarrow> handles_reachable m'"
| delete: "handles_reachable m \<Longrightarrow> opof_delete_sessionTable a m = Some m' \<Longrightarrow> handles_reachable m'"

text \<open>Every handle has a client object of its own, and nothing is allocated beyond the break.\<close>

definition handles_ok :: "'w handle_memory \<Rightarrow> bool" where
  "handles_ok m \<longleftrightarrow>
     (\<forall>a p. handles m a = Some p \<longrightarrow> (\<exists>c v. p = Some c \<and> clients m c = Some v \<and> a < handle_brk m \<and> c < handle_brk m)) \<and>
     (\<forall>a b c. handles m a = Some (Some c) \<longrightarrow> handles m b = Some (Some c) \<longrightarrow> a = b) \<and>
     (\<forall>c v. clients m c = Some v \<longrightarrow> (\<exists>a. handles m a = Some (Some c)))"

lemma handles_okE:
  assumes "handles_ok m" and "handles m b = Some p"
  obtains c v where "p = Some c" and "clients m c = Some v" and "b < handle_brk m" and "c < handle_brk m"
  using assms unfolding handles_ok_def by blast

lemma handles_ok_inj: "handles_ok m \<Longrightarrow> handles m a = Some (Some c) \<Longrightarrow> handles m b = Some (Some c) \<Longrightarrow> a = b"
  unfolding handles_ok_def by blast

lemma handles_ok_client: "handles_ok m \<Longrightarrow> clients m c = Some v \<Longrightarrow> \<exists>a. handles m a = Some (Some c)"
  unfolding handles_ok_def by blast

lemma handles_ok_lt: "handles_ok m \<Longrightarrow> handles m b = Some (Some c) \<Longrightarrow> b < handle_brk m \<and> c < handle_brk m"
  by (erule handles_okE) auto

lemma handles_ok_create:
  assumes ok: "handles_ok m" and "create_handle new_client with_ssl host port public_key m = (a, m')"
  shows "handles_ok m'"
proof -
  let ?k = "handle_brk m"
  obtain v where m': "m' = m\<lparr>handle_brk := ?k + 2, clients := (clients m)(?k + 1 \<mapsto> v), handles := (handles m)(?k \<mapsto> Some (?k + 1))\<rparr>"
    using assms(2) by (auto simp: create_handle_def Let_def)
  have old: "handles m b = Some (Some c) \<Longrightarrow> c < ?k" for b c using handles_ok_lt [OF ok] by blast
  show ?thesis unfolding handles_ok_def
  proof (intro conjI allI impI)
    show "\<exists>c v. p = Some c \<and> clients m' c = Some v \<and> b < handle_brk m' \<and> c < handle_brk m'" if b: "handles m' b = Some p" for b p
    proof (cases "b = ?k")
      case False
      then have "handles m b = Some p" using b by (simp add: m')
      then obtain c v where "p = Some c" "clients m c = Some v" "b < ?k" "c < ?k" by (rule handles_okE [OF ok])
      then show ?thesis by (auto simp: m')
    qed (use b in \<open>auto simp: m'\<close>)
    show "b = b'" if "handles m' b = Some (Some c)" and "handles m' b' = Some (Some c)" for b b' c
      using that old handles_ok_inj [OF ok, of b c b'] by (fastforce simp: m' split: if_splits)
    show "\<exists>b. handles m' b = Some (Some c)" if c: "clients m' c = Some w" for c w
    proof (cases "c = ?k + 1")
      case False
      then obtain b where b: "handles m b = Some (Some c)" using c handles_ok_client [OF ok, of c w] by (auto simp: m')
      then have "b < ?k" using handles_ok_lt [OF ok] by blast
      then have "handles m' b = Some (Some c)" using b by (simp add: m')
      then show ?thesis ..
    qed (auto simp: m' intro: exI [of _ ?k])
  qed
qed

lemma delete_handle:
  assumes "handles_ok m" and "handles m a = Some p"
  obtains c where "p = Some c" and "opof_delete_sessionTable a m = Some (m\<lparr>clients := (clients m)(c := None), handles := (handles m)(a := None)\<rparr>)"
    and "\<And>b. handles m b = Some (Some c) \<Longrightarrow> b = a"
proof -
  obtain c v where c: "p = Some c" "clients m c = Some v" using assms by (rule handles_okE)
  show thesis
  proof (rule that [OF c(1)])
    show "opof_delete_sessionTable a m = Some (m\<lparr>clients := (clients m)(c := None), handles := (handles m)(a := None)\<rparr>)"
      using assms(2) c by (simp add: opof_delete_sessionTable_def)
    show "b = a" if "handles m b = Some (Some c)" for b
      using handles_ok_inj [OF assms(1) that] assms(2) c(1) by simp
  qed
qed

lemma handles_ok_delete:
  assumes ok: "handles_ok m" and "opof_delete_sessionTable a m = Some m'"
  shows "handles_ok m'"
proof -
  obtain p where p: "handles m a = Some p" using assms(2) by (auto simp: opof_delete_sessionTable_def bind_eq_Some_conv)
  obtain c where c: "p = Some c" and del: "opof_delete_sessionTable a m = Some (m\<lparr>clients := (clients m)(c := None), handles := (handles m)(a := None)\<rparr>)"
    and o: "\<And>b. handles m b = Some (Some c) \<Longrightarrow> b = a" by (rule delete_handle [OF ok p]) blast
  have m': "m' = m\<lparr>clients := (clients m)(c := None), handles := (handles m)(a := None)\<rparr>" using del assms(2) by simp
  show ?thesis unfolding handles_ok_def
  proof (intro conjI allI impI)
    show "\<exists>d v. q = Some d \<and> clients m' d = Some v \<and> b < handle_brk m' \<and> d < handle_brk m'" if q: "handles m' b = Some q" for b q
    proof -
      have b: "b \<noteq> a" "handles m b = Some q" using q by (auto simp: m' split: if_splits)
      obtain d v where d: "q = Some d" "clients m d = Some v" "b < handle_brk m" "d < handle_brk m" using ok b(2) by (rule handles_okE)
      then have "d \<noteq> c" using o b by blast
      then show ?thesis using d by (simp add: m')
    qed
    show "b = b'" if "handles m' b = Some (Some d)" and "handles m' b' = Some (Some d)" for b b' d
      using that handles_ok_inj [OF ok, of b d b'] by (simp add: m' split: if_splits)
    show "\<exists>b. handles m' b = Some (Some d)" if d: "clients m' d = Some v" for d v
    proof -
      have "d \<noteq> c" "clients m d = Some v" using d by (auto simp: m' split: if_splits)
      then obtain b where b: "handles m b = Some (Some d)" using handles_ok_client [OF ok] by blast
      then have "b \<noteq> a" using p c \<open>d \<noteq> c\<close> by auto
      then show ?thesis using b by (auto simp: m')
    qed
  qed
qed

lemma handles_ok_init: "handles_ok no_handles"
  by (simp add: handles_ok_def no_handles_def)

lemma handles_reachable_ok: "handles_reachable m \<Longrightarrow> handles_ok m"
  by (induction rule: handles_reachable.induct) (blast intro: handles_ok_init handles_ok_create handles_ok_delete)+

lemma read_handle_live: "handles_ok m \<Longrightarrow> read_handle a m \<noteq> None \<longleftrightarrow> handles m a \<noteq> None"
proof (cases "handles m a")
  case (Some p)
  assume "handles_ok m"
  then obtain c v where "p = Some c" "clients m c = Some v" using Some by (rule handles_okE)
  then show ?thesis using Some by (simp add: read_handle_def)
qed (simp add: read_handle_def)

text \<open>
  C23: however session tables have been created and deleted, a new handle is
  one that is not in use, it reads as the client for its address and leaves the others alone; a
  handle in use can be deleted, the others stay as they are, and from then on every call through
  it, a second deletion among them, is a fault. No client object is left without its handle.
\<close>

theorem handle_lifetime:
  assumes "handles_reachable m"
  shows "(\<forall>a m'. create_handle new_client with_ssl host port public_key m = (a, m') \<longrightarrow>
      read_handle a m = None \<and> read_handle a m' = Some (opof_create_sessionTable new_client with_ssl host port public_key) \<and>
      (\<forall>b. b \<noteq> a \<longrightarrow> read_handle b m' = read_handle b m)) \<and>
    (\<forall>a. read_handle a m \<noteq> None \<longrightarrow> (\<exists>m'. opof_delete_sessionTable a m = Some m' \<and> read_handle a m' = None \<and>
      opof_delete_sessionTable a m' = None \<and> (\<forall>b. b \<noteq> a \<longrightarrow> read_handle b m' = read_handle b m))) \<and>
    (\<forall>a. read_handle a m = None \<longrightarrow> opof_delete_sessionTable a m = None) \<and>
    (\<forall>c v. clients m c = Some v \<longrightarrow> (\<exists>a. read_handle a m = Some \<lparr>obj = v\<rparr>))"
proof (intro conjI allI impI)
  note ok = handles_reachable_ok [OF assms]
  let ?k = "handle_brk m"
  {
    fix a m' assume c: "create_handle new_client with_ssl host port public_key m = (a, m')"
    then have a: "a = ?k" by (simp add: create_handle_def Let_def)
    have "handles m ?k = None" by (cases "handles m ?k") (auto elim: handles_okE [OF ok])
    then show "read_handle a m = None" by (simp add: a read_handle_def)
    show "read_handle a m' = Some (opof_create_sessionTable new_client with_ssl host port public_key)"
      using c by (auto simp: create_handle_def Let_def read_handle_def)
    show "read_handle b m' = read_handle b m" if "b \<noteq> a" for b
    proof (cases "handles m b")
      case (Some p)
      then obtain d v where "p = Some d" "clients m d = Some v" "d < ?k" by (rule handles_okE [OF ok])
      then show ?thesis using Some c that by (auto simp: create_handle_def Let_def read_handle_def)
    qed (use c that in \<open>auto simp: create_handle_def Let_def read_handle_def\<close>)
  }
  show "\<exists>m'. opof_delete_sessionTable a m = Some m' \<and> read_handle a m' = None \<and> opof_delete_sessionTable a m' = None \<and>
      (\<forall>b. b \<noteq> a \<longrightarrow> read_handle b m' = read_handle b m)" if r: "read_handle a m \<noteq> None" for a
  proof -
    obtain p where p: "handles m a = Some p" using r read_handle_live [OF ok] by blast
    obtain c where "p = Some c" and del: "opof_delete_sessionTable a m = Some (m\<lparr>clients := (clients m)(c := None), handles := (handles m)(a := None)\<rparr>)"
      and o: "\<And>b. handles m b = Some (Some c) \<Longrightarrow> b = a" by (rule delete_handle [OF ok p]) blast
    have "read_handle b (m\<lparr>clients := (clients m)(c := None), handles := (handles m)(a := None)\<rparr>) = read_handle b m" if "b \<noteq> a" for b
    proof (cases "handles m b")
      case (Some q)
      then obtain d v where "q = Some d" "clients m d = Some v" by (rule handles_okE [OF ok])
      moreover have "d \<noteq> c" using Some calculation(1) o that by blast
      ultimately show ?thesis using Some that by (simp add: read_handle_def)
    qed (use that in \<open>simp add: read_handle_def\<close>)
    then show ?thesis unfolding del by (simp add: read_handle_def opof_delete_sessionTable_def)
  qed
  show "opof_delete_sessionTable a m = None" if "read_handle a m = None" for a
    using that read_handle_live [OF ok, of a] by (simp add: opof_delete_sessionTable_def)
  show "\<exists>a. read_handle a m = Some \<lparr>obj = v\<rparr>" if c: "clients m c = Some v" for c v
  proof -
    obtain a where "handles m a = Some (Some c)" using handles_ok_client [OF ok c] by blast
    then have "read_handle a m = Some \<lparr>obj = v\<rparr>" using c by (simp add: read_handle_def)
    then show ?thesis ..
  qed
qed

text \<open>The property on a concrete history: two handles, of which the first is deleted.\<close>

definition ex_stub :: "unit stub" where
  "ex_stub = \<lparr>stub_addSession = (\<lambda>_ _ _. None), stub_getSession = (\<lambda>_ _ _. None), stub_deleteSession = (\<lambda>_ _ _. None),
     stub_getClosedSessions = (\<lambda>_ _ _. None), stub_getAllSessions = (\<lambda>_ _ _. None)\<rparr>"

definition ex_handles :: "unit handle_memory" where
  "ex_handles = (let new = (\<lambda>_ _. ex_stub); m = snd (create_handle new False ''a'' 1 [] no_handles)
     in snd (create_handle new False ''b'' 2 [] m))"

lemma handle_lifetime_witness:
  "\<exists>m'. opof_delete_sessionTable 0 ex_handles = Some m' \<and> read_handle 0 m' = None \<and>
    opof_delete_sessionTable 0 m' = None \<and> read_handle 2 m' = read_handle 2 ex_handles"
proof -
  have m: "handles_reachable ex_handles"
    unfolding ex_handles_def Let_def by (rule create [OF create [OF init]]) (rule surjective_pairing)+
  have "read_handle 0 ex_handles \<noteq> None"
    by (simp add: ex_handles_def create_handle_def read_handle_def no_handles_def Let_def)
  then obtain m' where "opof_delete_sessionTable 0 ex_handles = Some m' \<and> read_handle 0 m' = None \<and>
      opof_delete_sessionTable 0 m' = None \<and> (\<forall>b. b \<noteq> 0 \<longrightarrow> read_handle b m' = read_handle b ex_handles)"
    using conjunct1 [OF conjunct2 [OF handle_lifetime [OF m]]] by blast
  then show ?thesis by auto
qed

end
