(* ===== verification/Test_Process.thy ===== *)
theory Test_Process
  imports C_Strings Opof_Types
begin

text \<open>
  Control of the test server process, \<open>kill_test_server\<close> and \<open>start_test_server\<close> of
  \<open>src/opof_test_util.c\<close>, which tests 9 and 10 call. The output of the command
  \<open>pidof opof_server_test\<close> is an argument, absent when \<open>popen\<close> fails; it is the process ids separated
  by spaces in one line, and nothing when there is no such process. What the functions do to other
  processes is returned: the process a signal is sent to, the command that is run.
\<close>

subsection \<open>Library functions\<close>

text \<open>\<open>fgets\<close> leaves the buffer as it is when there is nothing to read.\<close>

definition fgets :: "char list \<Rightarrow> nat \<Rightarrow> string \<Rightarrow> char list option" where
  "fgets buf n content =
     (if content = [] then Some buf
      else let l = takeWhile (\<lambda>c. c \<noteq> CHR 0x0A) content; r = dropWhile (\<lambda>c. c \<noteq> CHR 0x0A) content
           in write_chars buf 0 (take (n - 1) (l @ take 1 r) @ [NUL]))"

text \<open>The first token of a string, absent when there is none, and the number a string starts with.\<close>

definition strtok_first :: "string \<Rightarrow> string option" where
  "strtok_first s =
     (let s = dropWhile (\<lambda>c. c = CHR '' '') s in if s = [] then None else Some (takeWhile (\<lambda>c. c \<noteq> CHR '' '') s))"

definition strtol :: "string \<Rightarrow> int" where
  "strtol s =
     (let s = dropWhile is_space s;
          (neg, s) = (case s of c # t \<Rightarrow> if c = CHR ''-'' then (True, t) else if c = CHR ''+'' then (False, t) else (False, s)
                      | [] \<Rightarrow> (False, s));
          v = int (digits_value (takeWhile is_digit s))
      in if neg then max (- (2 ^ 63)) (- v) else min (2 ^ 63 - 1) v)"

definition atoi :: "string \<Rightarrow> 32 word" where
  "atoi s = of_int (strtol s)"

subsection \<open>The two functions\<close>

record control =
  out_text :: string
  killed :: "32 word"
  returned :: u32

definition kill_test_server :: "string option \<Rightarrow> char list \<Rightarrow> control option" where
  "kill_test_server pidof pidline = do {
     let status = SUCCESS;
     fp \<leftarrow> pidof;
     pidline \<leftarrow> fgets pidline 1024 fp;
     s \<leftarrow> c_string pidline;
     pid \<leftarrow> strtok_first s;
     let pidno = atoi pid;
     Some \<lparr>out_text = s @ show_int (sint pidno) @ NL, killed = pidno, returned = status\<rparr> }"

text \<open>
  \<open>fork\<close> returns 0 in the child. The child runs the command until the server ends, and then returns
  from the function to go on with the test; the parent comes to the end of the function without a
  return value.
\<close>

definition start_test_server :: "int \<Rightarrow> string \<times> string list \<times> u32 option" where
  "start_test_server forked =
     (if forked = 0
      then (NL @ TAB @ '' Restarting opof test server'' @ NL @ NL @ TAB @ '' Restarted opof test server'' @ NL,
            [''./bin/opof_server_test >/dev/null 2>&1''], Some 0)
      else ([], [], None))"

subsection \<open>Properties\<close>

text \<open>The output of \<open>pidof\<close> for some processes.\<close>

fun pidof_output :: "nat list \<Rightarrow> string" where
  "pidof_output [] = []"
| "pidof_output [p] = decimal p @ NL"
| "pidof_output (p # ps) = decimal p @ '' '' @ pidof_output ps"

lemma atoi_decimal:
  assumes "n < 2 ^ 31" and "rest = [] \<or> \<not> is_digit (hd rest)"
  shows "atoi (decimal n @ rest) = of_nat n"
proof -
  obtain c ds where s: "decimal n = c # ds" using decimal_digits [of n] by (cases "decimal n") auto
  have d: "is_digit c" "\<forall>d\<in>set ds. is_digit d" using decimal_digits [of n] unfolding s by auto
  have c: "\<not> is_space c" "c \<noteq> CHR ''-''" "c \<noteq> CHR ''+''" using digit_not_special [OF d(1)] by auto
  have tw: "takeWhile is_digit (ds @ rest) = ds" using d(2) assms(2) by (cases rest) (auto simp: takeWhile_append)
  have "strtol (decimal n @ rest) = int n"
    using c d(1) tw decimal_digits [of n] assms(1) unfolding strtol_def s by (simp add: Let_def)
  then show ?thesis by (simp add: atoi_def)
qed

lemma pidof_output_Cons: "\<exists>rest. pidof_output (p # ps) = decimal p @ rest \<and> (rest = NL \<or> (\<exists>t. rest = CHR '' '' # t))"
  by (cases ps) auto

lemma decimal_no: "\<not> is_digit c \<Longrightarrow> c \<notin> set (decimal n)"
  using decimal_digits [of n] by auto

lemma pidof_output_line: "ps \<noteq> [] \<Longrightarrow> \<exists>l. pidof_output ps = l @ NL \<and> CHR 0x0A \<notin> set l \<and> is_string l"
proof (induction ps rule: pidof_output.induct)
  case (2 p)
  then show ?case using decimal_no [of "CHR 0x0A" p] by (auto simp: is_digit_def decimal_string)
next
  case (3 p q ps)
  then obtain l where "pidof_output (q # ps) = l @ NL" "CHR 0x0A \<notin> set l" "is_string l" by auto
  then show ?case using decimal_no [of "CHR 0x0A" p]
    by (intro exI [of _ "decimal p @ '' '' @ l"]) (auto simp: is_digit_def decimal_string NUL_def)
qed simp

lemma fgets_line:
  assumes "length buf = 1024" and "CHR 0x0A \<notin> set l" and "is_string l" and "length l < 1023"
  shows "\<exists>buf'. fgets buf 1024 (l @ NL) = Some buf' \<and> c_string buf' = Some (l @ NL)"
proof -
  have sp: "takeWhile (\<lambda>c. c \<noteq> CHR 0x0A) (l @ NL) = l" "dropWhile (\<lambda>c. c \<noteq> CHR 0x0A) (l @ NL) = NL"
    using assms(2) by (auto simp: NL_def takeWhile_append dropWhile_append)
  have "fgets buf 1024 (l @ NL) = write_chars buf 0 ((l @ NL) @ [NUL])"
    using assms(4) sp by (simp add: fgets_def NL_def)
  also have "\<dots> = Some ((l @ NL) @ NUL # drop (length l + 2) buf)"
    using assms(1,4) by (simp add: write_chars_def NL_def)
  finally show ?thesis using assms(3) c_string_append [of "l @ NL"] by (auto simp: NL_def NUL_def)
qed

text \<open>
  C24: when servers are running, \<open>kill_test_server\<close> kills the process that \<open>pidof\<close>
  lists first and no other. When none is running, nothing is read, and the bytes that happen to
  be in the local buffer decide: any number at all can be the process that is killed, and without a
  NUL or without a token the function reads out of bounds or through a null pointer. It never
  reports a failure.
\<close>

theorem kill_test_server_first:
  assumes "length pidline = 1024" and "p < 2 ^ 31" and "length (pidof_output (p # ps)) < 1024"
    and "is_string s" and "CHR '' '' \<notin> set s" and "s \<noteq> []" and "length s < 1024"
  shows "kill_test_server (Some (pidof_output (p # ps))) pidline =
      Some \<lparr>out_text = pidof_output (p # ps) @ decimal p @ NL, killed = of_nat p, returned = SUCCESS\<rparr> \<and>
    (\<exists>buf. length buf = 1024 \<and> kill_test_server (Some []) buf =
      Some \<lparr>out_text = s @ show_int (sint (atoi s)) @ NL, killed = atoi s, returned = SUCCESS\<rparr>) \<and>
    kill_test_server (Some []) (replicate 1024 NUL) = None \<and>
    (NUL \<notin> set pidline \<longrightarrow> kill_test_server (Some []) pidline = None)"
proof (intro conjI impI)
  obtain l where l: "pidof_output (p # ps) = l @ NL" "CHR 0x0A \<notin> set l" "is_string l"
    using pidof_output_line [of "p # ps"] by auto
  then have "length l < 1023" using assms(3) by (simp add: NL_def)
  then obtain buf where buf: "fgets pidline 1024 (pidof_output (p # ps)) = Some buf" "c_string buf = Some (pidof_output (p # ps))"
    using fgets_line [OF assms(1) l(2,3)] l(1) by auto
  obtain rest where rest: "pidof_output (p # ps) = decimal p @ rest" "rest = NL \<or> (\<exists>t. rest = CHR '' '' # t)"
    using pidof_output_Cons by blast
  have sp: "CHR '' '' \<notin> set (decimal p)" by (rule decimal_no) (simp add: is_digit_def)
  obtain d ds where d: "decimal p = d # ds" using decimal_digits [of p] by (cases "decimal p") auto
  have tok: "strtok_first (pidof_output (p # ps)) = Some (decimal p @ (if rest = NL then NL else []))"
  proof -
    have all: "\<And>c. c \<in> set (decimal p) \<Longrightarrow> c \<noteq> CHR '' ''" using sp by blast
    have "takeWhile (\<lambda>c. c \<noteq> CHR '' '') (decimal p @ rest) = decimal p @ takeWhile (\<lambda>c. c \<noteq> CHR '' '') rest"
      by (rule takeWhile_append2) (rule all)
    moreover have "takeWhile (\<lambda>c. c \<noteq> CHR '' '') rest = (if rest = NL then NL else [])"
      using rest(2) by (auto simp: NL_def)
    moreover have "dropWhile (\<lambda>c. c = CHR '' '') (decimal p @ rest) = decimal p @ rest"
      using all [of d] unfolding d by simp
    ultimately show ?thesis using d unfolding strtok_first_def rest(1) Let_def by simp
  qed
  have at: "atoi (decimal p @ (if rest = NL then NL else [])) = of_nat p"
    by (rule atoi_decimal [OF assms(2)]) (simp add: NL_def is_digit_def)
  have "sint (of_nat p :: 32 word) = int p"
    using assms(2) by (simp add: signed_of_nat signed_take_bit_int_eq_self)
  then show "kill_test_server (Some (pidof_output (p # ps))) pidline =
      Some \<lparr>out_text = pidof_output (p # ps) @ decimal p @ NL, killed = of_nat p, returned = SUCCESS\<rparr>"
    using buf tok at by (simp add: kill_test_server_def Let_def show_int_def)
  have "strtok_first s = Some s"
  proof -
    have "takeWhile (\<lambda>c. c \<noteq> CHR '' '') s = s" using assms(5) by (auto simp: takeWhile_eq_all_conv)
    moreover have "dropWhile (\<lambda>c. c = CHR '' '') s = s" using assms(5,6) by (cases s) auto
    ultimately show ?thesis using assms(6) by (simp add: strtok_first_def Let_def)
  qed
  then show "\<exists>buf. length buf = 1024 \<and> kill_test_server (Some []) buf =
      Some \<lparr>out_text = s @ show_int (sint (atoi s)) @ NL, killed = atoi s, returned = SUCCESS\<rparr>"
    using assms(4,7) by (intro exI [of _ "s @ NUL # replicate (1023 - length s) NUL"])
      (simp add: kill_test_server_def fgets_def Let_def)
  have "replicate 1024 NUL = [] @ NUL # replicate 1023 NUL" using replicate_Suc [of 1023 NUL] by simp
  then have "c_string (replicate 1024 NUL) = Some []" using c_string_append [of "[]"] by (metis is_string_simps(1))
  then show "kill_test_server (Some []) (replicate 1024 NUL) = None"
    by (simp add: kill_test_server_def fgets_def strtok_first_def Let_def del: replicate.simps)
  show "kill_test_server (Some []) pidline = None" if "NUL \<notin> set pidline"
    using that by (simp add: kill_test_server_def fgets_def c_string_def)
qed

lemma kill_test_server_first_witness:
  "kill_test_server (Some (pidof_output [4711, 99])) (replicate 1024 CHR ''x'') =
     Some \<lparr>out_text = pidof_output [4711, 99] @ decimal 4711 @ NL, killed = 4711, returned = SUCCESS\<rparr> \<and>
   (\<exists>buf. length buf = 1024 \<and> map_option killed (kill_test_server (Some []) buf) = Some (atoi ''-1''))"
proof -
  have "length (pidof_output [4711, 99]) < 1024" by (simp add: decimal.simps NL_def)
  then show ?thesis
    using kill_test_server_first [of "replicate 1024 CHR ''x''" 4711 "[99]" "''-1''"] by (auto simp: NUL_def)
qed

end
