(* ===== verification/Response_Types.thy ===== *)
theory Response_Types
  imports Server_Backend
begin

text \<open>
  The types of the values that the service sends. A C enumeration holds any \<open>int\<close>, an open protobuf
  enumeration as well, and the conversions cast without a check; so that the codes of a response
  are enumerators of \<open>include/opof.h\<close> is a property of the program, shown here for what the handlers
  of \<open>src/opof_session_server.cc\<close> answer over the store, as the client converts it.
\<close>

definition typed_response :: "sessionResponse_t \<Rightarrow> bool" where
  "typed_response r \<longleftrightarrow> rsp_sessionState r \<in> range state_code \<and> rsp_sessionCloseCode r \<in> range close_code \<and>
     rsp_requestStatus r \<in> range request_code"

text \<open>A message is typed when the struct is that the client makes of it.\<close>

definition typed_message :: "pb_sessionResponse \<Rightarrow> bool" where
  "typed_message m \<longleftrightarrow> (\<forall>c. typed_response (convertSessionResponse2c m c))"

lemma typed_convert [simp]:
  "typed_message (convertSessionResponse2cpp m c) \<longleftrightarrow> typed_response c"
  "typed_message (sessionInfo_of c) \<longleftrightarrow> typed_response c"
  by (simp_all add: typed_message_def typed_response_def convertSessionResponse2c_def convertSessionResponse2cpp_def sessionInfo_of_def)

lemma typed_closed_message: "typed_response c \<Longrightarrow> typed_message (closed_message c m)"
  by (simp add: typed_message_def typed_response_def convertSessionResponse2c_def closed_message_def del: request_code.simps)

text \<open>Sessions as they are recorded give typed responses.\<close>

lemma typed_got: "session_inv r \<Longrightarrow> typed_response (got_response r)"
  by (simp add: session_inv_def typed_response_def got_response_def
      del: state_code.simps close_code.simps request_code.simps)

lemma typed_deleted: "session_inv r \<Longrightarrow> typed_response ((got_response r)\<lparr>rsp_sessionState := state_code CLOSED\<rparr>)"
  by (simp add: session_inv_def typed_response_def got_response_def
      del: state_code.simps close_code.simps request_code.simps)

lemma typed_listing: "\<forall>r\<in>set T. session_inv r \<Longrightarrow> \<forall>c\<in>set (listing g T). typed_response c"
  by (induction T arbitrary: g)
    (auto simp: session_inv_def typed_response_def listed_def split: prod.split
      simp del: state_code.simps close_code.simps request_code.simps)

lemma overwrite_nth: "i < length xs \<Longrightarrow> overwrite ys 0 xs ! i = xs ! i"
  by (simp add: overwrite_def nth_append)

text \<open>A state fixes the table it holds.\<close>

lemma list_all2_holds_unique:
  "list_all2 (holds h) as T \<Longrightarrow> list_all2 (holds h) as T' \<Longrightarrow> T = T'"
proof (induction as T arbitrary: T' rule: list_all2_induct)
  case (Cons a as r T)
  then obtain r' T1 where T': "T' = r' # T1" "holds h a r'" "list_all2 (holds h) as T1" by (cases T') simp_all
  then have "r = r'" using Cons.hyps(1) by (auto simp: holds_def)
  then show ?case using Cons.IH [OF T'(3)] T'(1) by simp
qed simp

lemma server_inv_unique: "server_inv s T \<Longrightarrow> server_inv s T' \<Longrightarrow> T = T'"
proof -
  assume "server_inv s T" "server_inv s T'"
  then obtain as as' where "store_rel s as T" "store_rel s as' T'" by (auto simp: server_inv_def)
  moreover from this have "as = as'" using ut_inv_unique [of "ut s" as as'] by (simp add: store_rel_def)
  ultimately show "T = T'" unfolding store_rel_def by (blast intro: list_all2_holds_unique)
qed

lemma find_session_inv: "table_inv T \<Longrightarrow> find P T = Some r \<Longrightarrow> session_inv r"
  unfolding table_inv_def using find_SomeD by metis

lemma getSession_typed:
  assumes "server_inv s T" and "table_inv T"
    and "getSession opof_get_session_server cancelled c k m s = Some (st, m', s')" and "error_code st = OK"
  shows "typed_message m'"
proof -
  obtain as where rel: "store_rel s as T" using assms(1) by (auto simp: server_inv_def)
  show ?thesis
    using assms(3,4) get_session_refines [OF rel, of k c] find_session_inv [OF assms(2), of "\<lambda>r. key r = k"]
    by (auto simp: getSession_def Status_cancelled_def typed_got split: if_splits option.splits
        simp del: state_code.simps close_code.simps request_code.simps)
qed

lemma deleteSession_typed:
  assumes "server_inv s T" and "table_inv T"
    and "deleteSession opof_del_session_server cancelled c k m s = Some (st, m', s')" and "error_code st = OK"
  shows "typed_message m'"
  using assms(3,4) del_session_refines [of s _ T k c] assms(1) find_session_inv [OF assms(2), of "\<lambda>r. key r = k"]
  by (fastforce simp: server_inv_def deleteSession_def Status_cancelled_def typed_deleted split: if_splits option.splits
      simp del: state_code.simps close_code.simps request_code.simps)

lemma getClosedSessions_typed:
  assumes "server_inv s T" and "table_inv T"
    and "getClosedSessions opof_get_closed_sessions_server cancelled uninit page q s = Some (st, ms, s')"
  shows "\<forall>m\<in>set ms. typed_message m"
proof (cases cancelled)
  case True
  then show ?thesis using assms(3) by (simp add: getClosedSessions_def)
next
  case False
  let ?q = "\<lparr>stat_pageSize = pb_pageSize q, stat_page = page\<rparr>" and ?cs = "map uninit [0..<BUFFER_MAX]"
  let ?R = "reported (sint (stat_pageSize ?q)) T"
  let ?cs' = "overwrite ?cs 0 (listing (gen s) ?R)"
  obtain as where rel: "store_rel s as T" using assms(1) by (auto simp: server_inv_def)
  have r: "length ?R \<le> length ?cs" "\<exists>s1. opof_get_closed_sessions_server ?q ?cs s = Some (length ?R, ?cs', s1)"
    using get_closed_refines [OF rel, of ?q ?cs] assms(3) False by (auto simp: getClosedSessions_def Let_def split: if_splits)
  have "\<forall>r\<in>set ?R. session_inv r" using assms(2) reported_subset [of "sint (stat_pageSize ?q)" T] by (auto simp: table_inv_def)
  then have t: "typed_response (?cs' ! i)" if "i < length ?R" for i
    using typed_listing [of ?R "gen s"] that by (simp add: overwrite_nth)
  have "length ?cs' = length ?cs" using r(1) by simp
  then have w: "write_closed ?cs' [0..<length ?R] default_sessionResponse =
      Some (map (\<lambda>i. closed_message (?cs' ! i) default_sessionResponse) [0..<length ?R])"
    using write_closed_ok [of "[0..<length ?R]" ?cs'] r(1) by simp
  have "ms = [] \<or> ms = map (\<lambda>i. closed_message (?cs' ! i) default_sessionResponse) [0..<length ?R]"
    using assms(3) False r(2) w by (auto simp: getClosedSessions_def Let_def split: if_splits)
  then show ?thesis using t by (auto simp: typed_closed_message)
qed

lemma getAllSessions_typed:
  assumes "server_at s T pos" and "table_inv T"
    and "getAllSessions opof_get_all_sessions_server cancelled uninit q default_sessionResponses s = Some (st, ms, s')"
  shows "\<forall>m\<in>set (pb_sessionInfo ms). typed_message m"
proof (cases cancelled)
  case True
  then show ?thesis using assms(3) by (auto simp: getAllSessions_def default_sessionResponses_def)
next
  case False
  let ?cs = "map uninit [0..<BUFFER_MAX]" and ?page = "take BUFFER_MAX (drop (if pb_startSession q = UINT_MAX then 0 else pos) T)"
  let ?cs' = "overwrite ?cs 0 (listing (gen s) ?page)"
  obtain s1 where r: "opof_get_all_sessions_server (int BUFFER_MAX) (pb_startSession q) 0 ?cs s =
      Some (length ?page, last (pb_startSession q # map key ?page), ?cs', s1)"
    using page_correct [OF assms(1), of "int BUFFER_MAX" ?cs "pb_startSession q" 0] by (auto simp: BUFFER_MAX_def)
  have "\<forall>r\<in>set ?page. session_inv r" using assms(2) by (auto simp: table_inv_def dest!: in_set_takeD in_set_dropD)
  then have t: "typed_response (?cs' ! i)" if "i < length ?page" for i
    using typed_listing [of ?page "gen s"] that by (simp add: overwrite_nth)
  have "length ?cs' = length ?cs" by simp
  then have "pb_sessionInfo ms = map (\<lambda>i. sessionInfo_of (?cs' ! i)) [0..<length ?page]"
    using assms(3) False r add_sessionInfos_ok [of "[0..<length ?page]" ?cs']
    by (auto simp: getAllSessions_def Let_def default_sessionResponses_def)
  then show ?thesis using t by auto
qed

text \<open>
  What \<open>addSession\<close> reports is different: the code in an error is a status of the device, not an enumerator
  of \<open>ADD_SESSION_STATUS\<close>.
\<close>

lemma addSession_loop_codes:
  assumes "store_rel s as T" and "addSession_loop opof_add_session_server cancelled i ms c m s = Some (st, m', s')"
    and "\<forall>e\<in>set (pb_responseError m). pbe_errorStatus e \<in> status_code ` {ALREADY_EXISTS, RESOURCE_EXHAUSTED}"
  shows "\<forall>e\<in>set (pb_responseError m'). pbe_errorStatus e \<in> status_code ` {ALREADY_EXISTS, RESOURCE_EXHAUSTED}"
  using assms
proof (induction ms arbitrary: i c m s as T)
  case (Cons r ms)
  obtain c1 where c1: "convertSessionRequest2c r c = Some c1" using Cons.prems(2) by (auto simp: bind_eq_Some_conv)
  show ?case
  proof (cases "cancelled i")
    case True
    then show ?thesis using Cons.prems(2,3) c1 by simp
  next
    case False
    let ?st = "fst (spec_add c1 (T, gen s))"
    obtain s1 as1 where s1: "opof_add_session_server c1 s = Some (status_code ?st, s1)"
      "store_rel s1 as1 (fst (snd (spec_add c1 (T, gen s))))"
      using add_session_refines [OF Cons.prems(1), of c1] by blast
    let ?m = "if ?st = OK then m else m\<lparr>pb_responseError := pb_responseError m @
        [\<lparr>pbe_sessionId = pb_sessionId r, pbe_errorStatus = status_code ?st\<rparr>]\<rparr>"
    have "?st \<in> {OK, ALREADY_EXISTS, RESOURCE_EXHAUSTED}" by (simp add: spec_add_def)
    then have "\<forall>e\<in>set (pb_responseError ?m). pbe_errorStatus e \<in> status_code ` {ALREADY_EXISTS, RESOURCE_EXHAUSTED}"
      using Cons.prems(3) by (auto simp del: status_code.simps)
    moreover have "addSession_loop opof_add_session_server cancelled (i + 1) ms c1 ?m s1 = Some (st, m', s')"
      using Cons.prems(2) c1 False s1(1) by (simp split: if_splits del: status_code.simps)
    ultimately show ?thesis by (rule Cons.IH [OF s1(2), rotated])
  qed
qed simp

lemma status_not_add_status:
  "status_code ALREADY_EXISTS \<notin> range add_status_code" "status_code RESOURCE_EXHAUSTED \<notin> range add_status_code"
proof -
  have "add_status_code x \<in> {0, 1, 2, 3, 4}" for x by (cases x) simp_all
  then have "range add_status_code \<subseteq> {0, 1, 2, 3, 4}" by blast
  then show "status_code ALREADY_EXISTS \<notin> range add_status_code" "status_code RESOURCE_EXHAUSTED \<notin> range add_status_code"
    by auto
qed

lemma addSession_codes:
  assumes "server_inv s T" and "addSession opof_add_session_server cancelled c ms m s = Some (st, m', s')"
    and "e \<in> set (pb_responseError m')"
  shows "pbe_errorStatus e \<in> status_code ` {ALREADY_EXISTS, RESOURCE_EXHAUSTED} \<and> pbe_errorStatus e \<notin> range add_status_code"
proof -
  obtain as where "store_rel s as T" using assms(1) by (auto simp: server_inv_def)
  from addSession_loop_codes [OF this assms(2) [unfolded addSession_def]] assms(3)
  have "pbe_errorStatus e \<in> status_code ` {ALREADY_EXISTS, RESOURCE_EXHAUSTED}" by simp
  then show ?thesis using status_not_add_status by (auto simp del: status_code.simps)
qed

text \<open>
  C15: in every reachable state the codes of the responses that the handlers
  send are enumerators of their types, whatever the structs they are written to contained before:
  the answers to get and delete with status \<open>OK\<close>, every message of the stream of closed sessions, and
  every message of a page, at any position of the cursor in the table. The fifth handler is the exception:
  every error that \<open>addSession\<close> reports, for whatever stream of requests and whenever it is cancelled, has the code
  \<open>_ALREADY_EXISTS\<close> or \<open>_RESOURCE_EXHAUSTED\<close> of \<open>SESSION_STATUS_T\<close>, and never an enumerator of
  \<open>ADD_SESSION_STATUS_T\<close>, the type that is documented for the errors of adding a session.
\<close>

theorem responses_typed:
  assumes "server_reachable g s"
  shows "(\<forall>cancelled c k m st m' s'. getSession opof_get_session_server cancelled c k m s = Some (st, m', s') \<longrightarrow>
      error_code st = OK \<longrightarrow> typed_message m') \<and>
    (\<forall>cancelled c k m st m' s'. deleteSession opof_del_session_server cancelled c k m s = Some (st, m', s') \<longrightarrow>
      error_code st = OK \<longrightarrow> typed_message m') \<and>
    (\<forall>cancelled uninit page q st ms s'.
      getClosedSessions opof_get_closed_sessions_server cancelled uninit page q s = Some (st, ms, s') \<longrightarrow>
      (\<forall>m\<in>set ms. typed_message m)) \<and>
    (\<forall>cancelled uninit q st ms s' T pos. server_at s T pos \<longrightarrow>
      getAllSessions opof_get_all_sessions_server cancelled uninit q default_sessionResponses s = Some (st, ms, s') \<longrightarrow>
      (\<forall>m\<in>set (pb_sessionInfo ms). typed_message m)) \<and>
    (\<forall>cancelled c ms m st m' s'. addSession opof_add_session_server cancelled c ms m s = Some (st, m', s') \<longrightarrow>
      (\<forall>e\<in>set (pb_responseError m'). pbe_errorStatus e \<in> status_code ` {ALREADY_EXISTS, RESOURCE_EXHAUSTED} \<and>
        pbe_errorStatus e \<notin> range add_status_code))"
proof -
  obtain T where T: "server_inv s T" "table_inv T" using server_reachable_inv [OF assms] by blast
  have at: "table_inv T'" if "server_at s T' pos" for T' pos
    using server_inv_unique [OF T(1) server_at_inv [OF that]] T(2) by simp
  show ?thesis
  proof (intro conjI)
    show "\<forall>cancelled c ms m st m' s'. addSession opof_add_session_server cancelled c ms m s = Some (st, m', s') \<longrightarrow>
        (\<forall>e\<in>set (pb_responseError m'). pbe_errorStatus e \<in> status_code ` {ALREADY_EXISTS, RESOURCE_EXHAUSTED} \<and>
          pbe_errorStatus e \<notin> range add_status_code)"
      using addSession_codes [OF T(1)] by blast
  qed (intro allI impI; rule getSession_typed [OF T] deleteSession_typed [OF T]
      getClosedSessions_typed [OF T] getAllSessions_typed [OF _ at]; assumption)+
qed

text \<open>Session 2 is read with typed codes, and adding it again is reported with the code 6.\<close>

lemma responses_typed_witness:
  "\<exists>s st m s' m1 s1. run_all add_ok (map ex_request [1, 2, 3]) (server_init ex_rng) = Some s \<and>
     getSession opof_get_session_server False ex_rsp 2 default_sessionResponse s = Some (st, m, s') \<and>
     error_code st = OK \<and> typed_message m \<and>
     addSession opof_add_session_server (\<lambda>_. False) (ex_request 0) [ex_message 2] default_addSessionResponse s =
       Some (Status_OK, m1, s1) \<and>
     pb_responseError m1 = [\<lparr>pbe_sessionId = 2, pbe_errorStatus = 6\<rparr>] \<and> 6 \<notin> range add_status_code"
proof -
  obtain s where s: "run_all add_ok (map ex_request [1, 2, 3]) (server_init ex_rng) = Some s"
    and h: "holds_ids s [1, 2, 3]" by (rule ex_holds)
  note typed = responses_typed [OF ex_reachable [OF s server_reachable.init]]
  obtain m where m: "getSession opof_get_session_server False ex_rsp 2 default_sessionResponse s = Some (Status_OK, m, s)"
    using store.getSession_ok [OF h, of 2 ex_rsp default_sessionResponse] by auto
  have "error_code Status_OK = OK" by (simp add: Status_OK_def)
  with conjunct1 [OF typed] m have t: "typed_message m" by blast
  have "\<forall>m\<in>set [ex_message 2]. wf_message m" by simp
  let ?m1 = "default_addSessionResponse\<lparr>pb_responseError := rejects HASHTABLE_SIZE [1, 2, 3] (map pb_sessionId [ex_message 2])\<rparr>"
  from store.addSession_all [OF h \<open>\<forall>m\<in>set [ex_message 2]. wf_message m\<close>, of "\<lambda>_. False" "ex_request 0" default_addSessionResponse]
  obtain s1 where a: "addSession opof_add_session_server (\<lambda>_. False) (ex_request 0) [ex_message 2] default_addSessionResponse s =
      Some (Status_OK, ?m1, s1)" by blast
  have e: "pb_responseError ?m1 = [\<lparr>pbe_sessionId = 2, pbe_errorStatus = 6\<rparr>]"
    by (simp add: admit_status_def HASHTABLE_SIZE_def)
  from typed a have "\<forall>e\<in>set (pb_responseError ?m1). pbe_errorStatus e \<notin> range add_status_code" by blast
  then have "6 \<notin> range add_status_code" unfolding e by simp
  moreover have "error_code Status_OK = OK" by (simp add: Status_OK_def)
  ultimately show ?thesis using s m t a e by blast
qed

end
