(* ===== verification/Interleaving.thy ===== *)
theory Interleaving
  imports Server_Backend "HOL-Library.Multiset"
begin

text \<open>
  Several calls of \<open>addSession\<close> at once. The server of \<open>src/opof_server.cc\<close> handles calls in up to
  20 polling threads, so the loops of several handlers (\<open>src/opof_session_server.cc\<close>) run
  interleaved. First each call of the device is taken as one step, in which case the handlers
  agree on who adds a session, whatever the interleaving; nothing in the server makes it so: there
  is no lock around the device, and \<open>Race\<close> has what happens between the lookup and the insertion.
\<close>

subsection \<open>Handlers as a transition system\<close>

text \<open>
  A handler in the loop of \<open>addSession\<close>: the messages it has not read, the struct it converts
  them to, and its response.
\<close>

record add_handler =
  reader :: "pb_sessionRequest list"
  request_c :: sessionRequest_t
  response :: pb_addSessionResponse

text \<open>The body of the loop for one message, when the call is not cancelled.\<close>

definition add_iteration ::
  "(sessionRequest_t \<Rightarrow> 's \<Rightarrow> (u32 \<times> 's) option) \<Rightarrow> add_handler \<Rightarrow> 's \<Rightarrow> (add_handler \<times> 's) option" where
  "add_iteration add_server h s = (case reader h of
       [] \<Rightarrow> None
     | request # rest \<Rightarrow> do {
         c \<leftarrow> convertSessionRequest2c request (request_c h);
         (status, s) \<leftarrow> add_server c s;
         let resp =
           (if status \<noteq> status_code OK
            then (response h)\<lparr>pb_responseError := pb_responseError (response h) @
                   [\<lparr>pbe_sessionId = pb_sessionId request, pbe_errorStatus = status\<rparr>]\<rparr>
            else response h);
         Some (\<lparr>reader = rest, request_c = c, response = resp\<rparr>, s) })"

text \<open>Any handler with a message to read may go on.\<close>

inductive handlers_step ::
  "(sessionRequest_t \<Rightarrow> 's \<Rightarrow> (u32 \<times> 's) option) \<Rightarrow> add_handler list \<times> 's \<Rightarrow> add_handler list \<times> 's \<Rightarrow> bool"
  for add_server where
  turn: "i < length hs \<Longrightarrow> add_iteration add_server (hs ! i) s = Some (h, s') \<Longrightarrow>
    handlers_step add_server (hs, s) (hs[i := h], s')"

inductive_cases handlers_stepE: "handlers_step add_server (hs, s) cfg"

text \<open>A handler that runs alone is the loop of \<open>addSession\<close>.\<close>

lemma handler_alone:
  assumes "addSession_loop add_server (\<lambda>_. False) i (reader h) (request_c h) (response h) s = Some (st, r, s')"
  shows "\<exists>h'. (handlers_step add_server ^^ length (reader h)) ([h], s) ([h'], s') \<and> st = Status_OK \<and> response h' = r \<and> reader h' = []"
  using assms
proof (induction "reader h" arbitrary: h i s)
  case Nil
  then show ?case by auto
next
  case (Cons m ms)
  note rd = Cons.hyps(2) [symmetric]
  obtain c st1 s1 where c: "convertSessionRequest2c m (request_c h) = Some c" and a: "add_server c s = Some (st1, s1)"
    using Cons.prems unfolding rd by (auto simp: bind_eq_Some_conv)
  define h1 where "h1 = \<lparr>reader = ms, request_c = c, response = (if st1 \<noteq> status_code OK
      then (response h)\<lparr>pb_responseError := pb_responseError (response h) @ [\<lparr>pbe_sessionId = pb_sessionId m, pbe_errorStatus = st1\<rparr>]\<rparr>
      else response h)\<rparr>"
  have it: "add_iteration add_server h s = Some (h1, s1)"
    using c a by (simp add: add_iteration_def rd h1_def del: status_code.simps)
  have "addSession_loop add_server (\<lambda>_. False) (i + 1) (reader h1) (request_c h1) (response h1) s1 = Some (st, r, s')"
    using Cons.prems c a unfolding rd by (simp add: h1_def del: status_code.simps)
  from Cons.hyps(1) [OF _ this] obtain h' where h': "(handlers_step add_server ^^ length ms) ([h1], s1) ([h'], s')"
      "st = Status_OK" "response h' = r" "reader h' = []" by (auto simp: h1_def)
  have "handlers_step add_server ([h], s) ([h1], s1)" using turn [of 0 "[h]" add_server s h1 s1] it by simp
  then have "(handlers_step add_server ^^ Suc (length ms)) ([h], s) ([h'], s')" using h'(1) by (rule relpowp_Suc_I2)
  then show ?case unfolding rd using h'(2-4) by auto
qed

subsection \<open>What the handlers agree on\<close>

text \<open>The ids that have not been read, and those that have been refused, over all handlers.\<close>

definition pending :: "add_handler list \<Rightarrow> u64 multiset" where
  "pending hs = mset (concat (map (\<lambda>h. map pb_sessionId (reader h)) hs))"

definition handler_errors :: "add_handler list \<Rightarrow> pb_sessionResponseError list" where
  "handler_errors hs = concat (map (\<lambda>h. pb_responseError (response h)) hs)"

definition refused :: "add_handler list \<Rightarrow> u64 multiset" where
  "refused hs = mset (map pbe_sessionId (handler_errors hs))"

lemma mset_concat_update:
  "i < length hs \<Longrightarrow> mset (concat (map f (hs[i := h]))) + mset (f (hs ! i)) = mset (concat (map f hs)) + mset (f h)"
proof (induction hs arbitrary: i)
  case (Cons x hs)
  then show ?case by (cases i) (auto simp: ac_simps)
qed simp

lemma pending_update:
  assumes "i < length hs"
  shows "pending (hs[i := h]) + mset (map pb_sessionId (reader (hs ! i))) = pending hs + mset (map pb_sessionId (reader h))"
  unfolding pending_def by (rule mset_concat_update [OF assms])

lemma errors_update:
  assumes "i < length hs"
  shows "mset (handler_errors (hs[i := h])) + mset (pb_responseError (response (hs ! i))) =
    mset (handler_errors hs) + mset (pb_responseError (response h))"
  unfolding handler_errors_def by (rule mset_concat_update [OF assms])

lemma refused_eq: "refused hs = image_mset pbe_sessionId (mset (handler_errors hs))"
  by (simp add: refused_def)

text \<open>
  What holds after any steps from a device with \<open>ids\<close> and handlers with the ids \<open>P\<close> to read: the
  sessions \<open>new\<close> have been added, and every id that was read was added or refused, because it was
  there.
\<close>

definition agreed :: "u64 list \<Rightarrow> u64 multiset \<Rightarrow> add_handler list \<Rightarrow> u64 list \<Rightarrow> bool" where
  "agreed ids P hs new \<longleftrightarrow> pending hs + refused hs + mset new = P \<and> set new \<inter> set ids = {} \<and> distinct new \<and>
     (\<forall>e\<in>set (handler_errors hs). pbe_errorStatus e = status_code ALREADY_EXISTS \<and> pbe_sessionId e \<in> set (ids @ new)) \<and>
     (\<forall>h\<in>set hs. \<forall>m\<in>set (reader h). wf_message m)"

lemma agreed_room:
  assumes "agreed ids P hs new" and "distinct ids" and "card (set ids \<union> set_mset P) \<le> limit"
  shows "length (ids @ new) \<le> limit"
proof -
  have d: "distinct (ids @ new)" using assms(1,2) by (auto simp: agreed_def)
  have "set new \<subseteq> set_mset P" using assms(1) unfolding agreed_def by auto
  then have "card (set (ids @ new)) \<le> card (set ids \<union> set_mset P)" by (intro card_mono) auto
  then show ?thesis using assms(3) distinct_card [OF d] by simp
qed

context session_backend begin

lemma handlers_step_agreed:
  assumes "handlers_step add_server (hs, s) (hs', s')" and inv: "inv s (ids @ new)" and agr: "agreed ids P hs new"
    and cap: "card (set ids \<union> set_mset P) \<le> limit"
  shows "\<exists>new'. inv s' (ids @ new') \<and> agreed ids P hs' new' \<and> size (pending hs) = Suc (size (pending hs'))"
  using assms(1)
proof (rule handlers_stepE)
  fix i h s1 assume cfg: "(hs', s') = (hs[i := h], s1)" and i: "i < length hs" and it: "add_iteration add_server (hs ! i) s = Some (h, s1)"
  obtain m ms c st where m: "reader (hs ! i) = m # ms" and c: "convertSessionRequest2c m (request_c (hs ! i)) = Some c"
    and a: "add_server c s = Some (st, s1)"
    and h: "h = \<lparr>reader = ms, request_c = c, response = (if st \<noteq> status_code OK
        then (response (hs ! i))\<lparr>pb_responseError := pb_responseError (response (hs ! i)) @
          [\<lparr>pbe_sessionId = pb_sessionId m, pbe_errorStatus = st\<rparr>]\<rparr>
        else response (hs ! i))\<rparr>"
    using it by (auto simp: add_iteration_def bind_eq_Some_conv Let_def split: list.splits simp del: status_code.simps)
  let ?k = "pb_sessionId m"
  have mem: "hs ! i \<in> set hs" using i by simp
  have wf: "wf_message m" "\<forall>m\<in>set ms. wf_message m" using agr mem m unfolding agreed_def by force+
  have key: "sessId c = ?k" using convert_wf [OF wf(1), of "request_c (hs ! i)"] c by simp
  have p: "pending hs = pending hs' + {#?k#}"
    using pending_update [OF i, of h] cfg by (simp add: m h)
  have wf': "\<forall>h\<in>set hs'. \<forall>m\<in>set (reader h). wf_message m"
    using agr wf(2) cfg set_update_subset_insert [of hs i h] unfolding agreed_def h by fastforce
  have d: "distinct ids" using inv_distinct [OF inv] by simp
  let ?st = "admit_status limit (ids @ new) ?k"
  have st: "st = status_code ?st" and inv': "inv s' (if ?st = OK then (ids @ new) @ [?k] else ids @ new)"
    using add_law [OF inv, of c] a key cfg by auto
  have room: "length (ids @ new) \<le> limit" by (rule agreed_room [OF agr d cap])
  show ?thesis
  proof (cases "?k \<in> set (ids @ new)")
    case False
    then have ok: "?st = OK" using room by (simp add: admit_status_def)
    then have "mset (handler_errors hs') = mset (handler_errors hs)"
      using errors_update [OF i, of h] cfg by (simp add: h st)
    then have e: "refused hs' = refused hs" "set (handler_errors hs') = set (handler_errors hs)"
      unfolding refused_eq by (simp_all, metis set_mset_mset)
    have "agreed ids P hs' (new @ [?k])"
      using agr wf' False p e unfolding agreed_def by (auto simp: ac_simps)
    then show ?thesis using inv' ok p by (intro exI [of _ "new @ [?k]"]) simp
  next
    case True
    then have st': "?st = ALREADY_EXISTS" using room by (simp add: admit_status_def)
    let ?e = "\<lparr>pbe_sessionId = ?k, pbe_errorStatus = status_code ALREADY_EXISTS\<rparr>"
    have "status_code ALREADY_EXISTS \<noteq> status_code OK" by simp
    then have "mset (handler_errors hs') = add_mset ?e (mset (handler_errors hs))"
      using errors_update [OF i, of h] cfg unfolding h st st' by (simp del: status_code.simps)
    then have e: "refused hs' = add_mset ?k (refused hs)" "set (handler_errors hs') = insert ?e (set (handler_errors hs))"
      unfolding refused_eq by (simp_all, metis set_mset_add_mset_insert set_mset_mset)
    have "agreed ids P hs' new"
      using agr wf' True p e unfolding agreed_def by (auto simp: ac_simps)
    then show ?thesis using inv' st' p by (intro exI [of _ new]) simp
  qed
qed

lemma handlers_steps_agreed:
  assumes "(handlers_step add_server ^^ n) (hs, s) (hs', s')" and "inv s (ids @ new)" and "agreed ids P hs new"
    and "card (set ids \<union> set_mset P) \<le> limit"
  shows "\<exists>new'. inv s' (ids @ new') \<and> agreed ids P hs' new' \<and> size (pending hs) = n + size (pending hs')"
  using assms(1-3)
proof (induction n arbitrary: hs s new)
  case (Suc n)
  obtain hs1 s1 where 1: "handlers_step add_server (hs, s) (hs1, s1)" and n: "(handlers_step add_server ^^ n) (hs1, s1) (hs', s')"
    using relpowp_Suc_D2 [OF Suc.prems(1)] by fastforce
  obtain new1 where i1: "inv s1 (ids @ new1)" "agreed ids P hs1 new1" "size (pending hs) = Suc (size (pending hs1))"
    using handlers_step_agreed [OF 1 Suc.prems(2,3) assms(4)] by blast
  from Suc.IH [OF n i1(1,2)] i1(3) show ?case by auto
qed auto

text \<open>No handler blocks: one that has a message to read can go on.\<close>

lemma handlers_progress:
  assumes "inv s (ids @ new)" and "agreed ids P hs new" and "i < length hs" and "reader (hs ! i) \<noteq> []"
  shows "\<exists>cfg. handlers_step add_server (hs, s) cfg"
proof -
  obtain m ms where m: "reader (hs ! i) = m # ms" using assms(4) by (cases "reader (hs ! i)") auto
  have "wf_message m" using assms(2,3) m unfolding agreed_def by (metis list.set_intros(1) nth_mem)
  then obtain c where c: "convertSessionRequest2c m (request_c (hs ! i)) = Some c" using convert_wf by blast
  obtain st s' where "add_server c s = Some (st, s')" using add_law [OF assms(1), of c] by blast
  then obtain h where it: "add_iteration add_server (hs ! i) s = Some (h, s')" using m c by (simp add: add_iteration_def)
  show ?thesis by (rule exI) (rule turn [OF assms(3) it])
qed

end






end
