(* ===== verification/Race.thy ===== *)
theory Race
  imports Server_Backend
begin

text \<open>
  Two threads in \<open>opof_add_session_server\<close> (\<open>src/opof_server_test.c\<close>) at once. The function is cut
  where it has looked the session up and not yet inserted it. The server calls it from up to 20
  polling threads (\<open>src/opof_server.cc\<close>) without a lock, so both threads can find that a session
  is not there, and both insert it.
\<close>

subsection \<open>The two halves\<close>

text \<open>The status when the request is refused, else the record that has been allocated for it.\<close>

definition add_lookup :: "sessionRequest_t \<Rightarrow> server \<Rightarrow> ((u32 + addr) \<times> server) option" where
  "add_lookup parameters s = do {
     let (r, s) = alloc_record s;
     num_sessions \<leftarrow> HASH_COUNT (ut s);
     if HASHTABLE_SIZE < num_sessions
     then Some (Inl (status_code RESOURCE_EXHAUSTED), s)
     else do {
       f \<leftarrow> HASH_FIND (ut s) (sessId parameters);
       if f \<noteq> None
       then Some (Inl (status_code ALREADY_EXISTS), s)
       else Some (Inr r, s) } }"

definition add_insert :: "sessionRequest_t \<Rightarrow> addr \<Rightarrow> server \<Rightarrow> (u32 \<times> server) option" where
  "add_insert parameters r s = do {
     s \<leftarrow> update_record r (\<lambda>m. m\<lparr>key := sessId parameters\<rparr>) s;
     u \<leftarrow> HASH_ADD r (ut s);
     let s = s\<lparr>ut := u\<rparr>;
     s \<leftarrow> update_record r (\<lambda>m. m\<lparr>
            inLif := inlif parameters,
            outLif := outlif parameters,
            ipVersion := ipver parameters,
            sourceIp := srcIP parameters,
            sourcePort := ucast (srcPort parameters),
            dstIp := dstIP parameters,
            rec_dstPort := ucast (dstPort parameters)\<rparr>) s;
     ((inp, outp, inb, outb), g) \<leftarrow> draw_stats (gen s);
     s \<leftarrow> update_record r (\<lambda>m. m\<lparr>
            inPackets := of_int inp,
            outPackets := of_int outp,
            inBytes := of_int inb,
            outBytes := of_int outb,
            protocolId := proto parameters,
            sessionState := state_code CLOSED,
            sessionClose := close_code NOT_CLOSED,
            actionValue := action_code FORWARD\<rparr>) (s\<lparr>gen := g\<rparr>);
     Some (status_code OK, s) }"

text \<open>One after the other, the halves are the function.\<close>

lemma add_halves:
  "opof_add_session_server p s = do {
     (x, s) \<leftarrow> add_lookup p s;
     case x of Inl st \<Rightarrow> Some (st, s) | Inr r \<Rightarrow> add_insert p r s }"
  by (simp add: opof_add_session_server_def add_lookup_def add_insert_def Let_def split: prod.split)
    (auto simp: add_insert_def intro!: Option.bind_cong split: prod.split)

subsection \<open>The halves on linked elements\<close>

lemma add_lookup_free:
  assumes inv: "ut_inv (ut s) as" and free: "records s (brk s) = None"
    and room: "length as \<le> HASHTABLE_SIZE" and new: "\<forall>a\<in>set as. key_at (records s) a \<noteq> Some (sessId p)"
  shows "\<exists>s'. add_lookup p s = Some (Inr (brk s), s') \<and> ut_inv (ut s') as \<and> brk s' = Suc (brk s) \<and>
    records s' = (records s)(brk s \<mapsto> zero_record)"
proof -
  let ?s = "snd (alloc_record s)"
  have notin: "brk s \<notin> set as" using inv free by (auto simp: ut_inv_def elems_def)
  have h: "records ?s = (records s)(brk s \<mapsto> zero_record)" by (simp add: alloc_record_def)
  have inv': "ut_inv (ut ?s) as"
    unfolding alloc_record_def snd_conv by (rule ut_inv_set_heap) (use inv notin in auto)
  have "find (\<lambda>a. key_at (records ?s) a = Some (sessId p)) as = None"
    using new notin unfolding h by (auto simp: find_None_iff key_at_def)
  then have "HASH_FIND (ut ?s) (sessId p) = Some None" using HASH_FIND_ok [OF inv', of "sessId p"] by simp
  then have "add_lookup p s = Some (Inr (brk s), ?s)"
    using HASH_COUNT_ok [OF inv'] room by (subst add_lookup_def, subst alloc_record_eq) simp
  then show ?thesis using inv' h by simp
qed

text \<open>Updating the fields of a linked record that the table does not use.\<close>

lemma update_linked:
  assumes lnk: "ut_linked (ut s) as" and m: "records s r = Some m"
    and f: "\<And>m. ut_node.truncate (f m) = ut_node.truncate m"
  shows "\<exists>s'. update_record r f s = Some s' \<and> ut_linked (ut s') as \<and>
    (\<forall>c\<in>set as. key_at (records s') c = key_at (records s) c) \<and>
    records s' = (records s)(r \<mapsto> f m) \<and> brk s' = brk s \<and> gen s' = gen s"
proof -
  let ?h = "(records s)(r := Some (f m))"
  have "map_option ut_node.truncate (?h a) = map_option ut_node.truncate (records s a)" for a
    using m f by simp
  from ut_linked_cong [OF lnk, of ?h] this have "ut_linked (ut (set_heap ?h s)) as" "\<forall>a\<in>set as. key_at ?h a = key_at (records s) a"
    by (simp_all add: set_heap_def)
  then show ?thesis using m by (simp add: update_record_ok)
qed

lemma add_insert_linked:
  assumes lnk: "ut_linked (ut s) as" and r: "r \<notin> set as" "records s r = Some m"
  shows "\<exists>s'. add_insert p r s = Some (status_code OK, s') \<and> ut_linked (ut s') (as @ [r]) \<and>
    (\<forall>c\<in>set as. key_at (records s') c = key_at (records s) c) \<and> key_at (records s') r = Some (sessId p) \<and>
    (\<forall>c. c \<notin> insert r (set as) \<longrightarrow> records s' c = records s c)"
proof -
  let ?m = "m\<lparr>key := sessId p\<rparr>" and ?as = "as @ [r]"
  define s1 where "s1 = set_heap ((records s)(r := Some ?m)) s"
  have u1: "update_record r (\<lambda>m. m\<lparr>key := sessId p\<rparr>) s = Some s1" using r(2) by (simp add: update_record_ok s1_def)
  have h1: "records s1 = (records s)(r := Some ?m)" by (simp add: s1_def)
  have "map_option ut_node.truncate (((records s)(r := Some ?m)) a) = map_option ut_node.truncate (records s a)" if "a \<in> set as" for a
    using that r(1) by auto
  from ut_linked_cong [OF lnk, of "(records s)(r := Some ?m)"] this have lnk1: "ut_linked (ut s1) as" by (simp add: s1_def set_heap_def)
  have r1: "records s1 r = Some ?m" by (simp add: h1)
  let ?h0 = "(records s1)(r := Some (?m\<lparr>hashv := HASH_VALUE (key ?m), keylen := sizeof_record_key_t\<rparr>))"
  obtain u where u: "HASH_ADD r (ut s1) = Some u" "ut_linked u ?as" and sc: "same_core ?h0 (heap u)"
    and out: "\<forall>c. c \<notin> insert r (set as) \<longrightarrow> heap u c = records s1 c"
    using HASH_ADD_linked [OF lnk1 r(1) r1] by blast
  let ?s2 = "s1\<lparr>ut := u\<rparr>"
  have k: "key_at (heap u) c = key_at ?h0 c" for c by (rule same_core_key_at [OF sc])
  obtain m2 where m2: "records ?s2 r = Some m2" using same_core_SomeE [OF sc, of r] by fastforce
  define f1 where "f1 m = m\<lparr>inLif := inlif p, outLif := outlif p, ipVersion := ipver p, sourceIp := srcIP p,
      sourcePort := ucast (srcPort p), dstIp := dstIP p, rec_dstPort := ucast (dstPort p)\<rparr>" for m :: record_t
  have "ut_linked (ut ?s2) ?as" using u(2) by simp
  from update_linked [OF this m2, of f1] obtain s3 where s3: "update_record r f1 ?s2 = Some s3" "ut_linked (ut s3) ?as"
    "\<forall>c\<in>set ?as. key_at (records s3) c = key_at (heap u) c" "records s3 = (heap u)(r \<mapsto> f1 m2)" "gen s3 = gen ?s2"
    by (auto simp: f1_def ut_node.truncate_def)
  obtain inp outp inb outb where st: "stats_of (gen s3) = (inp, outp, inb, outb)" by (rule prod_cases4)
  define f2 where "f2 m = m\<lparr>inPackets := of_int inp, outPackets := of_int outp, inBytes := of_int inb, outBytes := of_int outb,
      protocolId := proto p, sessionState := state_code CLOSED, sessionClose := close_code NOT_CLOSED,
      actionValue := action_code FORWARD\<rparr>" for m :: record_t
  let ?s4 = "s3\<lparr>gen := advance 4 (gen s3)\<rparr>"
  have l4: "ut_linked (ut ?s4) ?as" "records ?s4 r = Some (f1 m2)" using s3(2,4) by simp_all
  from update_linked [OF l4, of f2] obtain s5 where s5: "update_record r f2 ?s4 = Some s5" "ut_linked (ut s5) ?as"
    "\<forall>c\<in>set ?as. key_at (records s5) c = key_at (records s3) c" "records s5 = (records s3)(r \<mapsto> f2 (f1 m2))"
    by (auto simp: f2_def ut_node.truncate_def)
  have run: "add_insert p r s = Some (status_code OK, s5)"
    using u1 u(1) s3(1) s5(1) st
    by (simp add: add_insert_def draw_stats_ok f1_def [abs_def] f2_def [abs_def] del: status_code.simps)
  have keys: "key_at (records s5) c = key_at ?h0 c" if "c \<in> set ?as" for c
    using bspec [OF s5(3) that] bspec [OF s3(3) that] k [of c] by (simp only:)
  have kr: "key_at (records s5) r = Some (sessId p)" using keys [of r] by (simp add: key_at_def)
  have "key_at (records s5) c = key_at (records s) c" if "c \<in> set as" for c
    using keys [of c] that r(1) by (auto simp: key_at_def h1)
  moreover have "records s5 c = records s c" if "c \<notin> insert r (set as)" for c
    using that out s5(4) s3(4) by (simp add: h1)
  ultimately show ?thesis using run s5(2) kr by blast
qed

subsection \<open>Both threads insert\<close>

text \<open>The ids of the sessions in table order, found by following the links.\<close>

definition stored_ids :: "server \<Rightarrow> u64 list option" where
  "stored_ids s = do {
     as \<leftarrow> ut_walk (records s) (head (ut s));
     those (map (key_at (records s)) as) }"

lemma map_Some_the: "map f as = map Some ids \<Longrightarrow> (\<forall>a\<in>set as. f a = Some (the (f a))) \<and> map (\<lambda>a. the (f a)) as = ids"
proof (induction as arbitrary: ids)
  case (Cons a as)
  then show ?case by (cases ids) auto
qed simp

lemma those_map: "\<forall>a\<in>set as. f a = Some (g a) \<Longrightarrow> those (map f as) = Some (map g as)"
  by (induction as) auto

lemma stored_ids_linked:
  assumes "ut_linked (ut s) as" and "\<forall>a\<in>set as. key_at (records s) a = Some (k a)"
  shows "stored_ids s = Some (map k as)"
  using ut_linked_walk [OF assms(1)] those_map [OF assms(2)] by (simp add: stored_ids_def)

text \<open>
  C14: two threads ask for the same new session, and both look it up before either
  inserts it. Then both are told that it was added, and the table holds it twice, which no sequence of
  whole calls brings about: the store is in no state that the invariant allows.
\<close>

theorem add_race:
  assumes "holds_ids s ids" and "length ids \<le> HASHTABLE_SIZE" and "sessId p \<notin> set ids" and "sessId q = sessId p"
  shows "\<exists>r1 r2 s1 s2 s3 s4. add_lookup p s = Some (Inr r1, s1) \<and> add_lookup q s1 = Some (Inr r2, s2) \<and>
    add_insert p r1 s2 = Some (status_code OK, s3) \<and> add_insert q r2 s3 = Some (status_code OK, s4) \<and>
    stored_ids s4 = Some (ids @ [sessId p, sessId p]) \<and> (\<nexists>ids'. holds_ids s4 ids')"
proof -
  obtain T as where rel: "store_rel s as T" and ids: "map key T = ids" using assms(1) by (rule holds_idsE)
  have inv: "ut_inv (ut s) as" and L: "list_all2 (holds (records s)) as T" and free: "\<forall>a\<ge>brk s. records s a = None"
    using rel by (simp_all add: store_rel_def)
  have len: "length as \<le> HASHTABLE_SIZE" using assms(2) ids list_all2_lengthD [OF L] by auto
  let ?k = "\<lambda>a. the (key_at (records s) a)"
  have "map (key_at (records s)) as = map Some ids" using keys_of_table [OF L] ids by auto
  then have k0: "\<forall>a\<in>set as. key_at (records s) a = Some (?k a)" "map ?k as = ids" using map_Some_the by blast+
  have new: "\<forall>a\<in>set as. key_at (records s) a \<noteq> Some (sessId p)" using k0 assms(3) by force
  obtain s1 where s1: "add_lookup p s = Some (Inr (brk s), s1)" "ut_inv (ut s1) as" "brk s1 = Suc (brk s)"
    "records s1 = (records s)(brk s \<mapsto> zero_record)"
    using add_lookup_free [OF inv _ len new] free by auto
  have ra: "brk s \<notin> set as" "Suc (brk s) \<notin> set as" using inv free by (auto simp: ut_inv_def elems_def)
  have "\<forall>a\<in>set as. key_at (records s1) a \<noteq> Some (sessId q)" using new ra assms(4) s1(4) by (auto simp: key_at_def)
  then obtain s2 where s2: "add_lookup q s1 = Some (Inr (Suc (brk s)), s2)" "ut_inv (ut s2) as"
    "records s2 = (records s1)(Suc (brk s) \<mapsto> zero_record)"
    using add_lookup_free [OF s1(2) _ len, of q] free s1(3,4) by auto
  have k2: "key_at (records s2) c = key_at (records s) c" if "c \<in> set as" for c
    using that ra s2(3) s1(4) by (auto simp: key_at_def)
  have l2: "ut_linked (ut s2) as" and m2: "records s2 (brk s) = Some zero_record"
    using s2(2,3) s1(4) by (simp_all add: ut_inv_linked)
  obtain s3 where s3: "add_insert p (brk s) s2 = Some (status_code OK, s3)" "ut_linked (ut s3) (as @ [brk s])"
    "\<forall>c\<in>set as. key_at (records s3) c = key_at (records s2) c" "key_at (records s3) (brk s) = Some (sessId p)"
    "\<forall>c. c \<notin> insert (brk s) (set as) \<longrightarrow> records s3 c = records s2 c"
    using add_insert_linked [OF l2 ra(1) m2] by blast
  have m3: "records s3 (Suc (brk s)) = Some zero_record" "Suc (brk s) \<notin> set (as @ [brk s])"
    using s3(5) ra(2) s2(3) by simp_all
  obtain s4 where s4: "add_insert q (Suc (brk s)) s3 = Some (status_code OK, s4)" "ut_linked (ut s4) (as @ [brk s, Suc (brk s)])"
    "\<forall>c\<in>set (as @ [brk s]). key_at (records s4) c = key_at (records s3) c" "key_at (records s4) (Suc (brk s)) = Some (sessId p)"
    using add_insert_linked [OF s3(2) m3(2,1), of q] assms(4) by auto
  define k where "k a = (if a \<in> set as then ?k a else sessId p)" for a
  have k4: "\<forall>a\<in>set (as @ [brk s, Suc (brk s)]). key_at (records s4) a = Some (k a)"
    using s4(3,4) s3(3,4) k2 k0(1) ra by (auto simp: k_def)
  have "map k (as @ [brk s, Suc (brk s)]) = ids @ [sessId p, sessId p]"
    unfolding k0(2) [symmetric] using ra by (simp add: k_def)
  then have st: "stored_ids s4 = Some (ids @ [sessId p, sessId p])"
    using stored_ids_linked [OF s4(2) k4] by simp
  have "\<not> holds_ids s4 ids'" for ids'
  proof
    assume "holds_ids s4 ids'"
    then obtain T' as' where rel': "store_rel s4 as' T'" by (rule holds_idsE)
    then have inv': "ut_inv (ut s4) as'" by (simp add: store_rel_def)
    then have "as' = as @ [brk s, Suc (brk s)]"
      using ut_inv_walk [OF inv'] ut_linked_walk [OF s4(2)] by simp
    then have "inj_on (key_at (records s4)) (set (as @ [brk s, Suc (brk s)]))" using inv' by (simp only: ut_inv_linked)
    moreover have "key_at (records s4) (brk s) = key_at (records s4) (Suc (brk s))" using k4 ra by (simp add: k_def)
    ultimately show False by (auto dest: inj_onD)
  qed
  then show ?thesis using s1(1) s2(1) s3(1) s4(1) st by blast
qed

lemma add_race_witness:
  "\<exists>s r1 r2 s1 s2 s3 s4. run_all add_ok (map ex_request [1, 2, 3]) (server_init ex_rng) = Some s \<and>
     add_lookup (ex_request 5) s = Some (Inr r1, s1) \<and> add_lookup (ex_request 5) s1 = Some (Inr r2, s2) \<and>
     add_insert (ex_request 5) r1 s2 = Some (status_code OK, s3) \<and> add_insert (ex_request 5) r2 s3 = Some (status_code OK, s4) \<and>
     stored_ids s4 = Some [1, 2, 3, 5, 5]"
proof -
  obtain s where s: "run_all add_ok (map ex_request [1, 2, 3]) (server_init ex_rng) = Some s"
    and h: "holds_ids s [1, 2, 3]" by (rule ex_holds)
  have a: "length [1, 2, 3 :: u64] \<le> HASHTABLE_SIZE" "sessId (ex_request 5) \<notin> set [1, 2, 3]" "sessId (ex_request 5) = sessId (ex_request 5)"
    by (simp_all add: HASHTABLE_SIZE_def ex_request_def)
  from add_race [OF h a] s show ?thesis by (simp add: ex_request_def) blast
qed

end
