(* ===== verification/Uthash_Check.thy ===== *)
theory Uthash_Check
  imports Uthash_Ops
begin

text \<open>
  \<open>HASH_FSCK\<close> of \<open>include/uthash.h\<close>, the check that the macros run after every change when
  \<open>HASH_DEBUG\<close> is defined, and what it establishes: it succeeds exactly when the chains and the app
  order are well linked with the recorded counts, and so in every state in which the invariant holds.
\<close>

subsection \<open>The check\<close>

text \<open>The message with which \<open>HASH_OOPS\<close> ends the process.\<close>

datatype fsck_error =
  Invalid_hh_prev | Invalid_bucket_count | Invalid_hh_item_count | Invalid_prev | Invalid_app_item_count

text \<open>
  The loops over a chain and over the app order: the number of elements, \<open>None\<close> when an element does
  not point back to the one before it.
\<close>

partial_function (option) fsck_list ::
  "('n \<Rightarrow> ptr) \<Rightarrow> ('n \<Rightarrow> ptr) \<Rightarrow> 'n memory \<Rightarrow> ptr \<Rightarrow> nat \<Rightarrow> ptr \<Rightarrow> nat option option" where
  "fsck_list pv nx h prv count thh =
     (case thh of
        None \<Rightarrow> Some (Some count)
      | Some a \<Rightarrow> do {
          n \<leftarrow> h a;
          if prv \<noteq> pv n then Some None else fsck_list pv nx h (Some a) (count + 1) (nx n) })"

fun fsck_buckets ::
  "'a ut_node_scheme memory \<Rightarrow> UT_hash_bucket list \<Rightarrow> nat list \<Rightarrow> nat \<Rightarrow> (fsck_error + nat) option" where
  "fsck_buckets h bs [] count = Some (Inr count)"
| "fsck_buckets h bs (i # is) count = do {
     b \<leftarrow> load bs i;
     r \<leftarrow> fsck_list hh_prev hh_next h None 0 (hh_head b);
     case r of
       None \<Rightarrow> Some (Inl Invalid_hh_prev)
     | Some bkt_count \<Rightarrow>
         if bcount b \<noteq> bkt_count then Some (Inl Invalid_bucket_count)
         else fsck_buckets h bs is (count + bkt_count) }"

definition HASH_FSCK :: "'a ut_node_scheme uthash \<Rightarrow> (fsck_error + unit) option" where
  "HASH_FSCK u =
     (if head u \<noteq> None
      then do {
        _ \<leftarrow> deref (heap u) (head u);
        t \<leftarrow> tbl u;
        r \<leftarrow> fsck_buckets (heap u) (buckets t) [0..<num_buckets t] 0;
        case r of
          Inl e \<Rightarrow> Some (Inl e)
        | Inr count \<Rightarrow>
            if count \<noteq> num_items t then Some (Inl Invalid_hh_item_count)
            else do {
              r \<leftarrow> fsck_list prev nxt (heap u) None 0 (head u);
              case r of
                None \<Rightarrow> Some (Inl Invalid_prev)
              | Some count \<Rightarrow>
                  if count \<noteq> num_items t then Some (Inl Invalid_app_item_count) else Some (Inr ()) } }
      else Some (Inr ()))"

subsection \<open>What it checks\<close>

lemma fsck_list_dseg:
  "dseg (links_of pv nx h) b p xs e None \<Longrightarrow> fsck_list pv nx h b c p = Some (Some (c + length xs))"
proof (induction xs arbitrary: b p c)
  case Nil
  then show ?case by (subst fsck_list.simps) simp
next
  case (Cons a xs)
  then obtain n where "p = Some a" "h a = Some n" "pv n = b" "dseg (links_of pv nx h) (Some a) (nx n) xs e None"
    by (auto simp: links_of_iff)
  then show ?case using Cons.IH [of "Some a" "nx n" "c + 1"] by (subst fsck_list.simps) simp
qed

lemma fsck_list_sound:
  assumes "fsck_list pv nx h b c p = Some r"
  shows "r = Some m \<longrightarrow> (\<exists>xs e. dseg (links_of pv nx h) b p xs e None \<and> m = c + length xs)"
proof (rule fsck_list.raw_induct [OF _ assms, where P = "\<lambda>pv nx h b c p r.
    r = Some m \<longrightarrow> (\<exists>xs e. dseg (links_of pv nx h) b p xs e None \<and> m = c + length xs)"])
  fix f pv nx h b c p r
  assume IH: "\<And>pv nx h b c p r. f pv nx h b c p = Some r \<Longrightarrow>
      r = Some m \<longrightarrow> (\<exists>xs e. dseg (links_of pv nx h) b p xs e None \<and> m = c + length xs)"
    and body: "(case p of None \<Rightarrow> Some (Some c) | Some a \<Rightarrow> do {
        n \<leftarrow> h a; if b \<noteq> pv n then Some None else f pv nx h (Some a) (c + 1) (nx n) }) = Some r"
  show "r = Some m \<longrightarrow> (\<exists>xs e. dseg (links_of pv nx h) b p xs e None \<and> m = c + length xs)"
  proof (cases p)
    case None
    then show ?thesis using body by (auto intro!: exI [of _ "[]"])
  next
    case (Some a)
    show ?thesis
    proof
      assume r: "r = Some m"
      then obtain n where n: "h a = Some n" "pv n = b" "f pv nx h (Some a) (c + 1) (nx n) = Some r"
        using body Some by (auto split: Option.bind_split_asm if_splits)
      obtain xs e where xs: "dseg (links_of pv nx h) (Some a) (nx n) xs e None" "m = (c + 1) + length xs"
        using IH [OF n(3)] r by blast
      have "dseg (links_of pv nx h) b p (a # xs) e None \<and> m = c + length (a # xs)" using xs n Some by simp
      then show "\<exists>xs e. dseg (links_of pv nx h) b p xs e None \<and> m = c + length xs" by blast
    qed
  qed
qed

lemma fsck_list_exact:
  "fsck_list pv nx h b c p = Some (Some m) \<longleftrightarrow> (\<exists>xs e. dseg (links_of pv nx h) b p xs e None \<and> m = c + length xs)"
  using fsck_list_sound [of pv nx h b c p "Some m" m] fsck_list_dseg [of pv nx h b p _ _ c] by auto

text \<open>The chain of a bucket, linked forward and backward, with its count.\<close>

definition linked_chain :: "'a ut_node_scheme memory \<Rightarrow> UT_hash_bucket \<Rightarrow> bool" where
  "linked_chain h b \<longleftrightarrow> (\<exists>xs e. dseg (bkt_links h) None (hh_head b) xs e None \<and> bcount b = length xs)"

lemma fsck_buckets_exact:
  "fsck_buckets h bs is c = Some (Inr m) \<longleftrightarrow>
     (\<forall>i\<in>set is. i < length bs \<and> linked_chain h (bs ! i)) \<and> m = c + (\<Sum>i\<leftarrow>is. bcount (bs ! i))"
proof (induction "is" arbitrary: c)
  case (Cons i "is")
  have "fsck_buckets h bs (i # is) c = Some (Inr m) \<longleftrightarrow> i < length bs \<and> linked_chain h (bs ! i) \<and>
      fsck_buckets h bs is (c + bcount (bs ! i)) = Some (Inr m)"
    using fsck_list_exact [of hh_prev hh_next h None 0 "hh_head (bs ! i)" "bcount (bs ! i)"]
    by (auto simp: linked_chain_def load_def split: Option.bind_split Option.bind_split_asm option.splits if_splits)
  then show ?case using Cons.IH by auto
qed auto

lemma HASH_FSCK_parts:
  assumes "head u = Some p" and "heap u p = Some n" and "tbl u = Some t"
  shows "HASH_FSCK u = Some (Inr ()) \<longleftrightarrow>
    fsck_buckets (heap u) (buckets t) [0..<num_buckets t] 0 = Some (Inr (num_items t)) \<and>
    fsck_list prev nxt (heap u) None 0 (head u) = Some (Some (num_items t))"
proof (cases "fsck_buckets (heap u) (buckets t) [0..<num_buckets t] 0")
  case (Some r)
  then show ?thesis
    using assms by (cases r; cases "fsck_list prev nxt (heap u) None 0 (head u)") (auto simp: HASH_FSCK_def split: option.splits)
qed (use assms in \<open>simp add: HASH_FSCK_def\<close>)

lemma sum_upt: "(\<Sum>i\<leftarrow>[0..<n]. f i) = (\<Sum>i<n. f i)" for f :: "nat \<Rightarrow> nat"
  by (simp add: interv_sum_list_conv_sum_set_nat atLeast0LessThan)

text \<open>
  On a table that is not empty, \<open>HASH_FSCK\<close> succeeds exactly when every chain is linked
  in both directions and has the recorded length, the app order from \<open>head\<close> is linked in both
  directions, and both hold \<open>num_items\<close> elements. (It does not look at keys, hashes or \<open>tail\<close>.)
\<close>

theorem HASH_FSCK_exact:
  assumes "head u \<noteq> None"
  shows "HASH_FSCK u = Some (Inr ()) \<longleftrightarrow>
    (\<exists>t as e. tbl u = Some t \<and> deref (heap u) (head u) \<noteq> None \<and>
      (\<forall>i<num_buckets t. i < length (buckets t) \<and> linked_chain (heap u) (buckets t ! i)) \<and>
      (\<Sum>i<num_buckets t. bcount (buckets t ! i)) = num_items t \<and>
      dseg (app_links (heap u)) None (head u) as e None \<and> length as = num_items t)"
proof -
  obtain p where p: "head u = Some p" using assms by auto
  show ?thesis
  proof (cases "heap u p = None \<or> tbl u = None")
    case True
    then show ?thesis by (auto simp: HASH_FSCK_def p split: Option.bind_splits)
  next
    case False
    then obtain n t where nt: "heap u p = Some n" "tbl u = Some t" by auto
    show ?thesis
      unfolding HASH_FSCK_parts [OF p nt] fsck_buckets_exact fsck_list_exact sum_upt using nt p by auto
  qed
qed

subsection \<open>The invariant\<close>

lemma bkts_count:
  assumes "bkts h N bs D" and "finite D" and "\<And>a. bkt_of h N a < N"
  shows "(\<Sum>i<N. bcount (bs ! i)) = card D"
proof -
  have "bcount (bs ! i) = card {a \<in> D. bkt_of h N a = i}" if "i < N" for i
    using bktsE [OF assms(1) that] by (metis distinct_card)
  then have "(\<Sum>i<N. bcount (bs ! i)) = (\<Sum>i<N. \<Sum>a | a \<in> D \<and> bkt_of h N a = i. 1)" by simp
  also have "\<dots> = (\<Sum>a\<in>D. 1)" by (rule sum.group) (use assms(2,3) in auto)
  finally show ?thesis by simp
qed

lemma HASH_FSCK_ok:
  assumes inv: "ut_inv u as"
  shows "HASH_FSCK u = Some (Inr ())"
proof (cases "as = []")
  case True
  then show ?thesis using inv by (simp add: ut_inv_Nil HASH_FSCK_def)
next
  case False
  obtain t n where t: "tbl u = Some t" "table_ok (heap u) (head u) t as" and hd: "head u = Some (hd as)" "heap u (hd as) = Some n"
    using ut_invE [OF inv False] .
  have B: "bkts (heap u) (num_buckets t) (buckets t) (set as)" and pos: "0 < num_buckets t"
    and seg: "dseg (app_links (heap u)) None (head u) as (tail t) None" and num: "num_items t = length as"
    using t(2) by (simp_all add: table_ok_def)
  have lt: "bkt_of (heap u) (num_buckets t) a < num_buckets t" for a
    using pos by (simp add: bkt_of_def split: option.split)
  have "\<forall>i<num_buckets t. i < length (buckets t) \<and> linked_chain (heap u) (buckets t ! i)"
  proof (intro allI impI conjI)
    fix i assume i: "i < num_buckets t"
    show "i < length (buckets t)" using i bkts_length [OF B] by simp
    show "linked_chain (heap u) (buckets t ! i)" using bktsE [OF B i] unfolding linked_chain_def by blast
  qed
  moreover have "(\<Sum>i<num_buckets t. bcount (buckets t ! i)) = num_items t"
    using bkts_count [OF B _ lt] inv num by (simp add: ut_inv_def distinct_card)
  ultimately have "fsck_buckets (heap u) (buckets t) [0..<num_buckets t] 0 = Some (Inr (num_items t))"
    unfolding fsck_buckets_exact sum_upt by simp
  then show ?thesis
    using HASH_FSCK_parts [OF hd t(1)] fsck_list_dseg [OF seg, of 0] num by simp
qed

lemma HASH_FSCK_exact_witness:
  "\<exists>u. run_all HASH_ADD [0, 1] ut_ex = Some u \<and> HASH_FSCK u = Some (Inr ()) \<and>
     (\<exists>as e. dseg (app_links (heap u)) None (head u) as e None \<and> length as = 2)"
proof -
  obtain u where u: "run_all HASH_ADD [0, 1] ut_ex = Some u" "ut_inv u [0, 1]"
    using ut_ex_two by blast
  obtain t where t: "tbl u = Some t" "table_ok (heap u) (head u) t [0, 1]"
    using ut_invE [OF u(2)] by blast
  then have "num_items t = 2" by (simp add: table_ok_def)
  have ne: "head u \<noteq> None" using ut_inv_head [OF u(2)] by simp
  have ok: "HASH_FSCK u = Some (Inr ())" by (rule HASH_FSCK_ok [OF u(2)])
  then have "\<exists>as e. dseg (app_links (heap u)) None (head u) as e None \<and> length as = 2"
    unfolding HASH_FSCK_exact [OF ne] using t(1) \<open>num_items t = 2\<close> by auto
  then show ?thesis using u(1) ok by blast
qed

end
