(* ===== verification/Uthash_Width.thy ===== *)
theory Uthash_Width
  imports Uthash_Check
begin

text \<open>
  The expansion of the buckets with the counters at the width they have in \<open>include/uthash.h\<close>: \<open>unsigned\<close>, with
  the wrap-around written out, and a shift by the width of its operand, which is undefined, as a fault. As long as
  there are fewer than \<open>2^31\<close> buckets and elements this is the same as the macro on natural numbers of \<open>Uthash\<close>, so
  what is proved of the latter holds of the program; with \<open>2^31\<close> buckets it is undefined. (The new bucket array is
  then one of 64 gigabytes.)
\<close>

subsection \<open>The macro\<close>

text \<open>\<open>++(count)\<close>, the comparisons and \<open>expand_mult++\<close>.\<close>

definition count_moved_u32 :: "nat \<Rightarrow> UT_hash_bucket \<Rightarrow> UT_hash_bucket \<times> bool" where
  "count_moved_u32 ideal b =
     (let b = b\<lparr>bcount := (bcount b + 1) mod 2 ^ 32\<rparr>;
          over = ideal < bcount b
      in (if over \<and> (expand_mult b * ideal) mod 2 ^ 32 < bcount b
          then b\<lparr>expand_mult := (expand_mult b + 1) mod 2 ^ 32\<rparr> else b, over))"

partial_function (option) expand_chain_u32 ::
  "nat \<Rightarrow> nat \<Rightarrow> ptr \<Rightarrow> UT_hash_bucket list \<Rightarrow> nat \<Rightarrow> 'a ut_node_scheme memory \<Rightarrow>
   (UT_hash_bucket list \<times> nat \<times> 'a ut_node_scheme memory) option" where
  "expand_chain_u32 new_num ideal thh nb nonideal h =
     (case thh of
        None \<Rightarrow> Some (nb, nonideal, h)
      | Some a \<Rightarrow> do {
          n \<leftarrow> h a;
          let hh_nxt = hh_next n;
          let bkt = HASH_TO_BKT (hashv n) new_num;
          newbkt \<leftarrow> load nb bkt;
          let (newbkt, over) = count_moved_u32 ideal newbkt;
          h \<leftarrow> modify (Some a) (\<lambda>m. m\<lparr>hh_prev := None, hh_next := hh_head newbkt\<rparr>) h;
          h \<leftarrow> modify_if (hh_head newbkt) (\<lambda>m. m\<lparr>hh_prev := Some a\<rparr>) h;
          nb \<leftarrow> store nb bkt (newbkt\<lparr>hh_head := Some a\<rparr>);
          expand_chain_u32 new_num ideal hh_nxt nb (if over then (nonideal + 1) mod 2 ^ 32 else nonideal) h })"

fun expand_buckets_u32 ::
  "nat \<Rightarrow> nat \<Rightarrow> UT_hash_bucket list \<Rightarrow> nat list \<Rightarrow> UT_hash_bucket list \<Rightarrow> nat \<Rightarrow>
   'a ut_node_scheme memory \<Rightarrow>
   (UT_hash_bucket list \<times> nat \<times> 'a ut_node_scheme memory) option" where
  "expand_buckets_u32 new_num ideal old [] nb nonideal h = Some (nb, nonideal, h)"
| "expand_buckets_u32 new_num ideal old (i # is) nb nonideal h = do {
     b \<leftarrow> load old i;
     (nb, nonideal, h) \<leftarrow> expand_chain_u32 new_num ideal (hh_head b) nb nonideal h;
     expand_buckets_u32 new_num ideal old is nb nonideal h }"

text \<open>The sizes that are allocated are computed with \<open>2UL\<close>, in 64 bits.\<close>

definition HASH_EXPAND_BUCKETS_u32 ::
  "UT_hash_table \<Rightarrow> 'a ut_node_scheme memory \<Rightarrow> (UT_hash_table \<times> 'a ut_node_scheme memory) option" where
  "HASH_EXPAND_BUCKETS_u32 t h =
     (let shift = (log2_num_buckets t + 1) mod 2 ^ 32;
          new_num = (num_buckets t * 2) mod 2 ^ 32;
          mask = (new_num + (2 ^ 32 - 1)) mod 2 ^ 32;
          nb = replicate (2 * num_buckets t) zero_bucket
      in if 32 \<le> shift then None
      else do {
        let ideal = (num_items t div 2 ^ shift + (if num_items t AND mask \<noteq> 0 then 1 else 0)) mod 2 ^ 32;
        (nb, nonideal, h) \<leftarrow> expand_buckets_u32 new_num ideal (buckets t) [0..<num_buckets t] nb 0 h;
        let ineff = (if num_items t div 2 < nonideal then (ineff_expands t + 1) mod 2 ^ 32 else 0);
        Some (t\<lparr>ideal_chain_maxlen := ideal,
                nonideal_items := nonideal,
                num_buckets := new_num,
                log2_num_buckets := (log2_num_buckets t + 1) mod 2 ^ 32,
                buckets := nb,
                ineff_expands := ineff,
                noexpand := (if 1 < ineff then 1 else noexpand t)\<rparr>, h) })"

subsection \<open>No counter wraps around\<close>

text \<open>
  The counters of a bucket that is being filled: it has been counted as overfull at most as often as it has
  elements, and its multiple of the ideal length stays near their number.
\<close>

definition filling :: "nat \<Rightarrow> UT_hash_bucket \<Rightarrow> bool" where
  "filling ideal b \<longleftrightarrow> expand_mult b \<le> bcount b \<and> expand_mult b * ideal \<le> bcount b + ideal"

definition total :: "UT_hash_bucket list \<Rightarrow> nat" where
  "total bs = sum_list (map bcount bs)"

lemma filling_count_moved:
  assumes "filling ideal b" and "count_moved ideal b = (b', over)"
  shows "filling ideal b'" and "bcount b' = bcount b + 1"
  using assms by (auto simp: filling_def count_moved_def Let_def split: if_splits)

lemma count_moved_u32_eq:
  assumes "filling ideal b" and "bcount b + 1 < 2 ^ 31" and "ideal \<le> 2 ^ 31"
  shows "count_moved_u32 ideal b = count_moved ideal b"
proof -
  have "expand_mult b * ideal < 2 ^ 32" "expand_mult b + 1 < 2 ^ 32" "bcount b + 1 < 2 ^ 32"
    using assms by (simp_all add: filling_def)
  then show ?thesis unfolding count_moved_u32_def count_moved_def by (simp add: Let_def del: One_nat_def)
qed

lemma total_update: "i < length bs \<Longrightarrow> total (bs[i := b]) + bcount (bs ! i) = total bs + bcount b"
proof (induction bs arbitrary: i)
  case (Cons x bs)
  then show ?case by (cases i) (auto simp: total_def)
qed simp

lemma total_nth: "i < length bs \<Longrightarrow> bcount (bs ! i) \<le> total bs"
  using elem_le_sum_list [of i "map bcount bs"] by (simp add: total_def)

lemma expand_chain_u32_eq:
  assumes "expand_chain N ideal thh nb ni h = Some (nb', ni', h')"
  shows "total nb \<le> total nb' \<and> (list_all (filling ideal) nb \<and> ni \<le> total nb \<and> total nb' < 2 ^ 31 \<and> ideal \<le> 2 ^ 31 \<longrightarrow>
    expand_chain_u32 N ideal thh nb ni h = Some (nb', ni', h') \<and> list_all (filling ideal) nb' \<and> ni' \<le> total nb')"
proof -
  have "case (nb', ni', h') of (nb', ni', h') \<Rightarrow>
    total nb \<le> total nb' \<and> (list_all (filling ideal) nb \<and> ni \<le> total nb \<and> total nb' < 2 ^ 31 \<and> ideal \<le> 2 ^ 31 \<longrightarrow>
    expand_chain_u32 N ideal thh nb ni h = Some (nb', ni', h') \<and> list_all (filling ideal) nb' \<and> ni' \<le> total nb')"
  proof (rule expand_chain.raw_induct [where P = "\<lambda>N ideal thh nb ni h y. case y of (nb', ni', h') \<Rightarrow>
      total nb \<le> total nb' \<and> (list_all (filling ideal) nb \<and> ni \<le> total nb \<and> total nb' < 2 ^ 31 \<and> ideal \<le> 2 ^ 31 \<longrightarrow>
      expand_chain_u32 N ideal thh nb ni h = Some (nb', ni', h') \<and> list_all (filling ideal) nb' \<and> ni' \<le> total nb')",
      OF _ assms], goal_cases)
    case H: (1 loop N ideal thh nb ni h y)
    obtain nb' ni' h' where y: "y = (nb', ni', h')" by (cases y)
    show ?case
    proof (cases thh)
      case None
      then show ?thesis using H(2) by (auto simp: y expand_chain_u32.simps)
    next
      case (Some a)
      then obtain n where n: "h a = Some n" using H(2) by (cases "h a") simp_all
      obtain b over where cm: "count_moved ideal (nb ! HASH_TO_BKT (hashv n) N) = (b, over)" by fastforce
      have j: "HASH_TO_BKT (hashv n) N < length nb"
        using H(2) Some n by (cases "HASH_TO_BKT (hashv n) N < length nb") (simp_all add: Let_def load_def)
      obtain h1 h2 where h1: "modify (Some a) (\<lambda>m. m\<lparr>hh_prev := None, hh_next := hh_head b\<rparr>) h = Some h1"
        and h2: "modify_if (hh_head b) (\<lambda>m. m\<lparr>hh_prev := Some a\<rparr>) h1 = Some h2"
        and rest: "loop N ideal (hh_next n) (nb[HASH_TO_BKT (hashv n) N := b\<lparr>hh_head := Some a\<rparr>])
          (if over then ni + 1 else ni) h2 = Some (nb', ni', h')"
        using H(2) Some n cm j by (auto simp: y bind_eq_Some_conv Let_def simp del: modify_simps)
      let ?j = "HASH_TO_BKT (hashv n) N"
      let ?nb = "nb[?j := b\<lparr>hh_head := Some a\<rparr>]" and ?ni = "if over then ni + 1 else ni"
      have cnt: "bcount b = bcount (nb ! ?j) + 1" using cm by (auto simp: count_moved_def Let_def split: if_splits)
      have tot: "total ?nb = total nb + 1" using total_update [OF j, of "b\<lparr>hh_head := Some a\<rparr>"] cnt by simp
      have IH: "total ?nb \<le> total nb'"
        "list_all (filling ideal) ?nb \<and> ?ni \<le> total ?nb \<and> total nb' < 2 ^ 31 \<and> ideal \<le> 2 ^ 31 \<Longrightarrow>
         expand_chain_u32 N ideal (hh_next n) ?nb ?ni h2 = Some (nb', ni', h') \<and> list_all (filling ideal) nb' \<and> ni' \<le> total nb'"
        using H(1) [OF rest] by auto
      show ?thesis
        unfolding y prod.case
      proof (intro conjI impI)
        show "total nb \<le> total nb'" using IH(1) tot by simp
        assume a: "list_all (filling ideal) nb \<and> ni \<le> total nb \<and> total nb' < 2 ^ 31 \<and> ideal \<le> 2 ^ 31"
        have f: "filling ideal (nb ! ?j)" using a j by (simp add: list_all_length)
        have "bcount (nb ! ?j) + 1 < 2 ^ 31" using total_nth [OF j] IH(1) tot a by simp
        then have cm': "count_moved_u32 ideal (nb ! ?j) = (b, over)" using count_moved_u32_eq [OF f] cm a by simp
        have "filling ideal (b\<lparr>hh_head := Some a\<rparr>)" using filling_count_moved(1) [OF f cm] by (simp add: filling_def)
        then have "list_all (filling ideal) ?nb" using a j by (auto simp: list_all_length nth_list_update)
        then have r: "expand_chain_u32 N ideal (hh_next n) ?nb ?ni h2 = Some (nb', ni', h')" "list_all (filling ideal) nb'" "ni' \<le> total nb'"
          using IH(2) a tot by auto
        have "(if over then (ni + 1) mod 2 ^ 32 else ni) = ?ni" using a IH(1) tot by simp
        then show "expand_chain_u32 N ideal thh nb ni h = Some (nb', ni', h')"
          using Some n j cm' h1 h2 r(1) by (subst expand_chain_u32.simps) (simp add: Let_def load_def store_def del: One_nat_def modify_simps)
        show "list_all (filling ideal) nb'" "ni' \<le> total nb'" by (fact r)+
      qed
    qed
  qed
  then show ?thesis by simp
qed

lemma expand_buckets_u32_eq:
  assumes "expand_buckets N ideal old is nb ni h = Some (nb', ni', h')"
  shows "total nb \<le> total nb' \<and> (list_all (filling ideal) nb \<and> ni \<le> total nb \<and> total nb' < 2 ^ 31 \<and> ideal \<le> 2 ^ 31 \<longrightarrow>
    expand_buckets_u32 N ideal old is nb ni h = Some (nb', ni', h') \<and> list_all (filling ideal) nb' \<and> ni' \<le> total nb')"
  using assms
proof (induction "is" arbitrary: nb ni h)
  case (Cons i "is")
  then obtain b nb1 ni1 h1 where b: "load old i = Some b"
    and c: "expand_chain N ideal (hh_head b) nb ni h = Some (nb1, ni1, h1)"
    and r: "expand_buckets N ideal old is nb1 ni1 h1 = Some (nb', ni', h')"
    by (auto simp: bind_eq_Some_conv)
  show ?case using expand_chain_u32_eq [OF c] Cons.IH [OF r] b by auto
qed simp

lemma total_bkts: "bkts h N bs D \<Longrightarrow> finite D \<Longrightarrow> 0 < N \<Longrightarrow> total bs = card D"
proof -
  assume B: "bkts h N bs D" "finite D" and pos: "0 < N"
  have "bkt_of h N a < N" for a using pos by (simp add: bkt_of_def split: option.split)
  from bkts_count [OF B this] show ?thesis
    using bkts_length [OF B(1)] by (simp add: total_def sum_list_sum_nth atLeast0LessThan)
qed

text \<open>
  What the macros keep beside the invariant: the number of buckets is a power of two, and no more than two
  expansions without effect are counted, because the second one switches expansion off.
\<close>

definition sized :: "UT_hash_table \<Rightarrow> bool" where
  "sized t \<longleftrightarrow> num_buckets t = 2 ^ log2_num_buckets t \<and> ineff_expands t \<le> 2 \<and> (noexpand t = 0 \<longrightarrow> ineff_expands t \<le> 1)"

lemma sized_make: "sized (HASH_MAKE_TABLE a)"
  by (simp add: sized_def HASH_MAKE_TABLE_def HASH_INITIAL_NUM_BUCKETS_def HASH_INITIAL_NUM_BUCKETS_LOG2_def)

lemma sized_update [simp]:
  "sized (t\<lparr>tail := p\<rparr>) = sized t" "sized (t\<lparr>num_items := n\<rparr>) = sized t" "sized (t\<lparr>buckets := bs\<rparr>) = sized t"
  by (simp_all add: sized_def)

lemma expand_fields:
  assumes "HASH_EXPAND_BUCKETS t h = Some (t', h')"
  shows "num_buckets t' = num_buckets t * 2" and "log2_num_buckets t' = log2_num_buckets t + 1"
    and "ineff_expands t' = 0 \<or> ineff_expands t' = ineff_expands t + 1"
    and "noexpand t' = (if 1 < ineff_expands t' then 1 else noexpand t)"
proof -
  obtain nb ni ideal where "t' = t\<lparr>ideal_chain_maxlen := ideal, nonideal_items := ni, num_buckets := num_buckets t * 2,
      log2_num_buckets := log2_num_buckets t + 1, buckets := nb,
      ineff_expands := (if num_items t div 2 < ni then ineff_expands t + 1 else 0),
      noexpand := (if 1 < (if num_items t div 2 < ni then ineff_expands t + 1 else 0) then 1 else noexpand t)\<rparr>"
    using assms unfolding HASH_EXPAND_BUCKETS_def Let_def bind_eq_Some_conv split_paired_Ex prod.case option.inject prod.inject
    by blast
  then show "num_buckets t' = num_buckets t * 2" "log2_num_buckets t' = log2_num_buckets t + 1"
    "ineff_expands t' = 0 \<or> ineff_expands t' = ineff_expands t + 1"
    "noexpand t' = (if 1 < ineff_expands t' then 1 else noexpand t)" by simp_all
qed

lemma sized_expand: "HASH_EXPAND_BUCKETS t h = Some (t', h') \<Longrightarrow> sized t \<Longrightarrow> noexpand t = 0 \<Longrightarrow> sized t'"
  using expand_fields [of t h t' h'] by (auto simp: sized_def)

lemma sized_add_to_bkt:
  assumes "HASH_ADD_TO_BKT j a t h = Some (t', h')" and "sized t"
  shows "sized t'"
proof -
  obtain bs h1 where "HASH_EXPAND_BUCKETS (t\<lparr>buckets := bs\<rparr>) h1 = Some (t', h') \<and> noexpand t = 0 \<or> t' = t\<lparr>buckets := bs\<rparr>"
    using assms(1) by (auto simp: HASH_ADD_TO_BKT_def Let_def bind_eq_Some_conv split: if_splits)
  then show ?thesis
  proof
    assume "HASH_EXPAND_BUCKETS (t\<lparr>buckets := bs\<rparr>) h1 = Some (t', h') \<and> noexpand t = 0"
    then show ?thesis using sized_expand [of "t\<lparr>buckets := bs\<rparr>" h1 t' h'] assms(2) by simp
  qed (use assms(2) in simp)
qed

text \<open>The table to which an addition is made: a new one, or that of the hash.\<close>

lemma add_to_table:
  fixes u :: "'a ut_node_scheme uthash"
  assumes "HASH_ADD a u = Some u'"
  obtains t0 t j t' and h h' :: "'a ut_node_scheme memory"
  where "t0 = HASH_MAKE_TABLE a \<or> tbl u = Some t0" and "sized t = sized t0" and "num_buckets t = num_buckets t0"
    and "HASH_ADD_TO_BKT j a t h = Some (t', h')" and "tbl u' = Some t'"
proof -
  have append: "HASH_APPEND_LIST a t h = Some (t', h') \<Longrightarrow> t' = t\<lparr>tail := Some a\<rparr>" for t h t' h'
    by (auto simp: HASH_APPEND_LIST_def bind_eq_Some_conv simp del: modify_simps)
  obtain hv where "HASH_ADD_KEYPTR_BYHASHVALUE hv a u = Some u'"
    using assms(1) by (auto simp: HASH_ADD_def bind_eq_Some_conv)
  then obtain h hd t h1 t' h' where
      start: "(if head u = None
        then do { h \<leftarrow> modify (Some a) (\<lambda>m. m\<lparr>nxt := None, prev := None\<rparr>) h; Some (Some a, HASH_MAKE_TABLE a, h) }
        else do { _ \<leftarrow> deref h (head u); t \<leftarrow> tbl u; (t, h) \<leftarrow> HASH_APPEND_LIST a t h; Some (head u, t, h) }) = Some (hd, t, h1)"
    and add: "HASH_ADD_TO_TABLE hv a t h1 = Some (t', h')" and u': "u' = u\<lparr>heap := h', head := hd, tbl := Some t'\<rparr>"
    unfolding HASH_ADD_KEYPTR_BYHASHVALUE_def bind_eq_Some_conv split_paired_Ex prod.case option.inject by blast
  have "\<exists>t0. (t0 = HASH_MAKE_TABLE a \<or> tbl u = Some t0) \<and> sized t = sized t0 \<and> num_buckets t = num_buckets t0"
    using start by (auto simp: bind_eq_Some_conv simp del: modify_simps split: if_splits dest!: append)
  then obtain t0 where t0: "t0 = HASH_MAKE_TABLE a \<or> tbl u = Some t0" and eq: "sized t = sized t0" "num_buckets t = num_buckets t0"
    by blast
  show thesis
  proof (rule that)
    show "t0 = HASH_MAKE_TABLE a \<or> tbl u = Some t0" by (fact t0)
    show "HASH_ADD_TO_BKT (HASH_TO_BKT hv (num_buckets t)) a (t\<lparr>num_items := num_items t + 1\<rparr>) h1 = Some (t', h')"
      using add by (simp add: HASH_ADD_TO_TABLE_def Let_def)
    show "tbl u' = Some t'" using u' by simp
  qed (simp_all add: eq)
qed

lemma sized_add:
  fixes u :: "'a ut_node_scheme uthash"
  assumes "HASH_ADD a u = Some u'" and "\<forall>t. tbl u = Some t \<longrightarrow> sized t"
  shows "\<forall>t. tbl u' = Some t \<longrightarrow> sized t"
proof -
  obtain t0 t j t' and h h' :: "'a ut_node_scheme memory" where "t0 = HASH_MAKE_TABLE a \<or> tbl u = Some t0" "sized t = sized t0" "num_buckets t = num_buckets t0"
    and add: "HASH_ADD_TO_BKT j a t h = Some (t', h')" "tbl u' = Some t'"
    by (rule add_to_table [OF assms(1)])
  then have "sized t" using assms(2) sized_make by auto
  then show ?thesis using sized_add_to_bkt [OF add(1)] add(2) by simp
qed

lemma sized_delete:
  assumes "HASH_DELETE a u = Some u'" and "\<forall>t. tbl u = Some t \<longrightarrow> sized t"
  shows "\<forall>t. tbl u' = Some t \<longrightarrow> sized t"
proof -
  have bkt: "HASH_DEL_IN_BKT j a t h = Some (t', h') \<Longrightarrow> sized t' = sized t" for j t h t' h'
    by (auto simp: HASH_DEL_IN_BKT_def bind_eq_Some_conv Let_def)
  obtain n where n: "heap u a = Some n" using assms(1) by (auto simp: HASH_DELETE_def bind_eq_Some_conv)
  show ?thesis
  proof (cases "prev n = None \<and> nxt n = None")
    case True
    then show ?thesis using assms(1) n by (auto simp: HASH_DELETE_def bind_eq_Some_conv)
  next
    case False
    note assms(1) [unfolded HASH_DELETE_def n Option.bind.bind_lunit if_not_P [OF False] Let_def bind_eq_Some_conv
        split_paired_Ex prod.case option.inject]
    then show ?thesis using assms(2) by (auto dest!: bkt split: if_splits)
  qed
qed

text \<open>An addition at most doubles the number of buckets.\<close>

lemma add_to_bkt_buckets:
  assumes "HASH_ADD_TO_BKT j a t h = Some (t', h')"
  shows "num_buckets t' \<le> 2 * num_buckets t"
proof -
  obtain bs h1 where "HASH_EXPAND_BUCKETS (t\<lparr>buckets := bs\<rparr>) h1 = Some (t', h') \<or> t' = t\<lparr>buckets := bs\<rparr>"
    using assms(1) by (auto simp: HASH_ADD_TO_BKT_def Let_def bind_eq_Some_conv split: if_splits)
  then show ?thesis using expand_fields(1) [of "t\<lparr>buckets := bs\<rparr>" h1 t' h'] by auto
qed

lemma add_buckets:
  fixes u :: "'a ut_node_scheme uthash"
  assumes "HASH_ADD a u = Some u'" and "\<forall>t. tbl u = Some t \<longrightarrow> num_buckets t \<le> n" and "32 \<le> n"
  shows "\<forall>t. tbl u' = Some t \<longrightarrow> num_buckets t \<le> 2 * n"
proof -
  obtain t0 t j t' and h h' :: "'a ut_node_scheme memory" where "t0 = HASH_MAKE_TABLE a \<or> tbl u = Some t0" "sized t = sized t0" "num_buckets t = num_buckets t0"
    and add: "HASH_ADD_TO_BKT j a t h = Some (t', h')" "tbl u' = Some t'"
    by (rule add_to_table [OF assms(1)])
  then have "num_buckets t \<le> n" using assms(2,3) by (auto simp: HASH_MAKE_TABLE_def HASH_INITIAL_NUM_BUCKETS_def)
  then show ?thesis using add_to_bkt_buckets [OF add(1)] add(2) by simp
qed

text \<open>Below the bound, the macro at its width is the macro of \<open>Uthash\<close>.\<close>

lemma HASH_EXPAND_BUCKETS_u32_eq:
  assumes B: "bkts h (num_buckets t) (buckets t) D" "finite D" "card D < 2 ^ 31" and items: "num_items t < 2 ^ 31"
    and t: "num_buckets t = 2 ^ log2_num_buckets t" "log2_num_buckets t < 31" "ineff_expands t < 2 ^ 31"
    and r: "HASH_EXPAND_BUCKETS t h = Some (t', h')"
  shows "HASH_EXPAND_BUCKETS_u32 t h = Some (t', h')"
proof -
  let ?s = "log2_num_buckets t + 1" and ?N = "num_buckets t * 2"
  let ?ideal = "num_items t div 2 ^ ?s + (if num_items t AND (?N - 1) \<noteq> 0 then 1 else 0)"
  have pos: "0 < num_buckets t" using t(1) by simp
  have "num_buckets t \<le> 2 ^ 30" unfolding t(1) by (rule power_increasing) (use t(2) in auto)
  then have N: "?N < 2 ^ 32" by simp
  have "?N + (2 ^ 32 - 1) = (?N - 1) + 2 ^ 32" using pos by simp
  then have mask: "(?N + (2 ^ 32 - 1)) mod 2 ^ 32 = ?N - 1" using N by (simp only: mod_add_self2) simp
  have "num_items t div 2 ^ ?s \<le> num_items t div 2" by (rule div_le_mono2) simp_all
  then have ideal: "?ideal \<le> 2 ^ 31" using items by auto
  define ideal where "ideal = num_items t div 2 ^ ?s + (if num_items t AND (?N - 1) \<noteq> 0 then 1 else 0)"
  let ?nb = "replicate (2 * num_buckets t) zero_bucket"
  obtain nb ni h1 where e: "expand_buckets ?N ideal (buckets t) [0..<num_buckets t] ?nb 0 h = Some (nb, ni, h1)"
    using r by (auto simp: HASH_EXPAND_BUCKETS_def Let_def bind_eq_Some_conv ideal_def)
  let ?ineff = "if num_items t div 2 < ni then ineff_expands t + 1 else 0"
  have t': "HASH_EXPAND_BUCKETS t h = Some (t\<lparr>ideal_chain_maxlen := ideal, nonideal_items := ni, num_buckets := ?N,
      log2_num_buckets := ?s, buckets := nb, ineff_expands := ?ineff, noexpand := (if 1 < ?ineff then 1 else noexpand t)\<rparr>, h1)"
    unfolding HASH_EXPAND_BUCKETS_def Let_def ideal_def [symmetric] e by simp
  obtain t2 h2 where ok: "HASH_EXPAND_BUCKETS t h = Some (t2, h2)" "bkts h2 (num_buckets t2) (buckets t2) D"
    "num_buckets t2 = 2 * num_buckets t" using HASH_EXPAND_BUCKETS_ok [OF B(1) pos] by blast
  have "buckets t2 = nb" using ok(1) t' by auto
  then have "total nb = card D" using total_bkts [OF ok(2) B(2)] ok(3) pos by simp
  moreover have "list_all (filling ideal) ?nb" by (simp add: list_all_length filling_def zero_bucket_def)
  ultimately have e': "expand_buckets_u32 ?N ideal (buckets t) [0..<num_buckets t] ?nb 0 h = Some (nb, ni, h1)"
    using expand_buckets_u32_eq [OF e] ideal B(3) unfolding ideal_def by simp
  have m: "?s mod 2 ^ 32 = ?s" "?N mod 2 ^ 32 = ?N" "ideal mod 2 ^ 32 = ideal" "(ineff_expands t + 1) mod 2 ^ 32 = ineff_expands t + 1"
    using ideal t(2,3) N unfolding ideal_def by simp_all
  have "\<not> 32 \<le> ?s" using t(2) by simp
  then have "HASH_EXPAND_BUCKETS_u32 t h = HASH_EXPAND_BUCKETS t h"
    unfolding t' HASH_EXPAND_BUCKETS_u32_def Let_def m(1,2,4) mask ideal_def [symmetric] m(3) e' by simp
  then show ?thesis using r by simp
qed

text \<open>
  C28: doubling the bucket array, with all counters \<open>unsigned\<close>. As long as there are fewer than
  \<open>2^31\<close> buckets no counter wraps around: the macro ends and keeps the table, the same elements in the same order,
  every key found as before, twice as many buckets, and no element is changed besides the links of its
  chain; and it does what it does on natural numbers. With \<open>2^31\<close> buckets it shifts by the width of the
  operand, which is undefined. That the number of buckets is a power of two is kept by adding and deleting.
\<close>

theorem HASH_EXPAND_at_width:
  assumes "ut_inv u as" and "tbl u = Some t" and "sized t" and "num_buckets t < 2 ^ 32" and "length as < 2 ^ 31"
  shows "if num_buckets t < 2 ^ 31
    then \<exists>t' h'. HASH_EXPAND_BUCKETS_u32 t (heap u) = Some (t', h') \<and> HASH_EXPAND_BUCKETS t (heap u) = Some (t', h') \<and>
      ut_inv (u\<lparr>heap := h', tbl := Some t'\<rparr>) as \<and> num_buckets t' = 2 * num_buckets t \<and>
      num_buckets t' = 2 ^ log2_num_buckets t' \<and>
      (\<forall>k. HASH_FIND (u\<lparr>heap := h', tbl := Some t'\<rparr>) k = HASH_FIND u k) \<and>
      same_core (heap u) h' \<and> app_links h' = app_links (heap u)
    else HASH_EXPAND_BUCKETS_u32 t (heap u) = None"
proof -
  have size: "num_buckets t = 2 ^ log2_num_buckets t" "ineff_expands t \<le> 2" using assms(3) by (simp_all add: sized_def)
  have le: "num_buckets t < 2 ^ n \<longleftrightarrow> log2_num_buckets t < n" for n unfolding size(1) by (rule power_strict_increasing_iff) simp
  have ne: "as \<noteq> []" using assms(1,2) by (auto simp: ut_inv_Nil)
  then have tab: "bkts (heap u) (num_buckets t) (buckets t) (set as)" "num_items t = length as" and d: "card (set as) = length as"
    using assms(1,2) by (auto simp: ut_inv_def table_ok_def distinct_card)
  obtain t' h' where r: "HASH_EXPAND_BUCKETS t (heap u) = Some (t', h')"
    using HASH_EXPAND_keeps_index [OF assms(1,2)] by blast
  then have keep: "ut_inv (u\<lparr>heap := h', tbl := Some t'\<rparr>) as \<and> num_buckets t' = 2 * num_buckets t \<and>
      HASH_FIND (u\<lparr>heap := h', tbl := Some t'\<rparr>) k = HASH_FIND u k \<and> same_core (heap u) h' \<and> app_links h' = app_links (heap u)" for k
    using HASH_EXPAND_keeps_index [OF assms(1,2), of k] by auto
  have pow: "num_buckets t' = 2 ^ log2_num_buckets t'" using expand_fields(1,2) [OF r] size(1) by simp
  show ?thesis
  proof (cases "num_buckets t < 2 ^ 31")
    case True
    have "HASH_EXPAND_BUCKETS_u32 t (heap u) = Some (t', h')"
      using HASH_EXPAND_BUCKETS_u32_eq [OF tab(1) _ _ _ size(1) _ _ r] True assms(5) size(2) tab(2) d unfolding le by simp
    then show ?thesis using True r keep pow by auto
  next
    case False
    then have "log2_num_buckets t = 31" using assms(4) unfolding le by simp
    then show ?thesis using False by (simp add: HASH_EXPAND_BUCKETS_u32_def Let_def)
  qed
qed

text \<open>A table with two elements; and the same with the sizes of one of \<open>2^31\<close> buckets.\<close>

lemma HASH_EXPAND_at_width_witness:
  "\<exists>u t t' h'. run_all HASH_ADD [0, 1] ut_ex = Some u \<and> tbl u = Some t \<and>
     HASH_EXPAND_BUCKETS_u32 t (heap u) = Some (t', h') \<and> num_buckets t' = 2 * num_buckets t \<and>
     HASH_FIND (u\<lparr>heap := h', tbl := Some t'\<rparr>) 11 = HASH_FIND u 11"
proof -
  obtain u where u: "run_all HASH_ADD [0, 1] ut_ex = Some u" "ut_inv u [0, 1]"
    using ut_ex_two by blast
  obtain u1 where u1: "HASH_ADD 0 ut_ex = Some u1" "HASH_ADD 1 u1 = Some u"
    using u(1) by (auto simp: bind_eq_Some_conv)
  obtain t where t: "tbl u = Some t" using u(2) by (auto simp: ut_inv_def)
  have e: "\<forall>t. tbl ut_ex = Some t \<longrightarrow> sized t" "\<forall>t. tbl ut_ex = Some t \<longrightarrow> num_buckets t \<le> 32" by (simp_all add: ut_ex_def)
  have s: "sized t" using sized_add [OF u1(2) sized_add [OF u1(1) e(1)]] t by simp
  have "\<forall>t. tbl u1 = Some t \<longrightarrow> num_buckets t \<le> 64" using add_buckets [OF u1(1) e(2)] by simp
  from add_buckets [OF u1(2) this] have n: "num_buckets t \<le> 128" using t by simp
  then have b: "num_buckets t < 2 ^ 31" "num_buckets t < 2 ^ 32" "length [0, 1 :: nat] < 2 ^ 31" by simp_all
  show ?thesis using u(1) t b(1) HASH_EXPAND_at_width [OF u(2) t s b(2,3)] by auto
qed

end
