(* ===== verification/Uthash_Order.thy ===== *)
theory Uthash_Order
  imports Uthash_Ops
begin

text \<open>
  Operations of \<open>include/uthash.h\<close> beyond those the server calls: replacing the element with a key,
  clearing the table, and adding an element in the order of a comparison function. They keep the
  invariant of the table.
\<close>

subsection \<open>HASH_REPLACE and HASH_CLEAR\<close>

definition HASH_REPLACE_BYHASHVALUE ::
  "u32 \<Rightarrow> addr \<Rightarrow> 'a ut_node_scheme uthash \<Rightarrow> (ptr \<times> 'a ut_node_scheme uthash) option" where
  "HASH_REPLACE_BYHASHVALUE hashval a u = do {
     n \<leftarrow> heap u a;
     replaced \<leftarrow> HASH_FIND_BYHASHVALUE u (key n) sizeof_record_key_t hashval;
     u \<leftarrow> (case replaced of None \<Rightarrow> Some u | Some r \<Rightarrow> HASH_DELETE r u);
     u \<leftarrow> HASH_ADD_KEYPTR_BYHASHVALUE hashval a u;
     Some (replaced, u) }"

definition HASH_REPLACE :: "addr \<Rightarrow> 'a ut_node_scheme uthash \<Rightarrow> (ptr \<times> 'a ut_node_scheme uthash) option" where
  "HASH_REPLACE a u = do {
     n \<leftarrow> heap u a;
     HASH_REPLACE_BYHASHVALUE (HASH_VALUE (key n)) a u }"

definition HASH_CLEAR :: "'a ut_node_scheme uthash \<Rightarrow> 'a ut_node_scheme uthash option" where
  "HASH_CLEAR u =
     (if head u \<noteq> None
      then do { _ \<leftarrow> deref (heap u) (head u); _ \<leftarrow> tbl u; Some (u\<lparr>head := None, tbl := None\<rparr>) }
      else Some u)"

text \<open>An element with the key of the new one leaves the table.\<close>

lemma replaced_ok:
  fixes k :: u64
  assumes inv: "ut_inv u as" and a: "a \<notin> set as"
  defines "P \<equiv> \<lambda>c. key_at (heap u) c = Some k"
  shows "\<exists>u1. HASH_FIND_BYHASHVALUE u k sizeof_record_key_t (HASH_VALUE k) = Some (find P as) \<and>
    (case find P as of None \<Rightarrow> Some u | Some r \<Rightarrow> HASH_DELETE r u) = Some u1 \<and>
    ut_inv u1 (filter (\<lambda>c. \<not> P c) as) \<and> same_core (heap u) (heap u1) \<and> heap u1 a = heap u a \<and>
    (\<forall>c\<in>set (filter (\<lambda>c. \<not> P c) as). key_at (heap u1) c \<noteq> Some k)"
proof -
  have f: "HASH_FIND_BYHASHVALUE u k sizeof_record_key_t (HASH_VALUE k) = Some (find P as)"
    using HASH_FIND_ok [OF inv, of k] by (simp add: HASH_FIND_def HASH_FIND_BYHASHVALUE_def P_def split: if_splits)
  obtain u1 where u1: "(case find P as of None \<Rightarrow> Some u | Some r \<Rightarrow> HASH_DELETE r u) = Some u1"
    "ut_inv u1 (filter (\<lambda>c. \<not> P c) as)" "same_core (heap u) (heap u1)" "heap u1 a = heap u a"
  proof (cases "find P as")
    case None
    then have "filter (\<lambda>c. \<not> P c) as = as" using find_NoneD [OF None] by (auto simp: filter_id_conv)
    then show ?thesis using that [of u] None inv by simp
  next
    case (Some r)
    have r: "r \<in> set as" "P r" using find_SomeD [OF Some] by auto
    have d: "distinct as" and inj: "inj_on (key_at (heap u)) (set as)" using inv by (simp_all add: ut_inv_def)
    have "remove1 r as = filter (\<lambda>c. \<not> P c) as"
      unfolding distinct_remove1_removeAll [OF d] removeAll_filter_not_eq
      by (rule filter_cong [OF refl]) (use r inj_onD [OF inj] in \<open>auto simp: P_def\<close>)
    then show ?thesis using HASH_DELETE_ok [OF inv r(1)] that Some a by auto
  qed
  have "\<forall>c\<in>set (filter (\<lambda>c. \<not> P c) as). key_at (heap u1) c \<noteq> Some k"
    using same_core_key_at [OF u1(3)] by (simp add: P_def)
  then show ?thesis using f u1 by blast
qed

text \<open>The new element comes last.\<close>

lemma HASH_REPLACE_ok:
  assumes inv: "ut_inv u as" and a: "a \<notin> set as" "heap u a = Some n"
  shows "\<exists>u'. HASH_REPLACE a u = Some (find (\<lambda>c. key_at (heap u) c = Some (key n)) as, u') \<and>
    ut_inv u' (filter (\<lambda>c. key_at (heap u) c \<noteq> Some (key n)) as @ [a]) \<and> HASH_FIND u' (key n) = Some (Some a)"
proof -
  let ?k = "key n" and ?P = "\<lambda>c. key_at (heap u) c = Some (key n)"
  obtain u1 where f: "HASH_FIND_BYHASHVALUE u ?k sizeof_record_key_t (HASH_VALUE ?k) = Some (find ?P as)"
    and u1: "(case find ?P as of None \<Rightarrow> Some u | Some r \<Rightarrow> HASH_DELETE r u) = Some u1"
      "ut_inv u1 (filter (\<lambda>c. \<not> ?P c) as)" "heap u1 a = heap u a"
    and fresh: "\<forall>c\<in>set (filter (\<lambda>c. \<not> ?P c) as). key_at (heap u1) c \<noteq> Some ?k"
    using replaced_ok [OF inv a(1), of ?k] by blast
  have n1: "heap u1 a = Some n" using u1(3) a(2) by simp
  have "a \<notin> set (filter (\<lambda>c. \<not> ?P c) as)" using a(1) by simp
  from HASH_ADD_ok [OF u1(2) this n1 fresh] obtain u' where
    u': "HASH_ADD a u1 = Some u'" "ut_inv u' (filter (\<lambda>c. \<not> ?P c) as @ [a])"
    and sc: "same_core ((heap u1)(a := Some (n\<lparr>hashv := HASH_VALUE (key n), keylen := sizeof_record_key_t\<rparr>))) (heap u')"
    by blast
  have "key_at (heap u') a = Some ?k"
    unfolding same_core_key_at [OF sc] by (simp add: key_at_def)
  then have "HASH_FIND u' ?k = Some (Some a)" using uth.look_Some [OF u'(2)] by simp
  moreover have "HASH_REPLACE a u = Some (find ?P as, u')"
    using a(2) f u1(1) u'(1) n1 by (simp add: HASH_REPLACE_def HASH_REPLACE_BYHASHVALUE_def HASH_ADD_def)
  ultimately show ?thesis using u'(2) by blast
qed

lemma HASH_CLEAR_ok:
  assumes "ut_inv u as"
  shows "\<exists>u'. HASH_CLEAR u = Some u' \<and> ut_inv u' [] \<and> heap u' = heap u"
proof (cases "as = []")
  case True
  then show ?thesis using assms by (simp add: HASH_CLEAR_def ut_inv_Nil)
next
  case False
  then obtain t n where "tbl u = Some t" "head u = Some (hd as)" "heap u (hd as) = Some n"
    using ut_invE [OF assms] by blast
  then show ?thesis by (simp add: HASH_CLEAR_def ut_inv_Nil)
qed

subsection \<open>HASH_ADD_INORDER\<close>

text \<open>
  The comparison function is an argument. It is called with two elements; it may read their key and
  what the application stores in them, not their handle.
\<close>

definition payload :: "'a ut_node_scheme \<Rightarrow> u64 \<times> 'a" where
  "payload n = (key n, ut_node.more n)"

partial_function (option) HASH_AKBI_INNER_LOOP ::
  "(u64 \<times> 'a \<Rightarrow> u64 \<times> 'a \<Rightarrow> int) \<Rightarrow> 'a ut_node_scheme memory \<Rightarrow> addr \<Rightarrow> addr \<Rightarrow> ptr option" where
  "HASH_AKBI_INNER_LOOP cmpfcn h a hs_iter = do {
     n \<leftarrow> h hs_iter;
     m \<leftarrow> h a;
     if 0 < cmpfcn (payload n) (payload m) then Some (Some hs_iter)
     else (case nxt n of None \<Rightarrow> Some None | Some b \<Rightarrow> HASH_AKBI_INNER_LOOP cmpfcn h a b) }"

definition HASH_ADD_KEYPTR_BYHASHVALUE_INORDER ::
  "(u64 \<times> 'a \<Rightarrow> u64 \<times> 'a \<Rightarrow> int) \<Rightarrow> u32 \<Rightarrow> addr \<Rightarrow> 'a ut_node_scheme uthash \<Rightarrow> 'a ut_node_scheme uthash option" where
  "HASH_ADD_KEYPTR_BYHASHVALUE_INORDER cmpfcn hashval a u = do {
     h \<leftarrow> modify (Some a) (\<lambda>m. m\<lparr>hashv := hashval, keylen := sizeof_record_key_t\<rparr>) (heap u);
     (hd, t, h) \<leftarrow>
       (case head u of
          None \<Rightarrow> do {
            h \<leftarrow> modify (Some a) (\<lambda>m. m\<lparr>nxt := None, prev := None\<rparr>) h;
            Some (Some a, HASH_MAKE_TABLE a, h) }
        | Some b \<Rightarrow> do {
            t \<leftarrow> tbl u;
            hs_iter \<leftarrow> HASH_AKBI_INNER_LOOP cmpfcn h a b;
            case hs_iter of
              Some i \<Rightarrow> do {
                m \<leftarrow> h i;
                h \<leftarrow> modify (Some a) (\<lambda>k. k\<lparr>nxt := Some i, prev := prev m\<rparr>) h;
                h \<leftarrow> modify_if (prev m) (\<lambda>k. k\<lparr>nxt := Some a\<rparr>) h;
                let hd = (if prev m \<noteq> None then head u else Some a);
                h \<leftarrow> modify (Some i) (\<lambda>k. k\<lparr>prev := Some a\<rparr>) h;
                Some (hd, t, h) }
            | None \<Rightarrow> do {
                (t, h) \<leftarrow> HASH_APPEND_LIST a t h;
                Some (head u, t, h) } });
     (t, h) \<leftarrow> HASH_ADD_TO_TABLE hashval a t h;
     Some (u\<lparr>heap := h, head := hd, tbl := Some t\<rparr>) }"

definition HASH_ADD_INORDER ::
  "(u64 \<times> 'a \<Rightarrow> u64 \<times> 'a \<Rightarrow> int) \<Rightarrow> addr \<Rightarrow> 'a ut_node_scheme uthash \<Rightarrow> 'a ut_node_scheme uthash option" where
  "HASH_ADD_INORDER cmpfcn a u = do {
     n \<leftarrow> heap u a;
     HASH_ADD_KEYPTR_BYHASHVALUE_INORDER cmpfcn (HASH_VALUE (key n)) a u }"

definition HASH_REPLACE_BYHASHVALUE_INORDER ::
  "(u64 \<times> 'a \<Rightarrow> u64 \<times> 'a \<Rightarrow> int) \<Rightarrow> u32 \<Rightarrow> addr \<Rightarrow> 'a ut_node_scheme uthash \<Rightarrow> (ptr \<times> 'a ut_node_scheme uthash) option" where
  "HASH_REPLACE_BYHASHVALUE_INORDER cmpfcn hashval a u = do {
     n \<leftarrow> heap u a;
     replaced \<leftarrow> HASH_FIND_BYHASHVALUE u (key n) sizeof_record_key_t hashval;
     u \<leftarrow> (case replaced of None \<Rightarrow> Some u | Some r \<Rightarrow> HASH_DELETE r u);
     u \<leftarrow> HASH_ADD_KEYPTR_BYHASHVALUE_INORDER cmpfcn hashval a u;
     Some (replaced, u) }"

definition HASH_REPLACE_INORDER ::
  "(u64 \<times> 'a \<Rightarrow> u64 \<times> 'a \<Rightarrow> int) \<Rightarrow> addr \<Rightarrow> 'a ut_node_scheme uthash \<Rightarrow> (ptr \<times> 'a ut_node_scheme uthash) option" where
  "HASH_REPLACE_INORDER cmpfcn a u = do {
     n \<leftarrow> heap u a;
     HASH_REPLACE_BYHASHVALUE_INORDER cmpfcn (HASH_VALUE (key n)) a u }"

definition payload_at :: "'a ut_node_scheme memory \<Rightarrow> addr \<Rightarrow> u64 \<times> 'a" where
  "payload_at h a = payload (the (h a))"

lemma payload_core:
  assumes "core m = core n" shows "payload m = payload n"
  unfolding payload_def using core_eqD(1,4) [OF assms] by simp

lemma inner_loop_find:
  assumes "dseg (app_links h) b (Some c) as e None" and "h a = Some m"
  shows "HASH_AKBI_INNER_LOOP cmp h a c = Some (find (\<lambda>x. 0 < cmp (payload_at h x) (payload m)) as)"
  using assms(1)
proof (induction as arbitrary: b c)
  case (Cons x as)
  then obtain n where n: "x = c" "h c = Some n" and seg: "dseg (app_links h) (Some c) (nxt n) as e None"
    by (auto simp: links_of_iff)
  show ?case
  proof (cases "nxt n")
    case None
    then have "as = []" using dseg_first [OF seg] by (cases as) auto
    then show ?thesis using n None assms(2) by (subst HASH_AKBI_INNER_LOOP.simps) (simp add: payload_at_def)
  next
    case (Some c')
    then show ?thesis using n assms(2) Cons.IH [of "Some c" c'] seg
      by (subst HASH_AKBI_INNER_LOOP.simps) (simp add: payload_at_def)
  qed
qed simp

lemma find_split:
  "(find (\<lambda>x. \<not> P x) xs = None \<longrightarrow> takeWhile P xs = xs \<and> dropWhile P xs = []) \<and>
   (\<forall>c. find (\<lambda>x. \<not> P x) xs = Some c \<longrightarrow> dropWhile P xs = c # tl (dropWhile P xs))"
  by (induction xs) auto

text \<open>The element goes before the first one that is greater, and the rest of the table is as after \<open>HASH_ADD\<close>.\<close>

lemma HASH_ADD_INORDER_ok:
  fixes cmp :: "u64 \<times> 'a \<Rightarrow> u64 \<times> 'a \<Rightarrow> int" and u :: "'a ut_node_scheme uthash"
  assumes inv: "ut_inv u as" and a: "a \<notin> set as" "heap u a = Some n"
    and fresh: "\<forall>c\<in>set as. key_at (heap u) c \<noteq> Some (key n)"
  defines "P \<equiv> \<lambda>c. cmp (payload_at (heap u) c) (payload n) \<le> 0"
  shows "\<exists>u'. HASH_ADD_INORDER cmp a u = Some u' \<and> ut_inv u' (takeWhile P as @ a # dropWhile P as) \<and>
    (\<forall>c\<in>insert a (set as). payload_at (heap u') c = payload_at (heap u) c)"
proof -
  let ?n = "n\<lparr>hashv := HASH_VALUE (key n), keylen := sizeof_record_key_t\<rparr>"
  let ?h0 = "(heap u)(a := Some ?n)"
  let ?bs = "takeWhile P as @ a # dropWhile P as"
  have d: "distinct as" using inv by (simp add: ut_inv_def)
  have "set (takeWhile P as) \<union> set (dropWhile P as) = set as" by (metis set_append takeWhile_dropWhile_id)
  then have set_bs: "set ?bs = insert a (set as)" by auto
  have "length (takeWhile P as) + length (dropWhile P as) = length as" by (metis length_append takeWhile_dropWhile_id)
  then have len_bs: "length ?bs = Suc (length as)" by simp
  have d_bs: "distinct ?bs" using d a(1) len_bs set_bs
    by (metis card_distinct card_insert_disjoint distinct_card finite_set)
  have keep: "\<forall>c\<in>insert a (set as). payload_at h' c = payload_at (heap u) c" if sc: "same_core ?h0 h'" for h'
  proof
    fix c assume c: "c \<in> insert a (set as)"
    then obtain m where m: "?h0 c = Some m" "payload m = payload_at (heap u) c"
      using inv a by (cases "c = a") (auto simp: ut_inv_def elems_def payload_at_def payload_def)
    obtain m' where m': "h' c = Some m'" "core m' = core m" using same_core_SomeE [OF sc m(1)] .
    show "payload_at h' c = payload_at (heap u) c"
      using m m' payload_core [OF m'(2)] by (simp add: payload_at_def)
  qed
  note final = ut_inv_insert [OF inv a(1) fresh set_bs d_bs]
  show ?thesis
  proof (cases "as = []")
    case True
    then have "HASH_ADD_INORDER cmp a u = HASH_ADD a u" using inv
      by (simp add: HASH_ADD_INORDER_def HASH_ADD_def HASH_ADD_KEYPTR_BYHASHVALUE_INORDER_def
        HASH_ADD_KEYPTR_BYHASHVALUE_def ut_inv_Nil)
    then show ?thesis using HASH_ADD_ok [OF inv a fresh] keep True by auto
  next
    case False
    obtain t m where t: "tbl u = Some t" "table_ok (heap u) (head u) t as"
      and hd: "head u = Some (hd as)" "heap u (hd as) = Some m"
      using ut_invE [OF inv False] .
    have ne: "c \<noteq> a" if "c \<in> set as" for c using that a(1) by auto
    have seg: "dseg (app_links ?h0) None (head u) as (tail t) None"
      by (subst dseg_cong [where l = "app_links (heap u)"])
        (use t(2) ne in \<open>auto simp: table_ok_def links_of_def\<close>)
    have B: "bkts ?h0 (num_buckets t) (buckets t) (set as)"
      by (subst bkts_cong [where h = "heap u"])
        (use t(2) ne in \<open>auto simp: table_ok_def links_of_def bkt_of_def\<close>)
    have loop: "HASH_AKBI_INNER_LOOP cmp ?h0 a (List.hd as) = Some (find (\<lambda>c. \<not> P c) as)"
    proof -
      have "find (\<lambda>x. 0 < cmp (payload_at ?h0 x) (payload ?n)) as = find (\<lambda>c. \<not> P c) as"
        by (rule find_cong) (use ne in \<open>auto simp: P_def payload_at_def payload_def\<close>)
      then show ?thesis
        using inner_loop_find [of ?h0 None "List.hd as" as "tail t" a ?n cmp] seg hd(1) by simp
    qed
    show ?thesis
    proof (cases "find (\<lambda>c. \<not> P c) as")
      case None
      then have bs: "?bs = as @ [a]" using find_split [of P as] by simp
      have "HASH_ADD_INORDER cmp a u = HASH_ADD a u"
        using a(2) t(1) hd loop None ne False
        by (simp add: HASH_ADD_INORDER_def HASH_ADD_def HASH_ADD_KEYPTR_BYHASHVALUE_INORDER_def
          HASH_ADD_KEYPTR_BYHASHVALUE_def)
      then show ?thesis using HASH_ADD_ok [OF inv a fresh] keep bs by auto
    next
      case (Some i)
      define xs where "xs = takeWhile P as"
      define ys where "ys = tl (dropWhile P as)"
      have dw: "dropWhile P as = i # ys" using find_split [of P as] Some by (simp add: ys_def)
      have as: "as = xs @ i # ys" using takeWhile_dropWhile_id [of P as] by (simp add: xs_def dw)
      have i: "i \<in> set as" "i \<noteq> a" using as a(1) by auto
      obtain mi where mi: "?h0 i = Some mi" using dseg_alloc [OF seg i(1)] by blast
      let ?n1 = "?n\<lparr>nxt := Some i, prev := prev mi\<rparr>"
      obtain h1 h2 where r1: "modify_if (prev mi) (\<lambda>k. k\<lparr>nxt := Some a\<rparr>) (?h0(a := Some ?n1)) = Some h1"
        and i1: "h1 i = Some mi" and r2: "modify (Some i) (\<lambda>k. k\<lparr>prev := Some a\<rparr>) h1 = Some h2"
        and seg2: "dseg (app_links h2) None (if xs = [] then Some a else head u) (xs @ a # i # ys) (tail t) None"
        and out: "\<forall>b. b \<notin> set as \<longrightarrow> h2 b = (?h0(a := Some ?n1)) b"
        using app_order.insert_before [of ?h0 "head u" xs i ys "tail t" a mi ?n1] seg d a(1) mi unfolding as by auto
      have pm: "prev mi = None \<longleftrightarrow> xs = []" using dseg_mid [of "app_links ?h0" None "head u" xs i ys] seg mi as by auto
      have sc: "same_core ?h0 h2"
        using same_core_trans [OF same_core_trans [OF same_core_upd [of ?h0 a ?n ?n1] same_core_modify_if [OF r1]] same_core_modify [OF r2]]
        by simp
      have bl: "bkt_links h2 = bkt_links ?h0"
      proof -
        have "modify_if (Some i) (\<lambda>k. k\<lparr>prev := Some a\<rparr>) h1 = Some h2" using r2 by simp
        from links_of_modify_if [OF this, of hh_prev hh_next] links_of_modify_if [OF r1, of hh_prev hh_next]
        show ?thesis by (auto simp: links_of_def fun_eq_iff)
      qed
      have B2: "bkts h2 (num_buckets t) (buckets t) (set as)" using B by (simp add: bkts_same [OF bl sc])
      have n2: "h2 a = Some ?n1" using out a(1) by simp
      obtain t' h' where r: "HASH_ADD_TO_TABLE (HASH_VALUE (key n)) a t h2 = Some (t', h')"
        and T: "table_ok h' (if xs = [] then Some a else head u) t' ?bs" and sc': "same_core h2 h'"
        using HASH_ADD_TO_TABLE_ok [of h2 "if xs = [] then Some a else head u" ?bs t as a ?n1] seg2 set_bs len_bs B2 t(2) a(1) n2
        by (auto simp: table_ok_def dw xs_def)
      let ?u = "u\<lparr>heap := h', head := (if xs = [] then Some a else head u), tbl := Some t'\<rparr>"
      have "HASH_ADD_INORDER cmp a u = Some ?u"
        using a(2) t(1) hd loop Some mi i(2) r1 r2 r pm
        by (auto simp: HASH_ADD_INORDER_def HASH_ADD_KEYPTR_BYHASHVALUE_INORDER_def Let_def)
      then show ?thesis
        using final [of ?u t'] same_core_trans [OF sc sc'] T keep [OF same_core_trans [OF sc sc']] by auto
    qed
  qed
qed

text \<open>Under a total preorder a sorted table stays sorted.\<close>

lemma HASH_ADD_INORDER_sorted:
  fixes cmp :: "u64 \<times> 'a \<Rightarrow> u64 \<times> 'a \<Rightarrow> int" and u :: "'a ut_node_scheme uthash"
  assumes inv: "ut_inv u as" and a: "a \<notin> set as" "heap u a = Some n"
    and fresh: "\<forall>c\<in>set as. key_at (heap u) c \<noteq> Some (key n)"
    and total: "\<And>x y. 0 < cmp x y \<Longrightarrow> cmp y x \<le> 0" and trans: "\<And>x y z. cmp x y \<le> 0 \<Longrightarrow> cmp y z \<le> 0 \<Longrightarrow> cmp x z \<le> 0"
    and sorted: "sorted_wrt (\<lambda>x y. cmp x y \<le> 0) (map (payload_at (heap u)) as)"
  shows "\<exists>u' bs. HASH_ADD_INORDER cmp a u = Some u' \<and> ut_inv u' bs \<and> set bs = insert a (set as) \<and>
    sorted_wrt (\<lambda>x y. cmp x y \<le> 0) (map (payload_at (heap u')) bs)"
proof -
  define P where "P c \<longleftrightarrow> cmp (payload_at (heap u) c) (payload n) \<le> 0" for c
  let ?tw = "takeWhile P as" and ?dw = "dropWhile P as"
  let ?le = "\<lambda>x y. cmp (payload_at (heap u) x) (payload_at (heap u) y) \<le> 0"
  have pn: "payload_at (heap u) a = payload n" using a(2) by (simp add: payload_at_def)
  have "sorted_wrt ?le (?tw @ ?dw)" using sorted by (simp add: sorted_wrt_map)
  then have s: "sorted_wrt ?le ?tw" "sorted_wrt ?le ?dw" "\<forall>x\<in>set ?tw. \<forall>y\<in>set ?dw. ?le x y"
    unfolding sorted_wrt_append by simp_all
  have low: "\<forall>x\<in>set ?tw. ?le x a" unfolding pn by (auto dest: set_takeWhileD simp: P_def)
  have high: "\<forall>y\<in>set ?dw. ?le a y"
  proof (cases "?dw = []")
    case False
    then obtain c cs where dw: "?dw = c # cs" by (cases ?dw) simp_all
    have "\<not> P (List.hd ?dw)" by (rule hd_dropWhile [OF False])
    then have "?le a c" using total unfolding pn by (simp add: P_def dw)
    then show ?thesis using s(2) trans unfolding dw by auto
  qed (simp only: list.set empty_iff ball_simps)
  have le: "sorted_wrt ?le (?tw @ a # ?dw)" using s low high by (simp add: sorted_wrt_append)
  obtain u' where u': "HASH_ADD_INORDER cmp a u = Some u'" "ut_inv u' (?tw @ a # ?dw)"
    and keep: "\<forall>c\<in>insert a (set as). payload_at (heap u') c = payload_at (heap u) c"
    using HASH_ADD_INORDER_ok [OF inv a fresh, of cmp] unfolding P_def [symmetric] by blast
  have "set ?tw \<union> set ?dw = set as" by (metis set_append takeWhile_dropWhile_id)
  then have set_bs: "set (?tw @ a # ?dw) = insert a (set as)" by auto
  have "map (payload_at (heap u')) (?tw @ a # ?dw) = map (payload_at (heap u)) (?tw @ a # ?dw)"
    by (rule map_cong [OF refl]) (use keep set_bs in blast)
  then have "sorted_wrt (\<lambda>x y. cmp x y \<le> 0) (map (payload_at (heap u')) (?tw @ a # ?dw))"
    using le by (simp only: sorted_wrt_map)
  then show ?thesis using u' set_bs by blast
qed

text \<open>Replacing in order keeps a sorted table sorted.\<close>

lemma HASH_REPLACE_INORDER_sorted:
  fixes cmp :: "u64 \<times> 'a \<Rightarrow> u64 \<times> 'a \<Rightarrow> int" and u :: "'a ut_node_scheme uthash"
  assumes inv: "ut_inv u as" and a: "a \<notin> set as" "heap u a = Some n"
    and total: "\<And>x y. 0 < cmp x y \<Longrightarrow> cmp y x \<le> 0" and trans: "\<And>x y z. cmp x y \<le> 0 \<Longrightarrow> cmp y z \<le> 0 \<Longrightarrow> cmp x z \<le> 0"
    and sorted: "sorted_wrt (\<lambda>x y. cmp x y \<le> 0) (map (payload_at (heap u)) as)"
  defines "P \<equiv> \<lambda>c. key_at (heap u) c = Some (key n)"
  shows "\<exists>u' bs. HASH_REPLACE_INORDER cmp a u = Some (find P as, u') \<and> ut_inv u' bs \<and>
    set bs = insert a {c \<in> set as. \<not> P c} \<and> sorted_wrt (\<lambda>x y. cmp x y \<le> 0) (map (payload_at (heap u')) bs)"
proof -
  obtain u1 where f: "HASH_FIND_BYHASHVALUE u (key n) sizeof_record_key_t (HASH_VALUE (key n)) = Some (find P as)"
    and u1: "(case find P as of None \<Rightarrow> Some u | Some r \<Rightarrow> HASH_DELETE r u) = Some u1"
      "ut_inv u1 (filter (\<lambda>c. \<not> P c) as)" "same_core (heap u) (heap u1)" "heap u1 a = heap u a"
    and fresh: "\<forall>c\<in>set (filter (\<lambda>c. \<not> P c) as). key_at (heap u1) c \<noteq> Some (key n)"
    using replaced_ok [OF inv a(1), of "key n"] unfolding P_def by blast
  have "payload_at (heap u1) c = payload_at (heap u) c" if c: "c \<in> set as" for c
  proof -
    obtain m where m: "heap u c = Some m" using ut_inv_elem [OF inv c] by blast
    obtain m' where "heap u1 c = Some m'" "core m' = core m" using same_core_SomeE [OF u1(3) m] .
    then show ?thesis using m payload_core by (simp add: payload_at_def)
  qed
  then have same: "map (payload_at (heap u1)) (filter (\<lambda>c. \<not> P c) as) = map (payload_at (heap u)) (filter (\<lambda>c. \<not> P c) as)"
    by simp
  have "sorted_wrt (\<lambda>x y. cmp (payload_at (heap u) x) (payload_at (heap u) y) \<le> 0) (filter (\<lambda>c. \<not> P c) as)"
    using sorted by (intro sorted_wrt_filter) (simp add: sorted_wrt_map)
  then have s: "sorted_wrt (\<lambda>x y. cmp x y \<le> 0) (map (payload_at (heap u1)) (filter (\<lambda>c. \<not> P c) as))"
    unfolding same by (simp add: sorted_wrt_map)
  have b: "a \<notin> set (filter (\<lambda>c. \<not> P c) as)" "heap u1 a = Some n" using a u1(4) by simp_all
  have "\<exists>u' bs. HASH_ADD_INORDER cmp a u1 = Some u' \<and> ut_inv u' bs \<and> set bs = insert a (set (filter (\<lambda>c. \<not> P c) as)) \<and>
      sorted_wrt (\<lambda>x y. cmp x y \<le> 0) (map (payload_at (heap u')) bs)"
    by (rule HASH_ADD_INORDER_sorted [OF u1(2) b fresh _ _ s]) (fact total, fact trans)
  then obtain u' bs where "HASH_ADD_INORDER cmp a u1 = Some u'" "ut_inv u' bs"
      "set bs = insert a (set (filter (\<lambda>c. \<not> P c) as))" "sorted_wrt (\<lambda>x y. cmp x y \<le> 0) (map (payload_at (heap u')) bs)"
    by blast
  then show ?thesis
    using a(2) f u1(1,4) by (auto simp: HASH_REPLACE_INORDER_def HASH_REPLACE_BYHASHVALUE_INORDER_def HASH_ADD_INORDER_def)
qed

end
