(* ===== verification/Merge_Runs.thy ===== *)
theory Merge_Runs
  imports Main "HOL-Library.Multiset"
begin

text \<open>
  Bottom-up merge sort on lists, the specification of \<open>HASH_SRT\<close>: one pass merges neighbouring sorted
  runs of length \<open>n\<close> and leaves sorted runs of length \<open>2 * n\<close>, a permutation in which elements that
  compare equal keep their order.
\<close>

subsection \<open>Merge sort on lists\<close>

fun merge_runs :: "('b \<Rightarrow> 'b \<Rightarrow> bool) \<Rightarrow> 'b list \<Rightarrow> 'b list \<Rightarrow> 'b list" where
  "merge_runs le [] ys = ys"
| "merge_runs le xs [] = xs"
| "merge_runs le (x # xs) (y # ys) = (if le x y then x # merge_runs le xs (y # ys) else y # merge_runs le (x # xs) ys)"

lemma merge_runs_Nil [simp]: "merge_runs le xs [] = xs"
  by (cases xs) simp_all

lemma mset_merge_runs [simp]: "mset (merge_runs le xs ys) = mset xs + mset ys"
  by (induction le xs ys rule: merge_runs.induct) simp_all

lemma set_merge_runs [simp]: "set (merge_runs le xs ys) = set xs \<union> set ys"
  by (metis mset_merge_runs set_mset_mset set_mset_union)

lemma length_merge_runs [simp]: "length (merge_runs le xs ys) = length xs + length ys"
  by (metis mset_merge_runs size_mset size_union)

function merge_pass :: "('b \<Rightarrow> 'b \<Rightarrow> bool) \<Rightarrow> nat \<Rightarrow> 'b list \<Rightarrow> 'b list \<times> nat" where
  "merge_pass le n xs =
     (if xs = [] \<or> n = 0 then (xs, 0)
      else (let (zs, k) = merge_pass le n (drop (2 * n) xs)
            in (merge_runs le (take n xs) (take n (drop n xs)) @ zs, Suc k)))"
  by pat_completeness auto
termination by (relation "measure (\<lambda>(le, n, xs). length xs)") auto

declare merge_pass.simps [simp del]

text \<open>A list of sorted runs of length \<open>n\<close>, the last of which may be shorter.\<close>

function runs :: "('b \<Rightarrow> 'b \<Rightarrow> bool) \<Rightarrow> nat \<Rightarrow> 'b list \<Rightarrow> bool" where
  "runs le n xs = (if xs = [] \<or> n = 0 then True else sorted_wrt le (take n xs) \<and> runs le n (drop n xs))"
  by pat_completeness auto
termination by (relation "measure (\<lambda>(le, n, xs). length xs)") auto

declare runs.simps [simp del]

definition total_preorder :: "('b \<Rightarrow> 'b \<Rightarrow> bool) \<Rightarrow> bool" where
  "total_preorder le \<longleftrightarrow> (\<forall>x y. le x y \<or> le y x) \<and> (\<forall>x y z. le x y \<longrightarrow> le y z \<longrightarrow> le x z)"

lemma merge_runs_sorted:
  assumes "total_preorder le"
  shows "sorted_wrt le xs \<Longrightarrow> sorted_wrt le ys \<Longrightarrow> sorted_wrt le (merge_runs le xs ys)"
  using assms
proof (induction le xs ys rule: merge_runs.induct)
  case (3 le x xs y ys)
  have t: "le a c" if "le a b" "le b c" for a b c using 3(5) that unfolding total_preorder_def by blast
  show ?case
  proof (cases "le x y")
    case True
    then show ?thesis using 3 t [OF True] by auto
  next
    case False
    then have "le y x" using 3(5) unfolding total_preorder_def by blast
    then show ?thesis using 3 False t [OF \<open>le y x\<close>] by auto
  qed
qed simp_all

text \<open>Elements that the order does not tell apart keep their order.\<close>

definition alike :: "('b \<Rightarrow> 'b \<Rightarrow> bool) \<Rightarrow> 'b \<Rightarrow> 'b \<Rightarrow> bool" where
  "alike le a b \<longleftrightarrow> le a b \<and> le b a"

lemma merge_runs_stable:
  assumes "total_preorder le"
  shows "sorted_wrt le xs \<Longrightarrow> filter (alike le a) (merge_runs le xs ys) = filter (alike le a) xs @ filter (alike le a) ys"
  using assms
proof (induction le xs ys rule: merge_runs.induct)
  case (3 le x xs y ys)
  show ?case
  proof (cases "le x y")
    case True
    then show ?thesis using 3 by simp
  next
    case False
    have t: "le b d" if "le b c" "le c d" for b c d using 3(4) that unfolding total_preorder_def by blast
    have "filter (alike le a) (x # xs) = []" if "alike le a y"
    proof -
      have "\<not> alike le a z" if z: "z \<in> set (x # xs)" for z
      proof
        assume "alike le a z"
        then have "le z y" using \<open>alike le a y\<close> t unfolding alike_def by blast
        moreover have "z = x \<or> le x z" using z 3(3) by auto
        ultimately show False using False t by blast
      qed
      then show ?thesis by (simp add: filter_empty_conv)
    qed
    then show ?thesis using 3 False by (cases "alike le a y") simp_all
  qed
qed simp_all

lemma merge_pass_Cons:
  assumes "xs \<noteq> []" and "0 < n"
  obtains zs k where "merge_pass le n (drop (2 * n) xs) = (zs, k)"
    and "merge_pass le n xs = (merge_runs le (take n xs) (take n (drop n xs)) @ zs, Suc k)"
  using assms by (cases "merge_pass le n (drop (2 * n) xs)") (simp add: merge_pass.simps [of le n xs])

lemma merge_pass_count: "0 < n \<Longrightarrow> snd (merge_pass le n ys) = 0 \<longleftrightarrow> ys = []"
  by (subst merge_pass.simps) (simp split: prod.split)

lemma merge_pass_ok:
  assumes "merge_pass le n xs = (ys, k)" and "0 < n" and "total_preorder le" and "runs le n xs"
  shows "mset ys = mset xs \<and> runs le (2 * n) ys \<and> filter (alike le a) ys = filter (alike le a) xs \<and>
    (k \<le> 1 \<longleftrightarrow> length xs \<le> 2 * n)"
  using assms
proof (induction le n xs arbitrary: ys k rule: merge_pass.induct)
  case (1 le n xs)
  show ?case
  proof (cases "xs = []")
    case True
    then show ?thesis using 1(2) by (simp add: merge_pass.simps runs.simps)
  next
    case False
    obtain zs j where rest: "merge_pass le n (drop (2 * n) xs) = (zs, j)"
      and eq: "merge_pass le n xs = (merge_runs le (take n xs) (take n (drop n xs)) @ zs, Suc j)"
      by (rule merge_pass_Cons [OF False \<open>0 < n\<close>])
    let ?m = "merge_runs le (take n xs) (take n (drop n xs))"
    have y: "ys = ?m @ zs" "k = Suc j" using eq 1(2) by auto
    have r1: "sorted_wrt le (take n xs)" "runs le n (drop n xs)"
      using 1(5) False 1(3) by (simp_all add: runs.simps [of le n xs])
    then have r2: "sorted_wrt le (take n (drop n xs))" "runs le n (drop (2 * n) xs)"
      using 1(3) by (cases "drop n xs = []"; simp add: runs.simps [of le n "drop n xs"] runs.simps [of le n "[]"] mult_2 add.commute)+
    have IH: "mset zs = mset (drop (2 * n) xs)" "runs le (2 * n) zs"
      "filter (alike le a) zs = filter (alike le a) (drop (2 * n) xs)" "j \<le> 1 \<longleftrightarrow> length (drop (2 * n) xs) \<le> 2 * n"
      using 1(1) [OF _ rest 1(3,4) r2(2)] False 1(3) by auto
    have split: "xs = take n xs @ take n (drop n xs) @ drop (2 * n) xs"
      by (metis append_take_drop_id drop_drop mult_2)
    have ms: "sorted_wrt le ?m" by (rule merge_runs_sorted [OF 1(4) r1(1) r2(1)])
    have "mset ys = mset xs" 
      using arg_cong [OF split, of mset] IH(1) y(1) by (simp only: mset_append mset_merge_runs add.assoc)
    moreover have "filter (alike le a) ys = filter (alike le a) xs"
      
      using arg_cong [OF split, of "filter (alike le a)"] merge_runs_stable [OF 1(4) r1(1)] IH(3) y(1)
      by (simp only: filter_append append_assoc)
    moreover have "j = 0 \<longleftrightarrow> length xs \<le> 2 * n"
      using merge_pass_count [OF 1(3), of le "drop (2 * n) xs"] rest by simp
    moreover have "runs le (2 * n) ys"
    proof (cases "length xs \<le> 2 * n")
      case True
      then have "zs = []" using IH(1) by simp
      then show ?thesis using ms y(1) True by (subst runs.simps) (simp add: runs.simps [of le "2 * n" "[]"] length_merge_runs)
    next
      case False
      then have "length ?m = 2 * n" by simp
      then show ?thesis using ms y(1) IH(2) by (subst runs.simps) simp
    qed
    ultimately show ?thesis using y(2) by auto
  qed
qed

lemma runs_one: "runs le (Suc 0) xs"
proof (induction xs)
  case (Cons x xs)
  then show ?case by (simp add: runs.simps [of le "Suc 0" "x # xs"])
qed (simp add: runs.simps)

lemma runs_sorted: "runs le n xs \<Longrightarrow> length xs \<le> n \<Longrightarrow> sorted_wrt le xs"
  by (cases "xs = []") (auto simp: runs.simps [of le n xs] split: if_splits)

end
