(* ===== verification/Uthash_Sort.thy ===== *)
theory Uthash_Sort
  imports Uthash_Order Merge_Runs
begin

text \<open>
  \<open>HASH_SRT\<close> (\<open>HASH_SORT\<close>) of \<open>include/uthash.h\<close>, the merge sort that relinks the app order in place:
  the loops, and the proof that they implement the merge sort of \<open>Merge_Runs\<close>. \<open>insize\<close> is a natural
  number; an \<open>unsigned\<close> only overflows with more than \<open>2^31\<close> elements.
\<close>

subsection \<open>HASH_SRT\<close>

text \<open>
  The comparison function is an argument, as in \<open>HASH_ADD_INORDER\<close>. The \<open>for\<close> loop that steps \<open>q\<close> over
  a run of at most \<open>i\<close> elements, starting with \<open>q = p\<close>:
\<close>

fun srt_advance :: "'a ut_node_scheme memory \<Rightarrow> nat \<Rightarrow> nat \<Rightarrow> ptr \<Rightarrow> (nat \<times> ptr) option" where
  "srt_advance h 0 psize q = Some (psize, q)"
| "srt_advance h (Suc i) psize q = do {
     n \<leftarrow> deref h q;
     if nxt n = None then Some (psize + 1, None) else srt_advance h i (psize + 1) (nxt n) }"

text \<open>The choice of the next element \<open>e\<close>, from the run at \<open>p\<close> or the run at \<open>q\<close>.\<close>

definition srt_choose ::
  "(u64 \<times> 'a \<Rightarrow> u64 \<times> 'a \<Rightarrow> int) \<Rightarrow> 'a ut_node_scheme memory \<Rightarrow> nat \<Rightarrow> nat \<Rightarrow> ptr \<Rightarrow> ptr \<Rightarrow>
   (ptr \<times> ptr \<times> ptr \<times> nat \<times> nat) option" where
  "srt_choose cmpfcn h psize qsize p q =
     (if psize = 0
      then do { n \<leftarrow> deref h q; Some (q, p, nxt n, psize, qsize - 1) }
      else if qsize = 0 \<or> q = None
      then (case p of
          None \<Rightarrow> Some (p, p, q, psize - 1, qsize)
        | Some a \<Rightarrow> do { n \<leftarrow> h a; Some (p, nxt n, q, psize - 1, qsize) })
      else do {
        m \<leftarrow> deref h p;
        n \<leftarrow> deref h q;
        if cmpfcn (payload m) (payload n) \<le> 0
        then Some (p, nxt m, q, psize - 1, qsize)
        else Some (q, p, nxt n, psize, qsize - 1) })"

text \<open>Appending \<open>e\<close> to the list that is built from \<open>list\<close> to \<open>tail\<close>.\<close>

definition srt_emit ::
  "ptr \<Rightarrow> ptr \<Rightarrow> ptr \<Rightarrow> 'a ut_node_scheme memory \<Rightarrow> (ptr \<times> 'a ut_node_scheme memory) option" where
  "srt_emit e hs_list hs_tail h = do {
     (hs_list, h) \<leftarrow>
       (if hs_tail \<noteq> None
        then do { h \<leftarrow> modify hs_tail (\<lambda>m. m\<lparr>nxt := e\<rparr>) h; Some (hs_list, h) }
        else Some (e, h));
     h \<leftarrow> modify_if e (\<lambda>m. m\<lparr>prev := hs_tail\<rparr>) h;
     Some (hs_list, h) }"

partial_function (option) srt_merge ::
  "(u64 \<times> 'a \<Rightarrow> u64 \<times> 'a \<Rightarrow> int) \<Rightarrow> nat \<Rightarrow> nat \<Rightarrow> ptr \<Rightarrow> ptr \<Rightarrow> ptr \<Rightarrow> ptr \<Rightarrow> 'a ut_node_scheme memory \<Rightarrow>
   (ptr \<times> ptr \<times> ptr \<times> 'a ut_node_scheme memory) option" where
  "srt_merge cmpfcn psize qsize p q hs_list hs_tail h =
     (if psize \<noteq> 0 \<or> qsize \<noteq> 0 \<and> q \<noteq> None
      then do {
        (e, p, q, psize, qsize) \<leftarrow> srt_choose cmpfcn h psize qsize p q;
        (hs_list, h) \<leftarrow> srt_emit e hs_list hs_tail h;
        srt_merge cmpfcn psize qsize p q hs_list e h }
      else Some (q, hs_list, hs_tail, h))"

text \<open>One pass merges neighbouring runs of \<open>insize\<close> elements and counts the merges.\<close>

partial_function (option) srt_pass ::
  "(u64 \<times> 'a \<Rightarrow> u64 \<times> 'a \<Rightarrow> int) \<Rightarrow> nat \<Rightarrow> ptr \<Rightarrow> ptr \<Rightarrow> ptr \<Rightarrow> nat \<Rightarrow> 'a ut_node_scheme memory \<Rightarrow>
   (ptr \<times> ptr \<times> nat \<times> 'a ut_node_scheme memory) option" where
  "srt_pass cmpfcn insize p hs_list hs_tail nmerges h =
     (if p \<noteq> None
      then do {
        (psize, q) \<leftarrow> srt_advance h insize 0 p;
        (q, hs_list, hs_tail, h) \<leftarrow> srt_merge cmpfcn psize insize p q hs_list hs_tail h;
        srt_pass cmpfcn insize q hs_list hs_tail (nmerges + 1) h }
      else Some (hs_list, hs_tail, nmerges, h))"

partial_function (option) srt_loop ::
  "(u64 \<times> 'a \<Rightarrow> u64 \<times> 'a \<Rightarrow> int) \<Rightarrow> nat \<Rightarrow> ptr \<Rightarrow> 'a ut_node_scheme memory \<Rightarrow>
   (ptr \<times> ptr \<times> 'a ut_node_scheme memory) option" where
  "srt_loop cmpfcn insize hs_list h = do {
     (hs_list, hs_tail, nmerges, h) \<leftarrow> srt_pass cmpfcn insize hs_list None None 0 h;
     h \<leftarrow> modify_if hs_tail (\<lambda>m. m\<lparr>nxt := None\<rparr>) h;
     if nmerges \<le> 1 then Some (hs_list, hs_tail, h)
     else srt_loop cmpfcn (insize * 2) hs_list h }"

definition HASH_SRT ::
  "(u64 \<times> 'a \<Rightarrow> u64 \<times> 'a \<Rightarrow> int) \<Rightarrow> 'a ut_node_scheme uthash \<Rightarrow> 'a ut_node_scheme uthash option" where
  "HASH_SRT cmpfcn u =
     (if head u \<noteq> None
      then do {
        t \<leftarrow> tbl u;
        (hs_list, hs_tail, h) \<leftarrow> srt_loop cmpfcn 1 (head u) (heap u);
        Some (u\<lparr>heap := h, head := hs_list, tbl := Some (t\<lparr>tail := hs_tail\<rparr>)\<rparr>) }
      else Some u)"

subsection \<open>The sort on the heap\<close>

text \<open>A run that is still to be merged is linked forward only; the list that is built both ways.\<close>

fun fseg :: "'a ut_node_scheme memory \<Rightarrow> ptr \<Rightarrow> addr list \<Rightarrow> ptr \<Rightarrow> bool" where
  "fseg h p [] r \<longleftrightarrow> r = p"
| "fseg h p (a # as) r \<longleftrightarrow> p = Some a \<and> (\<exists>n. h a = Some n \<and> fseg h (nxt n) as r)"

definition built :: "'a ut_node_scheme memory \<Rightarrow> ptr \<Rightarrow> addr list \<Rightarrow> ptr \<Rightarrow> bool" where
  "built h hs_list os hs_tail \<longleftrightarrow> (\<exists>r. dseg (app_links h) None hs_list os hs_tail r) \<and> (os = [] \<longrightarrow> hs_list = None)"

text \<open>Only the links in app order of the elements \<open>S\<close> have changed.\<close>

definition relinked :: "addr set \<Rightarrow> 'a ut_node_scheme memory \<Rightarrow> 'a ut_node_scheme memory \<Rightarrow> bool" where
  "relinked S h h' \<longleftrightarrow> same_core h h' \<and> bkt_links h' = bkt_links h \<and> (\<forall>c. c \<notin> S \<longrightarrow> h' c = h c)"

lemma relinked_refl [simp]: "relinked S h h"
  by (simp add: relinked_def)

lemma relinked_trans: "relinked S h1 h2 \<Longrightarrow> relinked T h2 h3 \<Longrightarrow> S \<union> T \<subseteq> U \<Longrightarrow> relinked U h1 h3"
  unfolding relinked_def using same_core_trans by (metis UnCI subsetD)

lemma relinked_upd:
  assumes "h a = Some n" and "core n' = core n" and "hh_prev n' = hh_prev n" and "hh_next n' = hh_next n" and "a \<in> S"
  shows "relinked S h (h(a := Some n'))"
  using assms by (auto simp: relinked_def same_core_upd links_of_def fun_eq_iff)

lemma payload_at_same_core: "same_core h h' \<Longrightarrow> payload_at h' = payload_at h"
proof
  fix a assume sc: "same_core h h'"
  show "payload_at h' a = payload_at h a"
  proof (rule same_core_cases [OF sc, of a])
    fix n n' assume n: "h a = Some n" "h' a = Some n'" "core n' = core n"
    show ?thesis using n(1,2) payload_core [OF n(3)] by (simp add: payload_at_def)
  qed (simp add: payload_at_def)
qed

lemma fseg_append: "fseg h p (xs @ ys) r \<longleftrightarrow> (\<exists>m. fseg h p xs m \<and> fseg h m ys r)"
  by (induction xs arbitrary: p) auto

lemma fseg_cong: "(\<And>c. c \<in> set xs \<Longrightarrow> h' c = h c) \<Longrightarrow> fseg h' p xs r \<longleftrightarrow> fseg h p xs r"
  by (induction xs arbitrary: p) auto

lemma fseg_relinked: "fseg h p xs r \<Longrightarrow> relinked S h h' \<Longrightarrow> set xs \<inter> S = {} \<Longrightarrow> fseg h' p xs r"
  using fseg_cong [of xs h' h p r] unfolding relinked_def by (metis disjoint_iff)

lemma fseg_first: "fseg h p xs None \<Longrightarrow> p = None \<longleftrightarrow> xs = []"
  by (cases xs) auto

lemma dseg_fseg: "dseg (app_links h) b p xs e r \<Longrightarrow> fseg h p xs r"
  by (induction xs arbitrary: b p) (auto simp: links_of_iff)

lemma srt_emit_ok:
  assumes "built h hs_list os hs_tail" and "distinct os" and "a \<notin> set os" and "h a = Some n"
  shows "\<exists>list' h'. srt_emit (Some a) hs_list hs_tail h = Some (list', h') \<and> built h' list' (os @ [a]) (Some a) \<and>
    relinked (insert a (set os)) h h'"
proof -
  obtain r where seg: "dseg (app_links h) None hs_list os hs_tail r" using assms(1) by (auto simp: built_def)
  show ?thesis
  proof (cases os rule: rev_cases)
    case Nil
    then have t: "hs_tail = None" using seg by simp
    let ?h = "h(a := Some (n\<lparr>prev := None\<rparr>))"
    have "srt_emit (Some a) hs_list hs_tail h = Some (Some a, ?h)" using t assms(4) by (simp add: srt_emit_def)
    moreover have "built ?h (Some a) (os @ [a]) (Some a)" using Nil by (auto simp: built_def links_of_def)
    moreover have "relinked (insert a (set os)) h ?h" by (rule relinked_upd [where n = n]) (simp_all add: assms(4))
    ultimately show ?thesis by blast
  next
    case (snoc zs z)
    have t: "hs_tail = Some z" using dseg_last [OF seg] snoc by simp
    obtain m where m: "h z = Some m" using dseg_alloc [OF seg, of z] snoc by auto
    have za: "z \<noteq> a" "z \<notin> set zs" using assms(2,3) snoc by auto
    let ?h1 = "h(z := Some (m\<lparr>nxt := Some a\<rparr>))"
    let ?h2 = "?h1(a := Some (n\<lparr>prev := Some z\<rparr>))"
    have run: "srt_emit (Some a) hs_list hs_tail h = Some (hs_list, ?h2)"
      using t m za assms(4) by (simp add: srt_emit_def)
    have "dseg (app_links ?h2) None hs_list (zs @ [z]) hs_tail (Some a)"
      by (rule dseg_relink_last [where l = "app_links h"])
        (use seg snoc m za assms(3) in \<open>auto simp: links_of_def\<close>)
    then have "dseg (app_links ?h2) None hs_list os (Some z) (Some a)" using snoc t by simp
    moreover have "dseg (app_links ?h2) (Some z) (Some a) [a] (Some a) (nxt n)" by (simp add: links_of_def)
    ultimately have "dseg (app_links ?h2) None hs_list (os @ [a]) (Some a) (nxt n)" unfolding dseg_append by blast
    then have "built ?h2 hs_list (os @ [a]) (Some a)" by (auto simp: built_def)
    moreover have "relinked (insert a (set os)) h ?h1" by (rule relinked_upd [where n = m]) (simp_all add: snoc m)
    moreover have "relinked (insert a (set os)) ?h1 ?h2"
      by (rule relinked_upd [where n = n]) (use assms(4) za in simp_all)
    ultimately show ?thesis using run relinked_trans [of "insert a (set os)" h ?h1 "insert a (set os)" ?h2] by blast
  qed
qed

lemma srt_merge_ok:
  assumes "built h hs_list os hs_tail" and "fseg h p ps r" and "fseg h q (qs @ rest) None"
    and "length ps = psize" and "length qs \<le> qsize" and "length qs < qsize \<longrightarrow> rest = []"
    and "distinct (os @ ps @ qs @ rest)" and "le = (\<lambda>x y. cmp (payload_at h x) (payload_at h y) \<le> 0)"
  shows "\<exists>q' list' tail' h'. srt_merge cmp psize qsize p q hs_list hs_tail h = Some (q', list', tail', h') \<and>
    built h' list' (os @ merge_runs le ps qs) tail' \<and> fseg h' q' rest None \<and> relinked (set (os @ ps @ qs)) h h'"
  using assms
proof (induction "length ps + length qs" arbitrary: h hs_list os hs_tail p ps r q qs psize qsize rule: less_induct)
  case less
  let ?goal = "\<exists>q' list' tail' h'. srt_merge cmp psize qsize p q hs_list hs_tail h = Some (q', list', tail', h') \<and>
    built h' list' (os @ merge_runs le ps qs) tail' \<and> fseg h' q' rest None \<and> relinked (set (os @ ps @ qs)) h h'"
  have q: "q = None \<longleftrightarrow> qs @ rest = []" using fseg_first [OF less.prems(3)] .
  have step: ?goal
    if c: "srt_choose cmp h psize qsize p q = Some (Some a, p', q', psize', qsize')"
      and more: "psize \<noteq> 0 \<or> qsize \<noteq> 0 \<and> q \<noteq> None"
      and segs: "fseg h p' ps' r'" "fseg h q' (qs' @ rest) None"
      and l: "length ps' = psize'" "length qs' \<le> qsize'" "length qs' < qsize' \<longrightarrow> rest = []"
      and m: "length ps' + length qs' < length ps + length qs" "set (a # ps' @ qs') = set (ps @ qs)"
      and d: "distinct (os @ a # ps' @ qs' @ rest)" and mr: "merge_runs le ps qs = a # merge_runs le ps' qs'" and n: "h a = Some n"
    for a p' q' psize' qsize' ps' qs' r' n
  proof -
    obtain list1 h1 where e: "srt_emit (Some a) hs_list hs_tail h = Some (list1, h1)"
      and b: "built h1 list1 (os @ [a]) (Some a)" and rl: "relinked (insert a (set os)) h h1"
      using srt_emit_ok [OF less.prems(1) _ _ n] d by auto
    have f: "fseg h1 p' ps' r'" "fseg h1 q' (qs' @ rest) None"
      using fseg_relinked [OF segs(1) rl] fseg_relinked [OF segs(2) rl] d by auto
    have le1: "le = (\<lambda>x y. cmp (payload_at h1 x) (payload_at h1 y) \<le> 0)"
      using less.prems(8) rl payload_at_same_core [of h h1] by (simp add: relinked_def)
    obtain q2 list2 tail2 h2 where
      r2: "srt_merge cmp psize' qsize' p' q' list1 (Some a) h1 = Some (q2, list2, tail2, h2)"
      and b2: "built h2 list2 ((os @ [a]) @ merge_runs le ps' qs') tail2" and f2: "fseg h2 q2 rest None"
      and rl2: "relinked (set ((os @ [a]) @ ps' @ qs')) h1 h2"
      using less.hyps [OF m(1) b f l _ le1] d by auto
    have "srt_merge cmp psize qsize p q hs_list hs_tail h = Some (q2, list2, tail2, h2)"
      using c more e r2 by (subst srt_merge.simps) simp
    moreover have "relinked (set (os @ ps @ qs)) h h2"
      by (rule relinked_trans [OF rl rl2]) (use m(2) in auto)
    ultimately show ?thesis using b2 f2 mr by auto
  qed
  show ?case
  proof (cases ps)
    case Nil
    show ?thesis
    proof (cases qs)
      case Nil
      then have "srt_merge cmp psize qsize p q hs_list hs_tail h = Some (q, hs_list, hs_tail, h)"
        using \<open>ps = []\<close> less.prems(4,6) q by (subst srt_merge.simps) auto
      then show ?thesis using Nil \<open>ps = []\<close> less.prems(1,3) by auto
    next
      case (Cons y ys)
      obtain n where n: "q = Some y" "h y = Some n" "fseg h (nxt n) (ys @ rest) None" using less.prems(3) Cons by auto
      show ?thesis
        by (rule step [of y p "nxt n" 0 "qsize - 1" "[]" p ys n])
          (use n Cons \<open>ps = []\<close> less.prems in \<open>auto simp: srt_choose_def\<close>)
    qed
  next
    case (Cons x xs)
    obtain m where m: "p = Some x" "h x = Some m" "fseg h (nxt m) xs r" using less.prems(2) Cons by auto
    show ?thesis
    proof (cases qs)
      case Nil
      then have "qsize = 0 \<or> q = None" using less.prems(6) q by auto
      then show ?thesis
        by (intro step [of x "nxt m" q "psize - 1" qsize xs r "[]" m])
          (use m Cons Nil less.prems in \<open>auto simp: srt_choose_def\<close>)
    next
      case Q: (Cons y ys)
      obtain n where n: "q = Some y" "h y = Some n" "fseg h (nxt n) (ys @ rest) None" using less.prems(3) Q by auto
      have lxy: "le x y \<longleftrightarrow> cmp (payload m) (payload n) \<le> 0" using less.prems(8) m(2) n(2) by (simp add: payload_at_def)
      show ?thesis
      proof (cases "le x y")
        case True
        show ?thesis
          by (rule step [of x "nxt m" q "psize - 1" qsize xs r qs m])
            (use m n Cons Q True lxy less.prems in \<open>auto simp: srt_choose_def\<close>)
      next
        case False
        show ?thesis
          by (rule step [of y p "nxt n" psize "qsize - 1" ps r ys n])
            (use m n Cons Q False lxy less.prems in \<open>auto simp: srt_choose_def\<close>)
      qed
    qed
  qed
qed

lemma srt_advance_ok:
  "fseg h p xs None \<Longrightarrow> xs \<noteq> [] \<Longrightarrow>
     \<exists>q. srt_advance h n c p = Some (c + length (take n xs), q) \<and> fseg h p (take n xs) q \<and> fseg h q (drop n xs) None"
proof (induction n arbitrary: p xs c)
  case (Suc i)
  then obtain a as n where a: "xs = a # as" "p = Some a" "h a = Some n" "fseg h (nxt n) as None"
    by (cases xs) auto
  show ?case
  proof (cases "as = []")
    case True
    then show ?thesis using a by auto
  next
    case False
    then have "nxt n \<noteq> None" using fseg_first [OF a(4)] by simp
    then show ?thesis using a Suc.IH [OF a(4) False, of "c + 1"] by auto
  qed
qed simp

lemma srt_pass_ok:
  assumes "built h hs_list os hs_tail" and "fseg h p xs None" and "distinct (os @ xs)" and "0 < n"
    and "le = (\<lambda>x y. cmp (payload_at h x) (payload_at h y) \<le> 0)" and "merge_pass le n xs = (ys, k)"
  shows "\<exists>list' tail' h'. srt_pass cmp n p hs_list hs_tail c h = Some (list', tail', c + k, h') \<and>
    built h' list' (os @ ys) tail' \<and> relinked (set (os @ xs)) h h'"
  using assms
proof (induction "length xs" arbitrary: xs h hs_list os hs_tail p ys k c rule: less_induct)
  case less
  show ?case
  proof (cases "xs = []")
    case True
    then show ?thesis using less.prems by (subst srt_pass.simps) (simp add: merge_pass.simps)
  next
    case False
    obtain zs j where rest: "merge_pass le n (drop (2 * n) xs) = (zs, j)"
      and eq: "merge_pass le n xs = (merge_runs le (take n xs) (take n (drop n xs)) @ zs, Suc j)"
      by (rule merge_pass_Cons [OF False less.prems(4)])
    let ?ps = "take n xs" and ?qs = "take n (drop n xs)" and ?rest = "drop (2 * n) xs"
    have split: "xs = ?ps @ ?qs @ ?rest" by (metis append_take_drop_id drop_drop mult_2)
    have y: "ys = merge_runs le ?ps ?qs @ zs" "k = Suc j" using eq less.prems(6) by auto
    obtain q where q: "srt_advance h n 0 p = Some (length ?ps, q)" "fseg h p ?ps q" "fseg h q (drop n xs) None"
      using srt_advance_ok [OF less.prems(2) False, of n 0] by auto
    have q2: "fseg h q (?qs @ ?rest) None" using q(3) by (metis append_take_drop_id drop_drop mult_2)
    have d: "distinct (os @ ?ps @ ?qs @ ?rest)" using less.prems(3) split by metis
    obtain q' list1 tail1 h1 where
      m: "srt_merge cmp (length ?ps) n p q hs_list hs_tail h = Some (q', list1, tail1, h1)"
      and b: "built h1 list1 (os @ merge_runs le ?ps ?qs) tail1" and f: "fseg h1 q' ?rest None"
      and rl: "relinked (set (os @ ?ps @ ?qs)) h h1"
      using srt_merge_ok [OF less.prems(1) q(2) q2 refl _ _ d less.prems(5), of n] by auto
    have le1: "le = (\<lambda>x y. cmp (payload_at h1 x) (payload_at h1 y) \<le> 0)"
      using less.prems(5) rl payload_at_same_core [of h h1] by (simp add: relinked_def)
    have d1: "distinct ((os @ merge_runs le ?ps ?qs) @ ?rest)"
    proof -
      have "mset ((os @ merge_runs le ?ps ?qs) @ ?rest) = mset (os @ ?ps @ ?qs @ ?rest)" by simp
      then show ?thesis using d by (metis mset_eq_imp_distinct_iff)
    qed
    have "length ?rest < length xs" using False less.prems(4) by simp
    from less.hyps [OF this b f d1 less.prems(4) le1 rest, of "c + 1"]
    obtain list2 tail2 h2 where
      p2: "srt_pass cmp n q' list1 tail1 (c + 1) h1 = Some (list2, tail2, c + 1 + j, h2)"
      and b2: "built h2 list2 ((os @ merge_runs le ?ps ?qs) @ zs) tail2"
      and rl2: "relinked (set ((os @ merge_runs le ?ps ?qs) @ ?rest)) h1 h2"
      by blast
    have "srt_pass cmp n p hs_list hs_tail c h = Some (list2, tail2, c + k, h2)"
      using q(1) m p2 y(2) fseg_first [OF less.prems(2)] False by (subst srt_pass.simps) simp
    moreover have "set (os @ ?ps @ ?qs) \<union> set ((os @ merge_runs le ?ps ?qs) @ ?rest) \<subseteq> set (os @ xs)"
      by (subst (6) split) auto
    ultimately show ?thesis using b2 y(1) relinked_trans [OF rl rl2] by auto
  qed
qed

lemma srt_loop_ok:
  assumes "fseg h p xs None" and "xs \<noteq> []" and "distinct xs" and "0 < n" and "runs le n xs"
    and "le = (\<lambda>x y. cmp (payload_at h x) (payload_at h y) \<le> 0)" and "total_preorder le"
  shows "\<exists>list' tail' h' ys. srt_loop cmp n p h = Some (list', tail', h') \<and>
    dseg (app_links h') None list' ys tail' None \<and> mset ys = mset xs \<and> sorted_wrt le ys \<and>
    (\<forall>a. filter (alike le a) ys = filter (alike le a) xs) \<and> relinked (set xs) h h'"
  using assms
proof (induction "length xs - n" arbitrary: xs h p n rule: less_induct)
  case less
  obtain ys k where mp: "merge_pass le n xs = (ys, k)" by (cases "merge_pass le n xs")
  have mp_ok: "mset ys = mset xs" "runs le (2 * n) ys" "\<And>a. filter (alike le a) ys = filter (alike le a) xs"
    "k \<le> 1 \<longleftrightarrow> length xs \<le> 2 * n"
    using merge_pass_ok [OF mp less.prems(4,7,5)] by auto
  have "built h None [] None" by (simp add: built_def)
  from srt_pass_ok [OF this less.prems(1) _ less.prems(4,6) mp, of 0] less.prems(3)
  obtain list1 tail1 h1 where r1: "srt_pass cmp n p None None 0 h = Some (list1, tail1, k, h1)"
    and b: "built h1 list1 ys tail1" and rl: "relinked (set xs) h h1" by auto
  have ne: "ys \<noteq> []" using mp_ok(1) less.prems(2) by auto
  have dys: "distinct ys" and sys: "set ys = set xs"
    using mp_ok(1) less.prems(3) by (metis mset_eq_imp_distinct_iff, metis mset_eq_setD)
  obtain r where seg: "dseg (app_links h1) None list1 ys tail1 r" using b by (auto simp: built_def)
  obtain zs z where ys: "ys = zs @ [z]" using ne by (cases ys rule: rev_cases) auto
  have t: "tail1 = Some z" using dseg_last [OF seg] ys by simp
  obtain m where m: "h1 z = Some m" using dseg_alloc [OF seg, of z] ys by auto
  let ?h2 = "h1(z := Some (m\<lparr>nxt := None\<rparr>))"
  have r2: "modify_if tail1 (\<lambda>m. m\<lparr>nxt := None\<rparr>) h1 = Some ?h2" using t m by simp
  have seg2: "dseg (app_links ?h2) None list1 ys tail1 None"
    unfolding ys by (rule dseg_relink_last [where l = "app_links h1"])
      (use seg ys dys m in \<open>auto simp: links_of_def\<close>)
  have rl2: "relinked (set xs) h1 ?h2" by (rule relinked_upd [where n = m]) (use m ys sys in auto)
  have rl3: "relinked (set xs) h ?h2" by (rule relinked_trans [OF rl rl2]) simp
  have run: "srt_loop cmp n p h = (if k \<le> 1 then Some (list1, tail1, ?h2) else srt_loop cmp (n * 2) list1 ?h2)"
    using r1 r2 by (subst srt_loop.simps) simp
  show ?case
  proof (cases "k \<le> 1")
    case True
    then have "length ys \<le> 2 * n" using mp_ok(1,4) by (metis size_mset)
    then have "sorted_wrt le ys" using runs_sorted [OF mp_ok(2)] by simp
    then show ?thesis using run True seg2 mp_ok rl3 by auto
  next
    case False
    have len: "length ys = length xs" using mp_ok(1) by (metis size_mset)
    have le2: "le = (\<lambda>x y. cmp (payload_at ?h2 x) (payload_at ?h2 y) \<le> 0)"
      using less.prems(6) rl3 payload_at_same_core [of h ?h2] by (simp add: relinked_def)
    have "length ys - n * 2 < length xs - n" using False mp_ok(4) len less.prems(4) by auto
    moreover have "runs le (n * 2) ys" using mp_ok(2) by (simp add: mult.commute)
    ultimately obtain list3 tail3 h3 us where
      r3: "srt_loop cmp (n * 2) list1 ?h2 = Some (list3, tail3, h3)"
      and seg3: "dseg (app_links h3) None list3 us tail3 None" and us: "mset us = mset ys" "sorted_wrt le us"
      "\<forall>a. filter (alike le a) us = filter (alike le a) ys" and rl4: "relinked (set ys) ?h2 h3"
      using less.hyps [of ys "n * 2" ?h2 list1] dseg_fseg [OF seg2] ne dys less.prems(4,7) le2 by auto
    have "relinked (set xs) h h3" by (rule relinked_trans [OF rl3 rl4]) (simp add: sys)
    then show ?thesis using run False r3 seg3 us mp_ok by auto
  qed
qed

text \<open>
  C37: \<open>HASH_SRT\<close> ends, and the app order is then the elements sorted by the comparison, those that compare
  equal in their old order; nothing else of the table changes, so lookups are as before.
\<close>

theorem HASH_SRT_sorts:
  fixes cmp :: "u64 \<times> 'a \<Rightarrow> u64 \<times> 'a \<Rightarrow> int" and u :: "'a ut_node_scheme uthash"
  assumes inv: "ut_inv u as"
    and le: "le = (\<lambda>x y. cmp (payload_at (heap u) x) (payload_at (heap u) y) \<le> 0)" and ord: "total_preorder le"
  shows "\<exists>u' bs. HASH_SRT cmp u = Some u' \<and> ut_inv u' bs \<and> mset bs = mset as \<and> sorted_wrt le bs \<and>
    (\<forall>a. filter (alike le a) bs = filter (alike le a) as) \<and> payload_at (heap u') = payload_at (heap u) \<and>
    (\<forall>k. HASH_FIND u' k = HASH_FIND u k)"
proof (cases "as = []")
  case True
  then show ?thesis using inv by (auto simp: HASH_SRT_def ut_inv_Nil)
next
  case False
  obtain t n where t: "tbl u = Some t" "table_ok (heap u) (head u) t as" and hd: "head u = Some (hd as)"
    using ut_invE [OF inv False] by blast
  have seg: "dseg (app_links (heap u)) None (head u) as (tail t) None" using t(2) by (simp add: table_ok_def)
  have d: "distinct as" using inv by (simp add: ut_inv_def)
  obtain l tl' h' bs where r: "srt_loop cmp 1 (head u) (heap u) = Some (l, tl', h')"
    and seg': "dseg (app_links h') None l bs tl' None" and bs: "mset bs = mset as" "sorted_wrt le bs"
    "\<forall>a. filter (alike le a) bs = filter (alike le a) as" and rl: "relinked (set as) (heap u) h'"
    using srt_loop_ok [OF dseg_fseg [OF seg] False d _ _ le ord, of 1] runs_one [of le as] by auto
  let ?u = "u\<lparr>heap := h', head := l, tbl := Some (t\<lparr>tail := tl'\<rparr>)\<rparr>"
  have sc: "same_core (heap u) h'" and bl: "bkt_links h' = bkt_links (heap u)" using rl by (simp_all add: relinked_def)
  have set_bs: "set bs = set as" and d': "distinct bs" and len: "length bs = length as" and ne: "bs \<noteq> []"
    using bs(1) d False by (metis mset_eq_setD, metis mset_eq_imp_distinct_iff, metis size_mset, metis mset_zero_iff)
  have "table_ok h' l (t\<lparr>tail := tl'\<rparr>) bs"
    using seg' t(2) set_bs len by (simp add: table_ok_def bkts_same [OF bl sc])
  moreover have "elems h' bs"
    using elems_same_core [OF sc] inv set_bs unfolding ut_inv_def elems_def by metis
  moreover have keys: "key_at h' = key_at (heap u)" using same_core_key_at [OF sc] by (simp add: fun_eq_iff)
  then have "inj_on (key_at h') (set bs)" using inv set_bs by (simp add: ut_inv_def)
  ultimately have inv': "ut_inv ?u bs" using d' ne by (simp add: ut_inv_def)
  have "HASH_FIND ?u k = HASH_FIND u k" for k
    unfolding HASH_FIND_ok [OF inv'] HASH_FIND_ok [OF inv]
    using find_unique [of "key_at (heap u)" "set as" bs as "Some k"] inv set_bs keys by (simp add: ut_inv_def)
  moreover have "HASH_SRT cmp u = Some ?u" using t(1) hd r by (simp add: HASH_SRT_def)
  ultimately show ?thesis using inv' bs payload_at_same_core [OF sc] by auto
qed

text \<open>Sorting two elements by decreasing key turns them around.\<close>

lemma HASH_SRT_sorts_witness:
  "\<exists>u u'. run_all HASH_ADD [0, 1] ut_ex = Some u \<and>
     HASH_SRT (\<lambda>x y. int (unat (fst y)) - int (unat (fst x))) u = Some u' \<and> ut_walk (heap u') (head u') = Some [1, 0] \<and>
     HASH_FIND u' 11 = HASH_FIND u 11"
proof -
  obtain u where u: "run_all HASH_ADD [0, 1] ut_ex = Some u" "ut_inv u [0, 1]"
    and keys: "key_at (heap u) = [0 \<mapsto> 10, 1 \<mapsto> 11, 2 \<mapsto> 12]"
    using ut_ex_two by blast
  define cmp :: "u64 \<times> unit \<Rightarrow> u64 \<times> unit \<Rightarrow> int" where "cmp x y = int (unat (fst y)) - int (unat (fst x))" for x y
  define le where "le = (\<lambda>x y. cmp (payload_at (heap u) x) (payload_at (heap u) y) \<le> 0)"
  have k: "fst (payload_at (heap u) 0) = 10" "fst (payload_at (heap u) 1) = 11"
    using fun_cong [OF keys, of 0] fun_cong [OF keys, of 1] by (auto simp: key_at_def payload_at_def payload_def)
  have ord: "total_preorder le" by (auto simp: total_preorder_def le_def cmp_def)
  obtain u' bs where r: "HASH_SRT cmp u = Some u'" "ut_inv u' bs" "mset bs = mset [0, 1]" "sorted_wrt le bs"
    "\<forall>k. HASH_FIND u' k = HASH_FIND u k"
    using HASH_SRT_sorts [OF u(2) le_def ord] by blast
  have "length bs = 2" using arg_cong [OF r(3), of size] by simp
  then obtain x y where bs: "bs = [x, y]" by (auto simp: numeral_2_eq_2 length_Suc_conv)
  have "\<not> le 0 1" using k by (simp add: le_def cmp_def)
  then have "bs = [1, 0]" using r(3,4) bs by (auto simp: add_eq_conv_ex add_mset_eq_single)
  then show ?thesis using u(1) r ut_inv_walk [OF r(2)] unfolding cmp_def by auto
qed

end
