(* ===== verification/Uthash_Bloom.thy ===== *)
theory Uthash_Bloom
  imports Uthash_Ops
begin

text \<open>
  The Bloom filter of \<open>include/uthash.h\<close>, compiled in when \<open>HASH_BLOOM\<close> is defined as the logarithm
  \<open>nbits\<close> of its size in bits: a bit vector in the table, in which every added element sets the bit
  of its hash, and which \<open>HASH_FIND\<close> asks before it searches the bucket. The vector is kept beside
  the table of \<open>Uthash\<close>; it is absent when the table is. Deleting clears no bits. The build of the
  program does not define \<open>HASH_BLOOM\<close>; what is shown is that it could. The size is \<open>1UL << HASH_BLOOM\<close>, so the
  model is that of the code for \<open>nbits\<close> below 64; a shift by 64 or more is undefined in C.
\<close>

subsection \<open>The bit vector\<close>

definition HASH_BLOOM_BITLEN :: "nat \<Rightarrow> nat" where
  "HASH_BLOOM_BITLEN nbits = 2 ^ nbits"

definition HASH_BLOOM_BYTELEN :: "nat \<Rightarrow> nat" where
  "HASH_BLOOM_BYTELEN nbits = HASH_BLOOM_BITLEN nbits div 8 + (if HASH_BLOOM_BITLEN nbits mod 8 \<noteq> 0 then 1 else 0)"

definition HASH_BLOOM_MAKE :: "nat \<Rightarrow> u8 list" where
  "HASH_BLOOM_MAKE nbits = replicate (HASH_BLOOM_BYTELEN nbits) 0"

definition HASH_BLOOM_BITSET :: "u8 list \<Rightarrow> u32 \<Rightarrow> u8 list option" where
  "HASH_BLOOM_BITSET bv idx = do {
     b \<leftarrow> load bv (unat idx div 8);
     store bv (unat idx div 8) (b OR push_bit (unat idx mod 8) 1) }"

definition HASH_BLOOM_BITTEST :: "u8 list \<Rightarrow> u32 \<Rightarrow> u8 option" where
  "HASH_BLOOM_BITTEST bv idx = do {
     b \<leftarrow> load bv (unat idx div 8);
     Some (b AND push_bit (unat idx mod 8) 1) }"

text \<open>\<open>(uint32_t)((1UL << nbits) - 1U)\<close>\<close>

definition bloom_mask :: "nat \<Rightarrow> u32" where
  "bloom_mask nbits = of_nat (2 ^ nbits - 1)"

definition HASH_BLOOM_ADD :: "nat \<Rightarrow> u8 list \<Rightarrow> u32 \<Rightarrow> u8 list option" where
  "HASH_BLOOM_ADD nbits bv hashval = HASH_BLOOM_BITSET bv (hashval AND bloom_mask nbits)"

definition HASH_BLOOM_TEST :: "nat \<Rightarrow> u8 list \<Rightarrow> u32 \<Rightarrow> u8 option" where
  "HASH_BLOOM_TEST nbits bv hashval = HASH_BLOOM_BITTEST bv (hashval AND bloom_mask nbits)"

subsection \<open>The operations with the filter\<close>

record 'n bloom_hash =
  plain :: "'n uthash"
  bloom_bv :: "u8 list option"

definition HASH_FIND_BYHASHVALUE_bloom ::
  "nat \<Rightarrow> 'a ut_node_scheme bloom_hash \<Rightarrow> u64 \<Rightarrow> nat \<Rightarrow> u32 \<Rightarrow> ptr option" where
  "HASH_FIND_BYHASHVALUE_bloom nbits b k keylen_in hashval =
     (let u = plain b
      in if head u \<noteq> None
         then do {
           _ \<leftarrow> deref (heap u) (head u);
           t \<leftarrow> tbl u;
           bv \<leftarrow> bloom_bv b;
           hit \<leftarrow> HASH_BLOOM_TEST nbits bv hashval;
           if hit \<noteq> 0
           then do {
             bkt \<leftarrow> load (buckets t) (HASH_TO_BKT hashval (num_buckets t));
             HASH_FIND_IN_BKT (heap u) k keylen_in hashval (hh_head bkt) }
           else Some None }
         else Some None)"

definition HASH_FIND_bloom :: "nat \<Rightarrow> 'a ut_node_scheme bloom_hash \<Rightarrow> u64 \<Rightarrow> ptr option" where
  "HASH_FIND_bloom nbits b k =
     (if head (plain b) \<noteq> None
      then HASH_FIND_BYHASHVALUE_bloom nbits b k sizeof_record_key_t (HASH_VALUE k)
      else Some None)"

text \<open>
  The table is made with an empty filter; the filter changes at the end of \<open>HASH_ADD_TO_TABLE\<close>, and
  is freed with the table.
\<close>

definition HASH_ADD_bloom ::
  "nat \<Rightarrow> addr \<Rightarrow> 'a ut_node_scheme bloom_hash \<Rightarrow> 'a ut_node_scheme bloom_hash option" where
  "HASH_ADD_bloom nbits a b = do {
     n \<leftarrow> heap (plain b) a;
     bv \<leftarrow> (if head (plain b) = None then Some (HASH_BLOOM_MAKE nbits) else bloom_bv b);
     u \<leftarrow> HASH_ADD a (plain b);
     bv \<leftarrow> HASH_BLOOM_ADD nbits bv (HASH_VALUE (key n));
     Some (b\<lparr>plain := u, bloom_bv := Some bv\<rparr>) }"

definition HASH_DELETE_bloom :: "addr \<Rightarrow> 'a ut_node_scheme bloom_hash \<Rightarrow> 'a ut_node_scheme bloom_hash option" where
  "HASH_DELETE_bloom a b = do {
     n \<leftarrow> heap (plain b) a;
     u \<leftarrow> HASH_DELETE a (plain b);
     Some (b\<lparr>plain := u, bloom_bv := (if prev n = None \<and> nxt n = None then None else bloom_bv b)\<rparr>) }"

subsection \<open>Bits that have been set stay set\<close>

lemma bloom_mask_eq: "bloom_mask nbits = mask nbits"
  by (simp add: bloom_mask_def mask_eq_exp_minus_1 of_nat_diff)

lemma bloom_index_lt: "unat (h AND bloom_mask nbits) div 8 < HASH_BLOOM_BYTELEN nbits"
proof -
  have "unat (h AND bloom_mask nbits) = take_bit nbits (unat h)"
    unfolding bloom_mask_eq by (simp add: unsigned_take_bit_eq flip: take_bit_eq_mask)
  then have lt: "unat (h AND bloom_mask nbits) < 2 ^ nbits" by (simp add: take_bit_nat_less_exp)
  show ?thesis
  proof (cases "(2 :: nat) ^ nbits mod 8 = 0")
    case True
    then have "2 ^ nbits = 8 * ((2 :: nat) ^ nbits div 8)" by presburger
    then show ?thesis using lt True by (simp add: HASH_BLOOM_BYTELEN_def HASH_BLOOM_BITLEN_def)
  next
    case False
    have "unat (h AND bloom_mask nbits) div 8 \<le> 2 ^ nbits div 8" using lt by (intro div_le_mono) simp
    then show ?thesis using False by (simp add: HASH_BLOOM_BYTELEN_def HASH_BLOOM_BITLEN_def)
  qed
qed

definition bit_set :: "u8 list \<Rightarrow> u32 \<Rightarrow> bool" where
  "bit_set bv idx \<longleftrightarrow> bit (bv ! (unat idx div 8)) (unat idx mod 8)"

lemma BITTEST_bit:
  assumes "unat idx div 8 < length bv"
  shows "\<exists>v. HASH_BLOOM_BITTEST bv idx = Some v \<and> (v \<noteq> 0 \<longleftrightarrow> bit_set bv idx)"
  using assms by (simp add: HASH_BLOOM_BITTEST_def bit_set_def bit_iff_and_push_bit_not_eq_0)

lemma BITSET_bit:
  assumes "unat idx div 8 < length bv"
  shows "\<exists>bv'. HASH_BLOOM_BITSET bv idx = Some bv' \<and> length bv' = length bv \<and> bit_set bv' idx \<and>
    (\<forall>i. bit_set bv i \<longrightarrow> bit_set bv' i)"
proof -
  let ?j = "unat idx div 8" and ?r = "unat idx mod 8"
  have r: "bit (b OR push_bit ?r 1 :: u8) r \<longleftrightarrow> bit b r \<or> r = ?r" if "r < 8" for b r
    using that by (auto simp: bit_simps possible_bit_def)
  have "unat i mod 8 < 8" for i :: u32 by simp
  then show ?thesis
    using assms r unfolding HASH_BLOOM_BITSET_def bit_set_def by (auto simp: nth_list_update)
qed

subsection \<open>Histories\<close>

text \<open>Adding elements with new keys and deleting elements, with the elements in the table in order.\<close>

inductive bloom_history :: "nat \<Rightarrow> 'a ut_node_scheme bloom_hash \<Rightarrow> addr list \<Rightarrow> bool" for nbits where
  empty: "head (plain b) = None \<Longrightarrow> tbl (plain b) = None \<Longrightarrow> bloom_bv b = None \<Longrightarrow> bloom_history nbits b []"
| add: "bloom_history nbits b as \<Longrightarrow> heap (plain b) a = Some n \<Longrightarrow> a \<notin> set as \<Longrightarrow>
    \<forall>c\<in>set as. key_at (heap (plain b)) c \<noteq> Some (key n) \<Longrightarrow> HASH_ADD_bloom nbits a b = Some b' \<Longrightarrow>
    bloom_history nbits b' (as @ [a])"
| delete: "bloom_history nbits b as \<Longrightarrow> a \<in> set as \<Longrightarrow> HASH_DELETE_bloom a b = Some b' \<Longrightarrow>
    bloom_history nbits b' (remove1 a as)"

text \<open>The bit of every element is set.\<close>

definition bloom_ok :: "nat \<Rightarrow> 'a ut_node_scheme bloom_hash \<Rightarrow> addr list \<Rightarrow> bool" where
  "bloom_ok nbits b as \<longleftrightarrow> ut_inv (plain b) as \<and>
     (if as = [] then bloom_bv b = None
      else \<exists>bv. bloom_bv b = Some bv \<and> length bv = HASH_BLOOM_BYTELEN nbits \<and>
        (\<forall>a\<in>set as. \<forall>k. key_at (heap (plain b)) a = Some k \<longrightarrow> bit_set bv (HASH_VALUE k AND bloom_mask nbits)))"

lemma bloom_ok_add:
  assumes ok: "bloom_ok nbits b as" and n: "heap (plain b) a = Some n" and a: "a \<notin> set as"
    and new: "\<forall>c\<in>set as. key_at (heap (plain b)) c \<noteq> Some (key n)"
  shows "\<exists>b'. HASH_ADD_bloom nbits a b = Some b' \<and> bloom_ok nbits b' (as @ [a]) \<and>
    key_at (heap (plain b')) = key_at (heap (plain b))"
proof -
  have inv: "ut_inv (plain b) as" using ok by (simp add: bloom_ok_def)
  let ?h0 = "(heap (plain b))(a := Some (n\<lparr>hashv := HASH_VALUE (key n), keylen := sizeof_record_key_t\<rparr>))"
  obtain u where u: "HASH_ADD a (plain b) = Some u" "ut_inv u (as @ [a])" and sc: "same_core ?h0 (heap u)"
    using HASH_ADD_ok [OF inv a n new] by blast
  obtain bv where bv: "(if head (plain b) = None then Some (HASH_BLOOM_MAKE nbits) else bloom_bv b) = Some bv"
    and len: "length bv = HASH_BLOOM_BYTELEN nbits"
    and old: "\<forall>c\<in>set as. \<forall>k. key_at (heap (plain b)) c = Some k \<longrightarrow> bit_set bv (HASH_VALUE k AND bloom_mask nbits)"
  proof (cases "as = []")
    case True
    then show thesis using that [of "HASH_BLOOM_MAKE nbits"] inv by (simp add: ut_inv_Nil HASH_BLOOM_MAKE_def)
  next
    case False
    then show thesis using that ok ut_inv_head [OF inv] by (auto simp: bloom_ok_def)
  qed
  have "unat (HASH_VALUE (key n) AND bloom_mask nbits) div 8 < length bv" using bloom_index_lt len by simp
  then obtain bv' where bv': "HASH_BLOOM_ADD nbits bv (HASH_VALUE (key n)) = Some bv'" "length bv' = length bv"
      "bit_set bv' (HASH_VALUE (key n) AND bloom_mask nbits)" "\<forall>i. bit_set bv i \<longrightarrow> bit_set bv' i"
    using BITSET_bit [of "HASH_VALUE (key n) AND bloom_mask nbits" bv] unfolding HASH_BLOOM_ADD_def by blast
  have keys: "key_at (heap u) c = (if c = a then Some (key n) else key_at (heap (plain b)) c)" for c
    using same_core_key_at [OF sc, of c] by (simp add: key_at_def)
  have same: "key_at (heap u) = key_at (heap (plain b))" using keys n by (auto simp: key_at_def)
  have "bloom_ok nbits (b\<lparr>plain := u, bloom_bv := Some bv'\<rparr>) (as @ [a])"
    using u(2) bv'(2-4) len old keys by (auto simp: bloom_ok_def)
  then show ?thesis using n bv u(1) bv'(1) same by (simp add: HASH_ADD_bloom_def)
qed

lemma bloom_ok_delete:
  assumes ok: "bloom_ok nbits b as" and a: "a \<in> set as"
  shows "\<exists>b'. HASH_DELETE_bloom a b = Some b' \<and> bloom_ok nbits b' (remove1 a as) \<and>
    key_at (heap (plain b')) = key_at (heap (plain b))"
proof -
  have inv: "ut_inv (plain b) as" using ok by (simp add: bloom_ok_def)
  obtain u where u: "HASH_DELETE a (plain b) = Some u" "ut_inv u (remove1 a as)" and sc: "same_core (heap (plain b)) (heap u)"
    using HASH_DELETE_ok [OF inv a] by blast
  obtain n where n: "heap (plain b) a = Some n" using inv a by (rule ut_inv_elem)
  obtain xs ys where split: "as = xs @ a # ys" using a by (auto simp: in_set_conv_decomp)
  have d: "distinct as" using inv by (simp add: ut_inv_def)
  have rem: "remove1 a as = xs @ ys" using d split by (simp add: remove1_append)
  obtain t where "table_ok (heap (plain b)) (head (plain b)) t (xs @ a # ys)"
    using ut_invE [of "plain b" as] inv split by blast
  then have "app_links (heap (plain b)) a =
      Some (if xs = [] then None else Some (last xs), if ys = [] then None else Some (List.hd ys))"
    unfolding table_ok_def using dseg_mid by blast
  then have last: "prev n = None \<and> nxt n = None \<longleftrightarrow> remove1 a as = []"
    using n unfolding rem by (auto split: if_splits)
  have ne: "as \<noteq> []" using a by auto
  have sub: "c \<in> set as" if "c \<in> set (remove1 a as)" for c using that set_remove1_subset [of a as] by blast
  have "bloom_ok nbits (b\<lparr>plain := u, bloom_bv := (if prev n = None \<and> nxt n = None then None else bloom_bv b)\<rparr>) (remove1 a as)"
    using ok u(2) ne sub unfolding last bloom_ok_def by (auto simp: same_core_key_at [OF sc])
  then show ?thesis using n u(1) same_core_key_at [OF sc] by (simp add: HASH_DELETE_bloom_def fun_eq_iff)
qed

lemma bloom_history_ok: "bloom_history nbits b as \<Longrightarrow> bloom_ok nbits b as"
proof (induction rule: bloom_history.induct)
  case (empty b)
  then show ?case by (simp add: bloom_ok_def ut_inv_Nil)
next
  case (add b as a n b')
  then show ?case using bloom_ok_add [of nbits b as a n] by auto
next
  case (delete b as a b')
  then show ?case using bloom_ok_delete [of nbits b as a] by auto
qed

subsection \<open>Properties\<close>

lemma FIND_bloom_miss:
  assumes ok: "bloom_ok nbits b as" and bv: "bloom_bv b = Some bv" and hd: "head (plain b) \<noteq> None"
    and miss: "\<not> bit_set bv (HASH_VALUE k AND bloom_mask nbits)"
  shows "HASH_FIND (plain b) k = Some None"
proof -
  have inv: "ut_inv (plain b) as" using ok by (simp add: bloom_ok_def)
  have "\<forall>c\<in>set as. key_at (heap (plain b)) c \<noteq> Some k" using ok bv miss by (auto simp: bloom_ok_def split: if_splits)
  then show ?thesis using HASH_FIND_ok [OF inv] by (simp add: find_None_iff)
qed

lemma FIND_bloom_ok:
  assumes ok: "bloom_ok nbits b as"
  shows "HASH_FIND_bloom nbits b k = HASH_FIND (plain b) k"
proof (cases "as = []")
  case True
  then show ?thesis using ok by (simp add: bloom_ok_def ut_inv_Nil HASH_FIND_bloom_def HASH_FIND_def)
next
  case False
  obtain bv where bv: "bloom_bv b = Some bv" "length bv = HASH_BLOOM_BYTELEN nbits"
    using ok False by (auto simp: bloom_ok_def)
  have inv: "ut_inv (plain b) as" using ok by (simp add: bloom_ok_def)
  obtain t n where tn: "tbl (plain b) = Some t" "head (plain b) = Some (List.hd as)" "heap (plain b) (List.hd as) = Some n"
    using ut_invE [OF inv False] by blast
  let ?i = "HASH_VALUE k AND bloom_mask nbits"
  obtain v where v: "HASH_BLOOM_BITTEST bv ?i = Some v" "v \<noteq> 0 \<longleftrightarrow> bit_set bv ?i"
    using BITTEST_bit [of ?i bv] bloom_index_lt bv(2) by auto
  show ?thesis
  proof (cases "bit_set bv ?i")
    case True
    then show ?thesis
      using tn bv v
      by (simp add: HASH_FIND_bloom_def HASH_FIND_def HASH_FIND_BYHASHVALUE_bloom_def HASH_FIND_BYHASHVALUE_def HASH_BLOOM_TEST_def)
  next
    case miss: False
    have "HASH_FIND_bloom nbits b k = Some None"
      using tn bv v miss by (simp add: HASH_FIND_bloom_def HASH_FIND_BYHASHVALUE_bloom_def HASH_BLOOM_TEST_def)
    then show ?thesis using FIND_bloom_miss [OF ok bv(1) _ miss] tn(2) by simp
  qed
qed

text \<open>
  The table with the filter keeps the contract of an index of elements by key, so that the lemmas of
  the contract hold for it: for instance, adding elements with different keys in any number to an
  empty table and deleting them all succeeds.
\<close>

definition HASH_COUNT_bloom :: "'a ut_node_scheme bloom_hash \<Rightarrow> nat option" where
  "HASH_COUNT_bloom b = HASH_COUNT (plain b)"

interpretation bloom: keyed_index "bloom_ok nbits" "\<lambda>b. key_at (heap (plain b))" "HASH_ADD_bloom nbits"
  HASH_DELETE_bloom "HASH_FIND_bloom nbits" HASH_COUNT_bloom
  for nbits
proof unfold_locales
  fix b :: "'a ut_node_scheme bloom_hash" and as a k
  assume ok: "bloom_ok nbits b as"
  then have inv: "ut_inv (plain b) as" by (simp add: bloom_ok_def)
  show "distinct as" using inv by (rule uth.inv_distinct)
  show "inj_on (key_at (heap (plain b))) (set as)" using inv by (rule uth.inv_inj)
  show "HASH_FIND_bloom nbits b k = Some (find (\<lambda>a. key_at (heap (plain b)) a = Some k) as)"
    using FIND_bloom_ok [OF ok] HASH_FIND_ok [OF inv] by simp
  show "HASH_COUNT_bloom b = Some (length as)" using HASH_COUNT_ok [OF inv] by (simp add: HASH_COUNT_bloom_def)
  show "\<exists>b'. HASH_ADD_bloom nbits a b = Some b' \<and> bloom_ok nbits b' (as @ [a]) \<and>
      key_at (heap (plain b')) = key_at (heap (plain b))"
    if "a \<notin> set as" "key_at (heap (plain b)) a = Some k" "\<forall>c\<in>set as. key_at (heap (plain b)) c \<noteq> Some k"
    using bloom_ok_add [OF ok _ that(1)] that(2,3) by (auto simp: key_at_def)
  show "\<exists>b'. HASH_DELETE_bloom a b = Some b' \<and> bloom_ok nbits b' (remove1 a as) \<and>
      key_at (heap (plain b')) = key_at (heap (plain b))" if "a \<in> set as"
    using ok that by (rule bloom_ok_delete)
qed

text \<open>
  C39: A table kept with a Bloom filter of any size answers every lookup as the table
  without the filter does, whatever elements were added (with new keys) and deleted before, although
  deleting never clears a bit of the filter; and neither a next addition nor a next deletion faults.
\<close>

theorem bloom_transparent:
  assumes "bloom_history nbits b as"
  shows "HASH_FIND_bloom nbits b k = HASH_FIND (plain b) k \<and>
    (\<forall>a n. heap (plain b) a = Some n \<longrightarrow> a \<notin> set as \<longrightarrow>
       (\<forall>c\<in>set as. key_at (heap (plain b)) c \<noteq> Some (key n)) \<longrightarrow> HASH_ADD_bloom nbits a b \<noteq> None) \<and>
    (\<forall>a\<in>set as. HASH_DELETE_bloom a b \<noteq> None)"
proof -
  have ok: "bloom_ok nbits b as" using bloom_history_ok [OF assms] .
  have "HASH_ADD_bloom nbits a b \<noteq> None"
    if "heap (plain b) a = Some n" "a \<notin> set as" "\<forall>c\<in>set as. key_at (heap (plain b)) c \<noteq> Some (key n)" for a n
    using bloom_ok_add [OF ok that] by auto
  moreover have "HASH_DELETE_bloom a b \<noteq> None" if "a \<in> set as" for a
    using bloom_ok_delete [OF ok that] by auto
  ultimately show ?thesis using FIND_bloom_ok [OF ok] by simp
qed

text \<open>
  A filter of 64 bits, a table from which an element has been deleted: the bit of the key stays set.
\<close>

definition bloom_ex :: "ut_node bloom_hash" where
  "bloom_ex = \<lparr>plain = ut_ex, bloom_bv = None\<rparr>"

lemma bloom_transparent_witness:
  "\<exists>b :: ut_node bloom_hash. bloom_history 6 b [1] \<and> HASH_FIND_bloom 6 b 10 = HASH_FIND (plain b) 10 \<and>
    HASH_FIND_bloom 6 b 11 = HASH_FIND (plain b) 11 \<and> HASH_DELETE_bloom 1 b \<noteq> None"
proof -
  have keys: "key_at (heap (plain bloom_ex)) = [0 \<mapsto> 10, 1 \<mapsto> 11, 2 \<mapsto> 12]" by (simp add: bloom_ex_def ut_ex_keys)
  have step: "\<exists>b' :: ut_node bloom_hash. bloom_history 6 b' (as @ [a]) \<and> key_at (heap (plain b')) = key_at (heap (plain b))"
    if asm: "bloom_history 6 b as" "a \<notin> set as" "key_at (heap (plain b)) a = Some k"
      "\<forall>c\<in>set as. key_at (heap (plain b)) c \<noteq> Some k" for b :: "ut_node bloom_hash" and as a k
  proof -
    obtain n where n: "heap (plain b) a = Some n" "key n = k" using asm(3) by (auto simp: key_at_def)
    note new = asm(4) [folded n(2)]
    obtain b' where b': "HASH_ADD_bloom 6 a b = Some b'" "key_at (heap (plain b')) = key_at (heap (plain b))"
      using bloom_ok_add [OF bloom_history_ok [OF asm(1)] n(1) asm(2) new] by metis
    show ?thesis using bloom_history.add [OF asm(1) n(1) asm(2) new b'(1)] b'(2) by metis
  qed
  have 0: "bloom_history 6 bloom_ex []" by (rule bloom_history.empty) (simp_all add: bloom_ex_def ut_ex_def)
  obtain b1 :: "ut_node bloom_hash" where 1: "bloom_history 6 b1 [0]" "key_at (heap (plain b1)) = [0 \<mapsto> 10, 1 \<mapsto> 11, 2 \<mapsto> 12]"
    using step [OF 0, of 0 10] keys by auto
  obtain b2 :: "ut_node bloom_hash" where 2: "bloom_history 6 b2 [0, 1]"
    using step [OF 1(1), of 1 11] 1(2) by auto
  obtain b3 :: "ut_node bloom_hash" where "bloom_history 6 b3 (remove1 0 [0, 1])"
    using bloom_ok_delete [OF bloom_history_ok [OF 2], of 0] bloom_history.delete [OF 2, of 0] by auto
  then have 3: "bloom_history 6 b3 [1]" by simp
  show ?thesis
    using 3 bloom_transparent [OF 3, of 10] bloom_transparent [OF 3, of 11] by (intro exI [of _ b3]) simp
qed


end
