(* ===== verification/Uthash_Oom.thy ===== *)
theory Uthash_Oom
  imports Uthash_Ops
begin

text \<open>
  \<open>HASH_ADD\<close> of \<open>include/uthash.h\<close> compiled with \<open>HASH_NONFATAL_OOM\<close>: a failed allocation is recorded in
  a flag (\<open>oomed\<close>) instead of ending the process, what has been done is taken back, the new
  element's \<open>tbl\<close> is set to NULL and \<open>uthash_nonfatal_oom\<close> is called with it. Which of the
  allocations succeed is an argument. The build of the program does not set the flag.
\<close>

subsection \<open>The macros with recovery\<close>

record mallocs =
  table_malloc :: bool    \<comment> \<open>of the \<open>UT_hash_table\<close>\<close>
  buckets_malloc :: bool  \<comment> \<open>of its first bucket array\<close>
  expand_malloc :: bool   \<comment> \<open>of a doubled bucket array\<close>

definition HASH_RECORD_OOM :: "bool \<Rightarrow> bool" where
  "HASH_RECORD_OOM oomed = True"

text \<open>Whatever fails, the table is freed again; then there is none.\<close>

definition HASH_MAKE_TABLE_oom :: "mallocs \<Rightarrow> addr \<Rightarrow> bool \<Rightarrow> UT_hash_table option \<times> bool" where
  "HASH_MAKE_TABLE_oom ms a oomed =
     (if \<not> table_malloc ms then (None, HASH_RECORD_OOM oomed)
      else if \<not> buckets_malloc ms then (None, HASH_RECORD_OOM oomed)
      else if oomed then (None, oomed)
      else (Some (HASH_MAKE_TABLE a), oomed))"

definition HASH_EXPAND_BUCKETS_oom ::
  "mallocs \<Rightarrow> bool \<Rightarrow> UT_hash_table \<Rightarrow> 'a ut_node_scheme memory \<Rightarrow>
   (UT_hash_table \<times> 'a ut_node_scheme memory \<times> bool) option" where
  "HASH_EXPAND_BUCKETS_oom ms oomed t h =
     (if \<not> expand_malloc ms then Some (t, h, HASH_RECORD_OOM oomed)
      else do { (t, h) \<leftarrow> HASH_EXPAND_BUCKETS t h; Some (t, h, oomed) })"

definition HASH_ADD_TO_BKT_oom ::
  "mallocs \<Rightarrow> nat \<Rightarrow> addr \<Rightarrow> bool \<Rightarrow> UT_hash_table \<Rightarrow> 'a ut_node_scheme memory \<Rightarrow>
   (UT_hash_table \<times> 'a ut_node_scheme memory \<times> bool) option" where
  "HASH_ADD_TO_BKT_oom ms bkt a oomed t h = do {
     b \<leftarrow> load (buckets t) bkt;
     let b = b\<lparr>bcount := bcount b + 1\<rparr>;
     h \<leftarrow> modify (Some a) (\<lambda>m. m\<lparr>hh_next := hh_head b, hh_prev := None\<rparr>) h;
     h \<leftarrow> modify_if (hh_head b) (\<lambda>m. m\<lparr>hh_prev := Some a\<rparr>) h;
     let b = b\<lparr>hh_head := Some a\<rparr>;
     bs \<leftarrow> store (buckets t) bkt b;
     let t = t\<lparr>buckets := bs\<rparr>;
     if (expand_mult b + 1) * HASH_BKT_CAPACITY_THRESH \<le> bcount b \<and> noexpand t = 0
     then do {
       (t, h, oomed) \<leftarrow> HASH_EXPAND_BUCKETS_oom ms oomed t h;
       if oomed
       then do { (t, h) \<leftarrow> HASH_DEL_IN_BKT bkt a t h; Some (t, h, oomed) }
       else Some (t, h, oomed) }
     else Some (t, h, oomed) }"

definition HASH_ROLLBACK_BKT :: "addr \<Rightarrow> 'a ut_node_scheme uthash \<Rightarrow> 'a ut_node_scheme uthash option" where
  "HASH_ROLLBACK_BKT a u = do {
     n \<leftarrow> heap u a;
     _ \<leftarrow> deref (heap u) (head u);
     t \<leftarrow> tbl u;
     let bkt = HASH_TO_BKT (hashv n) (num_buckets t);
     b \<leftarrow> load (buckets t) bkt;
     bs \<leftarrow> store (buckets t) bkt (b\<lparr>bcount := bcount b + 1\<rparr>);
     h \<leftarrow> modify (Some a) (\<lambda>m. m\<lparr>hh_next := None, hh_prev := None\<rparr>) (heap u);
     Some (u\<lparr>heap := h, tbl := Some (t\<lparr>buckets := bs\<rparr>)\<rparr>) }"

text \<open>The flag in the result: the element's \<open>tbl\<close> is NULL and \<open>uthash_nonfatal_oom\<close> has been called.\<close>

definition HASH_ADD_TO_TABLE_oom ::
  "mallocs \<Rightarrow> u32 \<Rightarrow> addr \<Rightarrow> bool \<Rightarrow> 'a ut_node_scheme uthash \<Rightarrow> ('a ut_node_scheme uthash \<times> bool) option" where
  "HASH_ADD_TO_TABLE_oom ms hashval a oomed u =
     (if \<not> oomed
      then do {
        _ \<leftarrow> deref (heap u) (head u);
        t \<leftarrow> tbl u;
        let t = t\<lparr>num_items := num_items t + 1\<rparr>;
        (t, h, oomed) \<leftarrow> HASH_ADD_TO_BKT_oom ms (HASH_TO_BKT hashval (num_buckets t)) a oomed t (heap u);
        let u = u\<lparr>heap := h, tbl := Some t\<rparr>;
        if oomed
        then do {
          u \<leftarrow> HASH_ROLLBACK_BKT a u;
          u \<leftarrow> HASH_DELETE a u;
          Some (u, True) }
        else Some (u, False) }
      else Some (u, True))"

definition HASH_ADD_KEYPTR_BYHASHVALUE_oom ::
  "mallocs \<Rightarrow> u32 \<Rightarrow> addr \<Rightarrow> 'a ut_node_scheme uthash \<Rightarrow> ('a ut_node_scheme uthash \<times> bool) option" where
  "HASH_ADD_KEYPTR_BYHASHVALUE_oom ms hashval a u = do {
     h \<leftarrow> modify (Some a) (\<lambda>m. m\<lparr>hashv := hashval, keylen := sizeof_record_key_t\<rparr>) (heap u);
     (hd, t, h, oomed) \<leftarrow>
       (if head u = None
        then do {
          h \<leftarrow> modify (Some a) (\<lambda>m. m\<lparr>nxt := None, prev := None\<rparr>) h;
          let (t, oomed) = HASH_MAKE_TABLE_oom ms a False;
          Some (if \<not> oomed then Some a else None, t, h, oomed) }
        else do {
          _ \<leftarrow> deref h (head u);
          t \<leftarrow> tbl u;
          (t, h) \<leftarrow> HASH_APPEND_LIST a t h;
          Some (head u, Some t, h, False) });
     HASH_ADD_TO_TABLE_oom ms hashval a oomed (u\<lparr>heap := h, head := hd, tbl := t\<rparr>) }"

definition HASH_ADD_oom :: "mallocs \<Rightarrow> addr \<Rightarrow> 'a ut_node_scheme uthash \<Rightarrow> ('a ut_node_scheme uthash \<times> bool) option" where
  "HASH_ADD_oom ms a u = do {
     n \<leftarrow> heap u a;
     HASH_ADD_KEYPTR_BYHASHVALUE_oom ms (HASH_VALUE (key n)) a u }"

text \<open>\<open>HASH_OVERHEAD\<close>, with the sizes of the structs on a 64-bit machine and no Bloom filter.\<close>

definition HASH_OVERHEAD :: "'a ut_node_scheme uthash \<Rightarrow> nat option" where
  "HASH_OVERHEAD u =
     (if head u \<noteq> None
      then do { _ \<leftarrow> deref (heap u) (head u); t \<leftarrow> tbl u; Some (num_items t * 56 + num_buckets t * 16 + 64) }
      else Some 0)"

subsection \<open>Without a failure\<close>

abbreviation bucket_full :: "UT_hash_bucket \<Rightarrow> UT_hash_table \<Rightarrow> bool" where
  "bucket_full b t \<equiv> (expand_mult b + 1) * HASH_BKT_CAPACITY_THRESH \<le> bcount b + 1 \<and> noexpand t = 0"

lemma ADD_TO_BKT_no_failure:
  assumes "expand_malloc ms \<or> \<not> bucket_full (buckets t ! j) t"
  shows "HASH_ADD_TO_BKT_oom ms j a False t h = map_option (\<lambda>(t, h). (t, h, False)) (HASH_ADD_TO_BKT j a t h)"
proof (cases "j < length (buckets t)")
  case True
  then show ?thesis
    using assms
    by (auto simp: HASH_ADD_TO_BKT_oom_def HASH_ADD_TO_BKT_def HASH_EXPAND_BUCKETS_oom_def Let_def
        map_option_case split: Option.bind_splits option.splits)
qed (simp add: HASH_ADD_TO_BKT_oom_def HASH_ADD_TO_BKT_def load_def)

subsection \<open>Taking back\<close>

lemma ADD_TO_BKT_fails:
  assumes a: "h a = Some n" and j: "j < length (buckets t)" and ms: "\<not> expand_malloc ms"
    and chain: "\<And>x. hh_head (buckets t ! j) = Some x \<Longrightarrow> x \<noteq> a \<and> (\<exists>m. h x = Some m \<and> hh_prev m = None)"
    and full: "bucket_full (buckets t ! j) t"
  shows "HASH_ADD_TO_BKT_oom ms j a False t h =
    Some (t, h(a := Some (n\<lparr>hh_next := hh_head (buckets t ! j), hh_prev := None\<rparr>)), True)"
proof -
  let ?b = "buckets t ! j" and ?n = "n\<lparr>hh_next := hh_head (buckets t ! j), hh_prev := None\<rparr>"
  have b: "?b\<lparr>hh_head := p\<rparr> = ?b" if "hh_head ?b = p" for p using that by (cases ?b) simp
  have t: "t\<lparr>buckets := (buckets t)[j := ?b]\<rparr> = t" by (cases t) simp
  show ?thesis
  proof (cases "hh_head ?b")
    case None
    then show ?thesis
      using a j ms full t
      by (simp add: b [OF None] HASH_ADD_TO_BKT_oom_def HASH_EXPAND_BUCKETS_oom_def HASH_RECORD_OOM_def HASH_DEL_IN_BKT_def Let_def)
  next
    case (Some x)
    obtain m where m: "h x = Some m" "hh_prev m = None" "x \<noteq> a" using chain [OF Some] by blast
    have "m\<lparr>hh_prev := None\<rparr> = m" using m(2) by (cases m) simp
    then have x: "h(a := Some ?n, x := Some (m\<lparr>hh_prev := None\<rparr>)) = h(a := Some ?n)" using m by auto
    show ?thesis
      using a j ms full t x m Some
      by (simp add: b [OF Some] HASH_ADD_TO_BKT_oom_def HASH_EXPAND_BUCKETS_oom_def HASH_RECORD_OOM_def HASH_DEL_IN_BKT_def Let_def)
  qed
qed

text \<open>\<open>a\<close> has been appended after \<open>l\<close> and counted, and is in no bucket: the rest of the recovery.\<close>

lemma rollback_delete:
  assumes hd: "deref h (head u) \<noteq> None" and u: "tbl u = Some t" "heap u = h"
    and a: "h a = Some n" "prev n = Some l" "nxt n = None" and l: "h l = Some m" "l \<noteq> a"
    and j: "HASH_TO_BKT (hashv n) (num_buckets t) < length (buckets t)"
    and b: "hh_head (buckets t ! HASH_TO_BKT (hashv n) (num_buckets t)) \<noteq> Some a"
    and t: "tail t = Some a"
  shows "do { u \<leftarrow> HASH_ROLLBACK_BKT a u; HASH_DELETE a u } =
    Some (u\<lparr>heap := h(a := Some (n\<lparr>hh_next := None, hh_prev := None\<rparr>), l := Some (m\<lparr>nxt := None\<rparr>)),
            tbl := Some (t\<lparr>tail := Some l, num_items := num_items t - 1\<rparr>)\<rparr>)"
proof -
  let ?j = "HASH_TO_BKT (hashv n) (num_buckets t)"
  obtain c where c: "head u = Some c" "h c \<noteq> None" using hd by (cases "head u") auto
  have t0: "t\<lparr>buckets := (buckets t)[?j := buckets t ! ?j]\<rparr> = t" by (cases t) simp
  show ?thesis using a l j b t u c t0 by (auto simp: HASH_ROLLBACK_BKT_def HASH_DELETE_def HASH_DEL_IN_BKT_def Let_def)
qed

subsection \<open>Adding\<close>

text \<open>The state in which the bucket is reached, when the table exists.\<close>

lemma ADD_oom_table:
  assumes inv: "ut_inv u as" and a: "a \<notin> set as" "heap u a = Some n" and ne: "as \<noteq> []"
  obtains t l m n1 h1 j where "tbl u = Some t" "heap u l = Some m" "nxt m = None" "l \<noteq> a"
    "tail t = Some l" "j = HASH_TO_BKT (HASH_VALUE (key n)) (num_buckets t)" "j < length (buckets t)"
    "n1 = n\<lparr>hashv := HASH_VALUE (key n), keylen := sizeof_record_key_t, nxt := None, prev := Some l\<rparr>"
    "h1 = (heap u)(a := Some n1, l := Some (m\<lparr>nxt := Some a\<rparr>))" "deref h1 (head u) \<noteq> None"
    "\<forall>x. hh_head (buckets t ! j) = Some x \<longrightarrow> x \<noteq> a \<and> (\<exists>m. h1 x = Some m \<and> hh_prev m = None)"
    "\<forall>ms. HASH_ADD_oom ms a u =
       HASH_ADD_TO_TABLE_oom ms (HASH_VALUE (key n)) a False (u\<lparr>heap := h1, head := head u, tbl := Some (t\<lparr>tail := Some a\<rparr>)\<rparr>)"
    "HASH_ADD a u = map_option (\<lambda>(t, h). u\<lparr>heap := h, head := head u, tbl := Some t\<rparr>)
       (HASH_ADD_TO_TABLE (HASH_VALUE (key n)) a (t\<lparr>tail := Some a\<rparr>) h1)"
proof -
  obtain t m0 where t: "tbl u = Some t" "table_ok (heap u) (head u) t as"
    and hd: "head u = Some (hd as)" "heap u (hd as) = Some m0"
    using ut_invE [OF inv ne] .
  obtain xs l where as: "as = xs @ [l]" using ne by (cases as rule: rev_cases) auto
  have seg: "dseg (app_links (heap u)) None (head u) (xs @ [l]) (tail t) None"
    and B: "bkts (heap u) (num_buckets t) (buckets t) (set as)" and pos: "0 < num_buckets t"
    using t(2) as by (simp_all add: table_ok_def)
  have tl: "tail t = Some l" using dseg_last [OF seg] by simp
  obtain m where m: "heap u l = Some m" "nxt m = None"
    using dseg_mid [OF seg] by (auto simp: links_of_def split: option.splits)
  have la: "l \<noteq> a" using a(1) as by auto
  let ?j = "HASH_TO_BKT (HASH_VALUE (key n)) (num_buckets t)"
  let ?n1 = "n\<lparr>hashv := HASH_VALUE (key n), keylen := sizeof_record_key_t, nxt := None, prev := Some l\<rparr>"
  let ?h1 = "(heap u)(a := Some ?n1, l := Some (m\<lparr>nxt := Some a\<rparr>))"
  have j: "?j < length (buckets t)" using pos bkts_length [OF B] by simp
  have chain: "x \<noteq> a \<and> (\<exists>m. ?h1 x = Some m \<and> hh_prev m = None)" if x: "hh_head (buckets t ! ?j) = Some x" for x
  proof -
    have "?j < num_buckets t" using pos by simp
    then obtain c e where c: "dseg (bkt_links (heap u)) None (hh_head (buckets t ! ?j)) c e None"
        "set c = {a \<in> set as. bkt_of (heap u) (num_buckets t) a = ?j}"
      using bktsE [OF B] by metis
    obtain k where k: "heap u x = Some k" "hh_prev k = None" and "x \<in> set c"
      using c(1) x by (cases c) (auto simp: links_of_def split: option.splits)
    then have "x \<noteq> a" using c(2) a(1) by auto
    then show ?thesis using k m la by auto
  qed
  have hd': "deref ?h1 (head u) \<noteq> None" "hd as \<noteq> a" using hd a(1) ne by auto
  show thesis
  proof (rule that [OF t(1) m la tl refl j refl refl hd'(1)])
    show "\<forall>x. hh_head (buckets t ! ?j) = Some x \<longrightarrow> x \<noteq> a \<and> (\<exists>m. ?h1 x = Some m \<and> hh_prev m = None)" using chain by blast
    show "\<forall>ms. HASH_ADD_oom ms a u = HASH_ADD_TO_TABLE_oom ms (HASH_VALUE (key n)) a False
        (u\<lparr>heap := ?h1, head := head u, tbl := Some (t\<lparr>tail := Some a\<rparr>)\<rparr>)"
      using a(2) t(1) tl m la hd hd'(2)
      by (simp add: HASH_ADD_oom_def HASH_ADD_KEYPTR_BYHASHVALUE_oom_def HASH_APPEND_LIST_def)
    show "HASH_ADD a u = map_option (\<lambda>(t, h). u\<lparr>heap := h, head := head u, tbl := Some t\<rparr>)
        (HASH_ADD_TO_TABLE (HASH_VALUE (key n)) a (t\<lparr>tail := Some a\<rparr>) ?h1)"
      using a(2) t(1) tl m la hd hd'(2)
      by (auto simp: HASH_ADD_def HASH_ADD_KEYPTR_BYHASHVALUE_def HASH_APPEND_LIST_def map_option_case split: option.splits)
  qed
qed

lemma ADD_oom_nonempty:
  assumes inv: "ut_inv u as" and a: "a \<notin> set as" "heap u a = Some n" and ne: "as \<noteq> []"
  shows "HASH_ADD_oom ms a u = map_option (\<lambda>u. (u, False)) (HASH_ADD a u) \<or>
    \<not> expand_malloc ms \<and>
    (\<exists>n'. HASH_ADD_oom ms a u = Some (u\<lparr>heap := (heap u)(a := Some n')\<rparr>, True) \<and> key n' = key n \<and>
       ut_node.more n' = ut_node.more n)"
proof -
  obtain t l m n1 h1 j where t: "tbl u = Some t" and l: "heap u l = Some m" "nxt m = None" "l \<noteq> a"
    and tl: "tail t = Some l" and j: "j = HASH_TO_BKT (HASH_VALUE (key n)) (num_buckets t)" "j < length (buckets t)"
    and n1: "n1 = n\<lparr>hashv := HASH_VALUE (key n), keylen := sizeof_record_key_t, nxt := None, prev := Some l\<rparr>"
    and h1: "h1 = (heap u)(a := Some n1, l := Some (m\<lparr>nxt := Some a\<rparr>))" and hd: "deref h1 (head u) \<noteq> None"
    and chain: "\<forall>x. hh_head (buckets t ! j) = Some x \<longrightarrow> x \<noteq> a \<and> (\<exists>m. h1 x = Some m \<and> hh_prev m = None)"
    and oom: "\<forall>ms. HASH_ADD_oom ms a u =
       HASH_ADD_TO_TABLE_oom ms (HASH_VALUE (key n)) a False (u\<lparr>heap := h1, head := head u, tbl := Some (t\<lparr>tail := Some a\<rparr>)\<rparr>)"
    and add: "HASH_ADD a u = map_option (\<lambda>(t, h). u\<lparr>heap := h, head := head u, tbl := Some t\<rparr>)
       (HASH_ADD_TO_TABLE (HASH_VALUE (key n)) a (t\<lparr>tail := Some a\<rparr>) h1)"
    using ADD_oom_table [OF inv a ne] .
  let ?t1 = "t\<lparr>tail := Some a, num_items := num_items t + 1\<rparr>"
  obtain d where d: "deref h1 (head u) = Some d" using hd by auto
  show ?thesis
  proof (cases "expand_malloc ms \<or> \<not> bucket_full (buckets ?t1 ! j) ?t1")
    case True
    note r = ADD_TO_BKT_no_failure [OF True, of a h1]
    have "HASH_ADD_oom ms a u = map_option (\<lambda>u. (u, False)) (HASH_ADD a u)"
    proof (cases "HASH_ADD_TO_BKT j a ?t1 h1")
      case None
      then show ?thesis
        using r d unfolding oom [rule_format] add by (simp add: HASH_ADD_TO_TABLE_oom_def HASH_ADD_TO_TABLE_def j(1))
    next
      case (Some r)
      then show ?thesis
        using r d unfolding oom [rule_format] add by (cases r) (simp add: HASH_ADD_TO_TABLE_oom_def HASH_ADD_TO_TABLE_def j(1))
    qed
    then show ?thesis ..
  next
    case False
    let ?n2 = "n1\<lparr>hh_next := hh_head (buckets t ! j), hh_prev := None\<rparr>" and ?n3 = "n1\<lparr>hh_next := None, hh_prev := None\<rparr>"
    let ?h2 = "h1(a := Some ?n2)"
    have h1a: "h1 a = Some n1" and h1l: "h1 l = Some (m\<lparr>nxt := Some a\<rparr>)" using h1 l(3) by auto
    have bkt: "HASH_ADD_TO_BKT_oom ms j a False ?t1 h1 = Some (?t1, ?h2, True)"
      using ADD_TO_BKT_fails [of h1 a n1 j ?t1 ms] h1a j(2) False chain by simp
    have m: "m\<lparr>nxt := None\<rparr> = m" using l(2) by (cases m) simp
    have tt: "t\<lparr>tail := Some l\<rparr> = t" using tl by (cases t) simp
    have hh: "?h2(a := Some ?n3, l := Some m) = (heap u)(a := Some ?n3)"
      using l unfolding h1 by (auto simp: fun_eq_iff)
    have hv: "hashv ?n2 = HASH_VALUE (key n)" unfolding n1 by simp
    let ?u2 = "u\<lparr>heap := ?h2, head := head u, tbl := Some ?t1\<rparr>"
    have "do { u \<leftarrow> HASH_ROLLBACK_BKT a ?u2; HASH_DELETE a u } =
        Some (?u2\<lparr>heap := ?h2(a := Some (?n2\<lparr>hh_next := None, hh_prev := None\<rparr>), l := Some (m\<lparr>nxt := Some a, nxt := None\<rparr>)),
                  tbl := Some (?t1\<lparr>tail := Some l, num_items := num_items ?t1 - 1\<rparr>)\<rparr>)"
    proof (rule rollback_delete)
      show "deref ?h2 (head ?u2) \<noteq> None" using hd by (cases "head u") auto
      show "HASH_TO_BKT (hashv ?n2) (num_buckets ?t1) < length (buckets ?t1)" unfolding hv using j by simp
      show "hh_head (buckets ?t1 ! HASH_TO_BKT (hashv ?n2) (num_buckets ?t1)) \<noteq> Some a"
        unfolding hv using chain j(1) by auto
    qed (use n1 h1l l(3) in simp_all)
    also have "?n2\<lparr>hh_next := None, hh_prev := None\<rparr> = ?n3" by simp
    also have "m\<lparr>nxt := Some a, nxt := None\<rparr> = m" using m by simp
    also have "?t1\<lparr>tail := Some l, num_items := num_items ?t1 - 1\<rparr> = t" using tl by (cases t) simp
    also note hh
    also have "?u2\<lparr>heap := (heap u)(a := Some ?n3), tbl := Some t\<rparr> = u\<lparr>heap := (heap u)(a := Some ?n3)\<rparr>"
      using t by (cases u) simp
    finally have roll: "do { u \<leftarrow> HASH_ROLLBACK_BKT a ?u2; HASH_DELETE a u } = Some (u\<lparr>heap := (heap u)(a := Some ?n3)\<rparr>)" .
    have "HASH_ADD_oom ms a u = Some (u\<lparr>heap := (heap u)(a := Some ?n3)\<rparr>, True)"
      using d j(1) bkt roll unfolding oom [rule_format]
      by (auto simp: HASH_ADD_TO_TABLE_oom_def bind_eq_Some_conv)
    moreover have "key ?n3 = key n \<and> ut_node.more ?n3 = ut_node.more n" unfolding n1 by simp
    ultimately show ?thesis using False by blast
  qed
qed

lemma ADD_oom_empty:
  assumes inv: "ut_inv u []" and n: "heap u a = Some n"
  shows "HASH_ADD_oom ms a u = map_option (\<lambda>u. (u, False)) (HASH_ADD a u) \<or>
    \<not> (table_malloc ms \<and> buckets_malloc ms) \<and>
    (\<exists>n'. HASH_ADD_oom ms a u = Some (u\<lparr>heap := (heap u)(a := Some n')\<rparr>, True) \<and> key n' = key n \<and>
       ut_node.more n' = ut_node.more n)"
proof (cases "table_malloc ms \<and> buckets_malloc ms")
  case True
  let ?t = "HASH_MAKE_TABLE a" and ?j = "HASH_TO_BKT (HASH_VALUE (key n)) HASH_INITIAL_NUM_BUCKETS"
  let ?t1 = "?t\<lparr>num_items := num_items ?t + 1\<rparr>"
  let ?h = "(heap u)(a := Some (n\<lparr>hashv := HASH_VALUE (key n), keylen := sizeof_record_key_t, nxt := None, prev := None\<rparr>))"
  have "?j < HASH_INITIAL_NUM_BUCKETS" by (simp add: HASH_INITIAL_NUM_BUCKETS_def)
  then have "\<not> bucket_full (buckets ?t1 ! ?j) ?t1"
    by (simp add: HASH_MAKE_TABLE_def zero_bucket_def HASH_BKT_CAPACITY_THRESH_def)
  then have r: "HASH_ADD_TO_BKT_oom ms ?j a False ?t1 ?h = map_option (\<lambda>(t, h). (t, h, False)) (HASH_ADD_TO_BKT ?j a ?t1 ?h)"
    using ADD_TO_BKT_no_failure by blast
  have N: "num_buckets ?t = HASH_INITIAL_NUM_BUCKETS" by (simp add: HASH_MAKE_TABLE_def)
  have "HASH_ADD_oom ms a u = map_option (\<lambda>u. (u, False)) (HASH_ADD a u)"
    using True inv n r
    by (cases "HASH_ADD_TO_BKT ?j a ?t1 ?h")
      (auto simp: HASH_ADD_oom_def HASH_ADD_def HASH_ADD_KEYPTR_BYHASHVALUE_oom_def HASH_ADD_KEYPTR_BYHASHVALUE_def
        HASH_MAKE_TABLE_oom_def ut_inv_Nil HASH_ADD_TO_TABLE_oom_def HASH_ADD_TO_TABLE_def N)
  then show ?thesis ..
next
  case False
  let ?n = "n\<lparr>hashv := HASH_VALUE (key n), keylen := sizeof_record_key_t, nxt := None, prev := None\<rparr>"
  have u: "u\<lparr>heap := h, head := None, tbl := None\<rparr> = u\<lparr>heap := h\<rparr>" for h
    using inv by (cases u) (simp add: ut_inv_Nil)
  have "HASH_ADD_oom ms a u = Some (u\<lparr>heap := (heap u)(a := Some ?n)\<rparr>, True)"
    using False inv n u
    by (auto simp: HASH_ADD_oom_def HASH_ADD_KEYPTR_BYHASHVALUE_oom_def HASH_MAKE_TABLE_oom_def HASH_RECORD_OOM_def
        ut_inv_Nil HASH_ADD_TO_TABLE_oom_def)
  moreover have "key ?n = key n \<and> ut_node.more ?n = ut_node.more n" by simp
  ultimately show ?thesis using False by blast
qed

text \<open>
  C38: With \<open>HASH_NONFATAL_OOM\<close>, adding an element with a new key either does what
  \<open>HASH_ADD\<close> does, or reports the element as not added; then an allocation it needed has failed, the
  table (chains, order, counters) and every other element are exactly as before, and every lookup
  answers as before, so that the addition can be tried again.
\<close>

theorem nonfatal_oom_add:
  assumes inv: "ut_inv u as" and a: "a \<notin> set as" "heap u a = Some n" and new: "HASH_FIND u (key n) = Some None"
  shows "(\<exists>u'. HASH_ADD_oom ms a u = Some (u', False) \<and> HASH_ADD a u = Some u' \<and> ut_inv u' (as @ [a])) \<or>
    (\<exists>u' n'. HASH_ADD_oom ms a u = Some (u', True) \<and> u' = u\<lparr>heap := (heap u)(a := Some n')\<rparr> \<and>
       key n' = key n \<and> ut_node.more n' = ut_node.more n \<and> ut_inv u' as \<and> (\<forall>k. HASH_FIND u' k = HASH_FIND u k) \<and>
       \<not> (if as = [] then table_malloc ms \<and> buckets_malloc ms else expand_malloc ms))"
proof -
  have "HASH_ADD_oom ms a u = map_option (\<lambda>u. (u, False)) (HASH_ADD a u) \<or>
    \<not> (if as = [] then table_malloc ms \<and> buckets_malloc ms else expand_malloc ms) \<and>
    (\<exists>n'. HASH_ADD_oom ms a u = Some (u\<lparr>heap := (heap u)(a := Some n')\<rparr>, True) \<and> key n' = key n \<and>
       ut_node.more n' = ut_node.more n)"
    using ADD_oom_nonempty [OF inv a] ADD_oom_empty [of u a n] inv a(2) by (cases "as = []") auto
  then show ?thesis
  proof
    assume "HASH_ADD_oom ms a u = map_option (\<lambda>u. (u, False)) (HASH_ADD a u)"
    moreover obtain u' where "HASH_ADD a u = Some u'" "ut_inv u' (as @ [a])"
      using HASH_ADD_ok [OF inv a] uth.look_NoneD [OF inv new] by blast
    ultimately show ?thesis by simp
  next
    assume f: "\<not> (if as = [] then table_malloc ms \<and> buckets_malloc ms else expand_malloc ms) \<and>
      (\<exists>n'. HASH_ADD_oom ms a u = Some (u\<lparr>heap := (heap u)(a := Some n')\<rparr>, True) \<and> key n' = key n \<and>
         ut_node.more n' = ut_node.more n)"
    then obtain n' where n': "HASH_ADD_oom ms a u = Some (u\<lparr>heap := (heap u)(a := Some n')\<rparr>, True)"
        "key n' = key n" "ut_node.more n' = ut_node.more n"
      by blast
    let ?u = "u\<lparr>heap := (heap u)(a := Some n')\<rparr>"
    have inv': "ut_inv ?u as" using a(1) by (intro ut_inv_cong [OF inv]) auto
    have "key_at (heap ?u) = key_at (heap u)" using a(2) n'(2) by (auto simp: key_at_def)
    then have "HASH_FIND ?u k = HASH_FIND u k" for k
      by (simp only: HASH_FIND_ok [OF inv'] HASH_FIND_ok [OF inv])
    then show ?thesis using f n' inv' by blast
  qed
qed

text \<open>The first addition with no memory for the table, and with memory.\<close>

lemma nonfatal_oom_add_witness:
  "(\<exists>u. HASH_ADD_oom \<lparr>table_malloc = False, buckets_malloc = True, expand_malloc = True\<rparr> 0 ut_ex = Some (u, True) \<and>
      ut_inv u []) \<and>
   (\<exists>u. HASH_ADD_oom \<lparr>table_malloc = True, buckets_malloc = True, expand_malloc = True\<rparr> 0 ut_ex = Some (u, False) \<and>
      ut_inv u [0])"
proof -
  have inv: "ut_inv ut_ex []" by (simp add: ut_inv_Nil) (simp add: ut_ex_def)
  have n: "heap ut_ex 0 = Some (ut_ex_node 10)" by (simp add: ut_ex_def)
  have new: "HASH_FIND ut_ex k = Some None" for k by (simp add: HASH_FIND_def ut_ex_def)
  have no: "HASH_ADD_oom \<lparr>table_malloc = False, buckets_malloc = True, expand_malloc = True\<rparr> 0 ut_ex \<noteq> Some (u, False)" for u
    using n inv by (simp add: HASH_ADD_oom_def HASH_ADD_KEYPTR_BYHASHVALUE_oom_def HASH_MAKE_TABLE_oom_def
      ut_inv_Nil HASH_ADD_TO_TABLE_oom_def HASH_RECORD_OOM_def)
  note P = nonfatal_oom_add [OF inv _ n new]
  show ?thesis
    using P [of "\<lparr>table_malloc = False, buckets_malloc = True, expand_malloc = True\<rparr>"] no
      P [of "\<lparr>table_malloc = True, buckets_malloc = True, expand_malloc = True\<rparr>"] by auto
qed

end
