(* ===== verification/Uthash_Select.thy ===== *)
theory Uthash_Select
  imports Uthash_Ops
begin

text \<open>
  \<open>HASH_SELECT\<close> of \<open>include/uthash.h\<close>: the elements of one table that satisfy a condition are also
  put into a second table, threaded through a second handle in each element. The second handles
  are a heap of their own, at the addresses of the elements. The program does not use the macro.
\<close>

subsection \<open>The macro\<close>

text \<open>
  One selected element \<open>a\<close>, with its first handle \<open>n\<close>; \<open>last_elt\<close> is the element selected before it.
  Unlike in \<open>HASH_ADD\<close> the count grows after the bucket is linked, and the pointer to the last element of
  the new table (\<open>tail\<close>) is set when the table is made only.
\<close>

definition select_elt ::
  "addr \<Rightarrow> 'a ut_node_scheme \<Rightarrow> 'b ut_node_scheme uthash \<Rightarrow> ptr \<Rightarrow> ('b ut_node_scheme uthash \<times> ptr) option" where
  "select_elt a n dst last_elt = do {
     h \<leftarrow> modify (Some a) (\<lambda>m. m\<lparr>key := key n, keylen := keylen n, hashv := hashv n, prev := last_elt, nxt := None\<rparr>)
       (heap dst);
     h \<leftarrow> modify_if last_elt (\<lambda>m. m\<lparr>nxt := Some a\<rparr>) h;
     (hd, t) \<leftarrow>
       (if head dst = None then Some (Some a, HASH_MAKE_TABLE a)
        else do { _ \<leftarrow> deref h (head dst); t \<leftarrow> tbl dst; Some (head dst, t) });
     (t, h) \<leftarrow> HASH_ADD_TO_BKT (HASH_TO_BKT (hashv n) (num_buckets t)) a t h;
     _ \<leftarrow> deref h hd;
     Some (dst\<lparr>heap := h, head := hd, tbl := Some (t\<lparr>num_items := num_items t + 1\<rparr>)\<rparr>, Some a) }"

partial_function (option) select_chain ::
  "('a ut_node_scheme \<Rightarrow> bool) \<Rightarrow> 'a ut_node_scheme memory \<Rightarrow> ptr \<Rightarrow> 'b ut_node_scheme uthash \<Rightarrow> ptr \<Rightarrow>
   ('b ut_node_scheme uthash \<times> ptr) option" where
  "select_chain cond h src_hh dst last_elt =
     (case src_hh of
        None \<Rightarrow> Some (dst, last_elt)
      | Some a \<Rightarrow> do {
          n \<leftarrow> h a;
          (dst, last_elt) \<leftarrow> (if cond n then select_elt a n dst last_elt else Some (dst, last_elt));
          select_chain cond h (hh_next n) dst last_elt })"

fun select_buckets ::
  "('a ut_node_scheme \<Rightarrow> bool) \<Rightarrow> 'a ut_node_scheme memory \<Rightarrow> UT_hash_bucket list \<Rightarrow> nat list \<Rightarrow>
   'b ut_node_scheme uthash \<Rightarrow> ptr \<Rightarrow> ('b ut_node_scheme uthash \<times> ptr) option" where
  "select_buckets cond h bs [] dst last_elt = Some (dst, last_elt)"
| "select_buckets cond h bs (i # is) dst last_elt = do {
     b \<leftarrow> load bs i;
     (dst, last_elt) \<leftarrow> select_chain cond h (hh_head b) dst last_elt;
     select_buckets cond h bs is dst last_elt }"

definition HASH_SELECT ::
  "'b ut_node_scheme uthash \<Rightarrow> 'a ut_node_scheme uthash \<Rightarrow> ('a ut_node_scheme \<Rightarrow> bool) \<Rightarrow> 'b ut_node_scheme uthash option" where
  "HASH_SELECT dst src cond =
     (if head src \<noteq> None
      then do {
        _ \<leftarrow> deref (heap src) (head src);
        t \<leftarrow> tbl src;
        (dst, _) \<leftarrow> select_buckets cond (heap src) (buckets t) [0..<num_buckets t] dst None;
        Some dst }
      else Some dst)"

subsection \<open>The new table\<close>

text \<open>
  \<open>selected d bs p\<close>: the table \<open>d\<close> has the elements \<open>bs\<close> and \<open>p\<close> is the last of them, but its \<open>tail\<close> is the
  first of them.
\<close>

definition with_tail :: "ptr \<Rightarrow> 'b ut_node_scheme uthash \<Rightarrow> 'b ut_node_scheme uthash" where
  "with_tail p u = u\<lparr>tbl := map_option (\<lambda>t. t\<lparr>tail := p\<rparr>) (tbl u)\<rparr>"

definition selected :: "'b ut_node_scheme uthash \<Rightarrow> addr list \<Rightarrow> ptr \<Rightarrow> bool" where
  "selected d bs p \<longleftrightarrow> ut_inv (with_tail p d) bs \<and>
     (if bs = [] then p = None else p = Some (last bs) \<and> map_option tail (tbl d) = Some (Some (List.hd bs)))"

lemma with_tail_simps [simp]:
  "heap (with_tail p u) = heap u" "head (with_tail p u) = head u"
  "tbl (with_tail p u) = map_option (\<lambda>t. t\<lparr>tail := p\<rparr>) (tbl u)"
  by (simp_all add: with_tail_def)

lemma HASH_FIND_with_tail: "HASH_FIND (with_tail p u) k = HASH_FIND u k"
  by (cases "tbl u") (simp_all add: HASH_FIND_def HASH_FIND_BYHASHVALUE_def)

lemma HASH_COUNT_with_tail: "HASH_COUNT (with_tail p u) = HASH_COUNT u"
  by (cases "tbl u") (simp_all add: HASH_COUNT_def)

lemma select_elt_ok:
  assumes sel: "selected d bs p" and a: "a \<notin> set bs" "heap d a = Some m"
    and n: "hashv n = HASH_VALUE (key n)" "keylen n = sizeof_record_key_t"
    and new: "\<forall>c\<in>set bs. key_at (heap d) c \<noteq> Some (key n)"
  shows "\<exists>d'. select_elt a n d p = Some (d', Some a) \<and> selected d' (bs @ [a]) (Some a) \<and>
    key_at (heap d') = (key_at (heap d))(a := Some (key n)) \<and> dom (heap d') = dom (heap d)"
proof -
  let ?d = "with_tail p d"
  have inv: "ut_inv ?d bs" using sel by (simp add: selected_def)
  have dist: "distinct bs" using inv by (rule uth.inv_distinct)
  let ?k = "m\<lparr>key := key n\<rparr>"
  let ?n = "m\<lparr>key := key n, keylen := keylen n, hashv := hashv n, prev := p, nxt := None\<rparr>"
  let ?hk = "(heap d)(a := Some (?k\<lparr>hashv := HASH_VALUE (key ?k), keylen := sizeof_record_key_t\<rparr>))"
  let ?h0 = "(heap d)(a := Some ?n)"
  have h0: "?h0 = ?hk(a := Some ?n)" by simp
  have sc0: "same_core ?hk ?h0"
    unfolding h0 by (rule same_core_upd) (simp_all add: n core_def)
  obtain h1 hd t where h1: "modify_if p (\<lambda>m. m\<lparr>nxt := Some a\<rparr>) ?h0 = Some h1" and sc1: "same_core ?h0 h1"
    and ht: "(if head d = None then Some (Some a, HASH_MAKE_TABLE a)
        else do { _ \<leftarrow> deref h1 (head d); t \<leftarrow> tbl d; Some (head d, t) }) = Some (hd, t)"
    and seg: "dseg (app_links h1) None hd (bs @ [a]) (Some a) None"
    and B: "bkts h1 (num_buckets t) (buckets t) (set bs)" and pos: "0 < num_buckets t"
    and num: "num_items t = length bs" and tl: "tail t = Some (List.hd (bs @ [a]))"
  proof (cases "bs = []")
    case True
    then have "p = None" "head d = None" using sel by (auto simp: selected_def ut_inv_Nil)
    moreover have "dseg (app_links ?h0) None (Some a) ([] @ [a]) (Some a) None"
      using \<open>p = None\<close> by (simp add: links_of_def)
    ultimately show thesis
      using that [of ?h0 "Some a" "HASH_MAKE_TABLE a"] True bkts_empty [of ?h0 HASH_INITIAL_NUM_BUCKETS]
      by (simp add: HASH_MAKE_TABLE_def HASH_INITIAL_NUM_BUCKETS_def)
  next
    case False
    have p: "p = Some (last bs)" "map_option tail (tbl d) = Some (Some (List.hd bs))"
      using sel False by (simp_all add: selected_def)
    obtain t' m0 where t': "tbl ?d = Some t'" "table_ok (heap d) (head d) t' bs"
      and hd: "head d = Some (List.hd bs)" "heap d (List.hd bs) = Some m0"
      using ut_invE [OF inv False] by auto
    obtain t where t: "tbl d = Some t" "t' = t\<lparr>tail := p\<rparr>" "tail t = Some (List.hd bs)"
      using t'(1) p(2) by auto
    have ne: "c \<noteq> a" if "c \<in> set bs" for c using that a(1) by auto
    have "dseg (app_links ?h0) None (head d) bs (tail (t\<lparr>tail := p\<rparr>)) None"
      by (subst dseg_cong [where l = "app_links (heap d)"])
        (use t'(2) t(2) ne in \<open>auto simp: table_ok_def links_of_def\<close>)
    from HASH_APPEND_LIST_ok [OF this dist a(1) False, of ?n]
    obtain h1 where r1: "HASH_APPEND_LIST a (t\<lparr>tail := p\<rparr>) ?h0 = Some (t\<lparr>tail := Some a\<rparr>, h1)"
      and seg: "dseg (app_links h1) None (head d) (bs @ [a]) (Some a) None"
      and sc1: "same_core ?h0 h1" and bl: "bkt_links h1 = bkt_links ?h0"
      by auto
    have swap: "k\<lparr>prev := x, nxt := y\<rparr> = k\<lparr>nxt := y, prev := x\<rparr>" for k :: "'c ut_node_scheme" and x y by (cases k) simp
    have h1: "modify_if p (\<lambda>m. m\<lparr>nxt := Some a\<rparr>) ?h0 = Some h1"
      using r1 p(1) by (auto simp: HASH_APPEND_LIST_def swap split: Option.bind_splits)
    have "bkts ?h0 (num_buckets t) (buckets t) (set bs)"
      by (subst bkts_cong [where h = "heap d"])
        (use t'(2) t(2) ne in \<open>auto simp: table_ok_def links_of_def bkt_of_def\<close>)
    then have B: "bkts h1 (num_buckets t) (buckets t) (set bs)" by (simp add: bkts_same [OF bl sc1])
    have "?h0 (List.hd bs) \<noteq> None" using hd(2) ne False by simp
    then have "deref h1 (head d) \<noteq> None" using same_core_None [OF sc1] hd(1) by simp
    then show thesis
      using that [OF h1 sc1 _ seg B] t t'(2) hd(1) False by (auto simp: table_ok_def)
  qed
  obtain n1 where n1: "h1 a = Some n1" "core n1 = core ?n" using same_core_SomeE [OF sc1, of a ?n] by auto
  have hv: "hashv n1 = hashv n" using core_eqD(2) [OF n1(2)] by simp
  obtain t2 h2 where r: "HASH_ADD_TO_BKT (HASH_TO_BKT (hashv n) (num_buckets t)) a t h1 = Some (t2, h2)"
    and B2: "bkts h2 (num_buckets t2) (buckets t2) (insert a (set bs))"
    and t2: "0 < num_buckets t2" "num_items t2 = num_items t" "tail t2 = tail t"
    and sc2: "same_core h1 h2" and app: "app_links h2 = app_links h1"
    using HASH_ADD_TO_BKT_ok [OF B a(1) n1(1) _ pos] hv by auto
  have hd: "hd = Some (List.hd (bs @ [a]))" using dseg_first [OF seg] by simp
  have "app_links h2 (List.hd (bs @ [a])) \<noteq> None" using dseg_dom [OF seg, of "List.hd (bs @ [a])"] app by (cases bs) auto
  then have "deref h2 hd \<noteq> None" unfolding hd by (auto simp: links_of_def)
  let ?t3 = "t2\<lparr>num_items := num_items t2 + 1\<rparr>"
  let ?d' = "d\<lparr>heap := h2, head := hd, tbl := Some ?t3\<rparr>"
  have run: "select_elt a n d p = Some (?d', Some a)"
    using a(2) h1 ht r \<open>deref h2 hd \<noteq> None\<close> by (auto simp: select_elt_def)
  have sc: "same_core ?hk h2" using sc0 sc1 sc2 same_core_trans by blast
  have "table_ok h2 hd (?t3\<lparr>tail := Some a\<rparr>) (bs @ [a])"
    using seg B2 t2 num app by (simp add: table_ok_def)
  then have "ut_inv (with_tail (Some a) ?d') (bs @ [a])"
    using ut_inv_insert [OF inv a(1), of ?k "bs @ [a]" "with_tail (Some a) ?d'" "?t3\<lparr>tail := Some a\<rparr>"] new sc dist a(1)
    by simp
  then have sel': "selected ?d' (bs @ [a]) (Some a)" using tl t2(3) by (simp add: selected_def)
  have keys: "key_at h2 = (key_at (heap d))(a := Some (key n))"
    using same_core_key_at [OF sc] by (auto simp: key_at_def fun_eq_iff)
  have "dom h2 = dom (heap d)" using same_core_None [OF sc] a(2) by (auto simp: dom_def)
  then show ?thesis using run sel' keys by auto
qed

text \<open>One chain: its elements that satisfy the condition are selected, in the order of the chain.\<close>

lemma select_chain_ok:
  assumes "dseg (bkt_links h) b q xs e None" and "selected d bs p" and "distinct (bs @ xs)"
    and "elems h xs" and "inj_on (key_at h) (set bs \<union> set xs)"
    and "\<forall>c\<in>set bs. key_at (heap d) c = key_at h c" and "set xs \<subseteq> dom (heap d)"
  shows "\<exists>d' p'. select_chain cond h q d p = Some (d', p') \<and>
    selected d' (bs @ filter (\<lambda>a. \<exists>n. h a = Some n \<and> cond n) xs) p' \<and>
    (\<forall>c\<in>set (bs @ filter (\<lambda>a. \<exists>n. h a = Some n \<and> cond n) xs). key_at (heap d') c = key_at h c) \<and>
    dom (heap d') = dom (heap d)"
  using assms
proof (induction xs arbitrary: b q d bs p)
  case Nil
  then show ?case by (auto simp: select_chain.simps)
next
  case (Cons a xs)
  obtain n where n: "h a = Some n" "elem_ok n" using Cons.prems(4) by (auto simp: elems_def)
  have q: "q = Some a" and seg: "dseg (bkt_links h) (Some a) (hh_next n) xs e None"
    using Cons.prems(1) n(1) by auto
  have el: "elems h xs" using Cons.prems(4) by (simp add: elems_def)
  show ?case
  proof (cases "cond n")
    case False
    have "inj_on (key_at h) (set bs \<union> set xs)" using Cons.prems(5) by (rule inj_on_subset) auto
    note IH = Cons.IH [OF seg Cons.prems(2) _ el this Cons.prems(6)]
    have step: "select_chain cond h q d p = select_chain cond h (hh_next n) d p"
      using q n(1) False by (subst select_chain.simps) simp
    show ?thesis unfolding step using IH Cons.prems(3,7) False n(1) by auto
  next
    case True
    obtain m where m: "heap d a = Some m" using Cons.prems(7) by auto
    have k: "key_at h a = Some (key n)" using n(1) by (simp add: key_at_def)
    have new: "\<forall>c\<in>set bs. key_at (heap d) c \<noteq> Some (key n)"
    proof
      fix c assume c: "c \<in> set bs"
      then have "c \<noteq> a" using Cons.prems(3) by auto
      then have "key_at h c \<noteq> key_at h a" using c inj_on_eq_iff [OF Cons.prems(5), of c a] by simp
      then show "key_at (heap d) c \<noteq> Some (key n)" using c Cons.prems(6) k by simp
    qed
    have "a \<notin> set bs" using Cons.prems(3) by auto
    from select_elt_ok [OF Cons.prems(2) this m _ _ new] n(2)
    obtain d1 where d1: "select_elt a n d p = Some (d1, Some a)" "selected d1 (bs @ [a]) (Some a)"
        "key_at (heap d1) = (key_at (heap d))(a := Some (key n))" "dom (heap d1) = dom (heap d)"
      by (auto simp: elem_ok_def)
    have inj: "inj_on (key_at h) (set (bs @ [a]) \<union> set xs)" using Cons.prems(5) by (rule inj_on_subset) auto
    have keys: "\<forall>c\<in>set (bs @ [a]). key_at (heap d1) c = key_at h c" using d1(3) Cons.prems(6) k by auto
    have step: "select_chain cond h q d p = select_chain cond h (hh_next n) d1 (Some a)"
      using q n(1) True d1(1) by (subst select_chain.simps) simp
    from Cons.IH [OF seg d1(2) _ el inj keys] show ?thesis
      unfolding step using Cons.prems(3,7) True n(1) d1(4) by auto
  qed
qed

text \<open>The buckets one after the other: \<open>c i\<close> is the chain of bucket \<open>i\<close>.\<close>

lemma select_buckets_ok:
  assumes "\<forall>i\<in>set is. i < length B \<and> (\<exists>e. dseg (bkt_links h) None (hh_head (B ! i)) (c i) e None)"
    and "selected d bs p" and "distinct (bs @ concat (map c is))"
    and "elems h (concat (map c is))" and "inj_on (key_at h) (set (bs @ concat (map c is)))"
    and "\<forall>c\<in>set bs. key_at (heap d) c = key_at h c" and "set (concat (map c is)) \<subseteq> dom (heap d)"
  shows "\<exists>d' p'. select_buckets cond h B is d p = Some (d', p') \<and>
    selected d' (bs @ filter (\<lambda>a. \<exists>n. h a = Some n \<and> cond n) (concat (map c is))) p' \<and>
    (\<forall>a\<in>set (bs @ filter (\<lambda>a. \<exists>n. h a = Some n \<and> cond n) (concat (map c is))). key_at (heap d') a = key_at h a) \<and>
    dom (heap d') = dom (heap d)"
  using assms
proof (induction "is" arbitrary: d bs p)
  case Nil
  then show ?case by auto
next
  case (Cons i "is")
  obtain e where i: "i < length B" and seg: "dseg (bkt_links h) None (hh_head (B ! i)) (c i) e None"
    using Cons.prems(1) by auto
  let ?P = "\<lambda>a. \<exists>n. h a = Some n \<and> cond n"
  have inj: "inj_on (key_at h) (set bs \<union> set (c i))" using Cons.prems(5) by (rule inj_on_subset) auto
  have dist1: "distinct (bs @ c i)" using Cons.prems(3) by auto
  have el1: "elems h (c i)" using Cons.prems(4) by (auto simp: elems_def)
  have al1: "set (c i) \<subseteq> dom (heap d)" using Cons.prems(7) by auto
  obtain d1 p1 where d1: "select_chain cond h (hh_head (B ! i)) d p = Some (d1, p1)" "selected d1 (bs @ filter ?P (c i)) p1"
      "\<forall>a\<in>set (bs @ filter ?P (c i)). key_at (heap d1) a = key_at h a" "dom (heap d1) = dom (heap d)"
    using select_chain_ok [OF seg Cons.prems(2) dist1 el1 inj Cons.prems(6) al1, of cond] by blast
  have inj': "inj_on (key_at h) (set ((bs @ filter ?P (c i)) @ concat (map c is)))"
    using Cons.prems(5) by (rule inj_on_subset) auto
  have dist: "distinct ((bs @ filter ?P (c i)) @ concat (map c is))" using Cons.prems(3) by auto
  have el: "elems h (concat (map c is))" using Cons.prems(4) by (auto simp: elems_def)
  have al: "set (concat (map c is)) \<subseteq> dom (heap d1)" using Cons.prems(7) d1(4) by auto
  have "\<forall>i\<in>set is. i < length B \<and> (\<exists>e. dseg (bkt_links h) None (hh_head (B ! i)) (c i) e None)"
    using Cons.prems(1) by simp
  from Cons.IH [OF this d1(2) dist el inj' d1(3) al] show ?case using i d1(1,4) by simp
qed

lemma selected_walk: "selected d bs p \<Longrightarrow> ut_walk (heap d) (head d) = Some bs"
  using ut_inv_walk [of "with_tail p d" bs] by (simp add: selected_def)

lemma HASH_SELECT_ok:
  assumes inv: "ut_inv u as" and d: "head d = None" "tbl d = None" and al: "\<forall>a\<in>set as. heap d a \<noteq> None"
  shows "\<exists>d' bs p. HASH_SELECT d u cond = Some d' \<and> selected d' bs p \<and>
    set bs = {a \<in> set as. \<exists>n. heap u a = Some n \<and> cond n} \<and> distinct bs \<and>
    (\<forall>c\<in>set bs. key_at (heap d') c = key_at (heap u) c) \<and> dom (heap d') = dom (heap d)"
proof -
  let ?P = "\<lambda>a. \<exists>n. heap u a = Some n \<and> cond n"
  have sel0: "selected d [] None" using d by (simp add: selected_def ut_inv_Nil)
  show ?thesis
  proof (cases "as = []")
    case True
    then show ?thesis using inv sel0 by (auto simp: ut_inv_Nil HASH_SELECT_def intro!: exI [of _ "[]"])
  next
    case False
    obtain t n where t: "tbl u = Some t" "table_ok (heap u) (head u) t as"
      and hd: "head u = Some (List.hd as)" "heap u (List.hd as) = Some n"
      using ut_invE [OF inv False] .
    let ?N = "num_buckets t"
    have B: "bkts (heap u) ?N (buckets t) (set as)" and pos: "0 < ?N" using t(2) by (simp_all add: table_ok_def)
    have "\<exists>c. \<forall>i<?N. distinct (c i) \<and> set (c i) = {a \<in> set as. bkt_of (heap u) ?N a = i} \<and>
        (\<exists>e. dseg (bkt_links (heap u)) None (hh_head (buckets t ! i)) (c i) e None)"
      using bktsE [OF B] by (intro choice_iff' [THEN iffD1]) metis
    then obtain c where c: "\<forall>i<?N. distinct (c i) \<and> set (c i) = {a \<in> set as. bkt_of (heap u) ?N a = i} \<and>
        (\<exists>e. dseg (bkt_links (heap u)) None (hh_head (buckets t ! i)) (c i) e None)" by blast
    let ?xs = "concat (map c [0..<?N])"
    have all: "set ?xs = set as"
    proof -
      have "bkt_of (heap u) ?N a < ?N" if "a \<in> set as" for a
        using that inv pos by (auto simp: bkt_of_def elim!: ut_inv_elem split: option.splits)
      then show ?thesis using c by auto
    qed
    have dist: "distinct ?xs"
    proof -
      have "distinct (concat (map c [0..<m]))" if "m \<le> ?N" for m
        using that
      proof (induction m)
        case (Suc m)
        then show ?case using c by auto
      qed simp
      then show ?thesis by simp
    qed
    have el: "elems (heap u) ?xs" using inv all by (simp add: ut_inv_def elems_def)
    have inj: "inj_on (key_at (heap u)) (set ([] @ ?xs))" using inv all by (simp add: ut_inv_def)
    have chains: "\<forall>i\<in>set [0..<?N]. i < length (buckets t) \<and>
        (\<exists>e. dseg (bkt_links (heap u)) None (hh_head (buckets t ! i)) (c i) e None)"
      using c bkts_length [OF B] by simp
    have al': "set ?xs \<subseteq> dom (heap d)" unfolding all using al by auto
    obtain d' p where r: "select_buckets cond (heap u) (buckets t) [0..<?N] d None = Some (d', p)"
      and sel: "selected d' (filter ?P ?xs) p"
      and keys: "\<forall>a\<in>set (filter ?P ?xs). key_at (heap d') a = key_at (heap u) a" and dom: "dom (heap d') = dom (heap d)"
      using select_buckets_ok [OF chains sel0 _ el inj _ al', of cond] dist by auto
    have "HASH_SELECT d u cond = Some d'" using t(1) hd r by (simp add: HASH_SELECT_def)
    moreover have "set (filter ?P ?xs) = {a \<in> set as. ?P a}" unfolding set_filter all ..
    moreover have "distinct (filter ?P ?xs)" using dist by simp
    ultimately show ?thesis using sel keys dom by blast
  qed
qed

subsection \<open>Properties\<close>

text \<open>
  Selecting into an empty table ends, faults nowhere, and gives a table with
  exactly the elements that satisfy the condition: it has their number, iterating over it visits each
  of them once, and a key is found in it exactly when the old table has an element with this key
  that satisfies the condition, which is then the element found.
\<close>

theorem HASH_SELECT_correct:
  assumes inv: "ut_inv u as" and d: "head d = None" "tbl d = None" and al: "\<forall>a\<in>set as. heap d a \<noteq> None"
  shows "\<exists>d' bs. HASH_SELECT d u cond = Some d' \<and> ut_walk (heap d') (head d') = Some bs \<and> distinct bs \<and>
    set bs = {a \<in> set as. \<exists>n. heap u a = Some n \<and> cond n} \<and> HASH_COUNT d' = Some (length bs) \<and>
    (\<forall>k. HASH_FIND d' k =
       Some (case the (HASH_FIND u k) of None \<Rightarrow> None | Some a \<Rightarrow> if a \<in> set bs then Some a else None))"
proof -
  obtain d' bs p where r: "HASH_SELECT d u cond = Some d'" and sel: "selected d' bs p"
    and bs: "set bs = {a \<in> set as. \<exists>n. heap u a = Some n \<and> cond n}" "distinct bs"
    and keys: "\<forall>c\<in>set bs. key_at (heap d') c = key_at (heap u) c"
    using HASH_SELECT_ok [OF inv d al, of cond] by (elim exE conjE)
  have inv': "ut_inv (with_tail p d') bs" using sel by (simp add: selected_def)
  have cnt: "HASH_COUNT d' = Some (length bs)" using HASH_COUNT_ok [OF inv'] by (simp add: HASH_COUNT_with_tail)
  have "HASH_FIND d' k =
      Some (case the (HASH_FIND u k) of None \<Rightarrow> None | Some a \<Rightarrow> if a \<in> set bs then Some a else None)" for k
  proof -
    have F: "HASH_FIND d' k = Some (find (\<lambda>a. key_at (heap d') a = Some k) bs)"
      using HASH_FIND_ok [OF inv', of k] by (simp add: HASH_FIND_with_tail)
    show ?thesis
    proof (cases "find (\<lambda>a. key_at (heap u) a = Some k) as")
      case None
      then have "\<forall>c\<in>set bs. key_at (heap d') c \<noteq> Some k" using keys bs(1) by (auto simp: find_None_iff)
      then have "find (\<lambda>a. key_at (heap d') a = Some k) bs = None" by (simp add: find_None_iff)
      then show ?thesis using F None HASH_FIND_ok [OF inv, of k] by simp
    next
      case (Some a)
      then have a: "a \<in> set as" "key_at (heap u) a = Some k" by (auto dest: find_SomeD)
      have uniq: "c = a" if "c \<in> set bs" "key_at (heap d') c = Some k" for c
        using that keys bs(1) a inj_on_eq_iff [OF uth.inv_inj [OF inv], of c a] by simp
      have "find (\<lambda>a. key_at (heap d') a = Some k) bs = (if a \<in> set bs then Some a else None)"
      proof (cases "find (\<lambda>a. key_at (heap d') a = Some k) bs")
        case None
        then show ?thesis using keys a(2) by (auto simp: find_None_iff)
      next
        case (Some c)
        then have "c \<in> set bs" "key_at (heap d') c = Some k" by (auto dest: find_SomeD)
        then show ?thesis using uniq [of c] Some by simp
      qed
      then show ?thesis using F Some HASH_FIND_ok [OF inv, of k] by simp
    qed
  qed
  then show ?thesis using r bs cnt selected_walk [OF sel] by blast
qed

lemma add_after_select:
  assumes sel: "selected d (b # c # bs) p" and a: "a \<notin> set (b # c # bs)" "heap d a = Some n"
  shows "\<exists>d'. HASH_ADD a d = Some d' \<and> ut_walk (heap d') (head d') = Some [b, a] \<and>
    HASH_COUNT d' = Some (Suc (length (b # c # bs)))"
proof -
  let ?bs = "b # c # bs" and ?n = "n\<lparr>hashv := HASH_VALUE (key n), keylen := sizeof_record_key_t\<rparr>"
  have inv: "ut_inv (with_tail p d) ?bs" using sel unfolding selected_def by (rule conjunct1)
  obtain t' where t': "tbl (with_tail p d) = Some t'" "table_ok (heap d) (head d) t' ?bs" and hd: "head d = Some b"
    by (rule ut_invE [OF inv]) simp_all
  have "map_option tail (tbl d) = Some (Some b)" using sel by (simp add: selected_def)
  then obtain t where t: "tbl d = Some t" "tail t = Some b" "table_ok (heap d) (head d) (t\<lparr>tail := p\<rparr>) ?bs"
    using t' by auto
  have seg: "dseg (app_links (heap d)) None (head d) ([] @ b # c # bs) p None"
    and B: "bkts (heap d) (num_buckets t) (buckets t) (set ?bs)" and pos: "0 < num_buckets t"
    using t(3) by (simp_all add: table_ok_def)
  obtain m where m: "heap d b = Some m" "prev m = None"
    using dseg_mid [OF seg] by (auto simp: links_of_def split: option.splits)
  have ba: "b \<noteq> a" using a(1) by simp
  let ?n1 = "?n\<lparr>nxt := None, prev := Some b\<rparr>"
  define h1 where "h1 = (heap d)(a := Some ?n1, b := Some (m\<lparr>nxt := Some a\<rparr>))"
  let ?t1 = "t\<lparr>tail := Some a, num_items := num_items t + 1\<rparr>"
  have B1: "bkts h1 (num_buckets ?t1) (buckets ?t1) (set ?bs)"
    using B a(1) m by (subst bkts_cong [where h = "heap d"]) (auto simp: links_of_def bkt_of_def h1_def)
  have h1a: "h1 a = Some ?n1" using ba by (simp add: h1_def)
  obtain t2 h2 where r: "HASH_ADD_TO_BKT (HASH_TO_BKT (HASH_VALUE (key n)) (num_buckets t)) a ?t1 h1 = Some (t2, h2)"
    and t2: "num_items t2 = num_items ?t1" and sc: "same_core h1 h2" and app: "app_links h2 = app_links h1"
    using HASH_ADD_TO_BKT_ok [OF B1 a(1) h1a _ _] pos by auto
  let ?d' = "d\<lparr>heap := h2, tbl := Some t2\<rparr>"
  have "HASH_ADD a d = Some ?d'"
    using a(2) t(1,2) hd m(1) ba r
    by (simp add: HASH_ADD_def HASH_ADD_KEYPTR_BYHASHVALUE_def HASH_APPEND_LIST_def HASH_ADD_TO_TABLE_def h1_def)
  moreover have "dseg (app_links h2) None (head d) [b, a] (Some a) None"
    unfolding app using hd m ba by (simp add: links_of_def h1_def)
  moreover have "HASH_COUNT ?d' = Some (Suc (length ?bs))"
  proof -
    have "deref h2 (head d) \<noteq> None" using same_core_None [OF sc, of b] hd by (simp add: h1_def)
    then show ?thesis using t2 t(3) hd by (auto simp: HASH_COUNT_def table_ok_def)
  qed
  ultimately show ?thesis using ut_walk_dseg [of h2 None "head d" "[b, a]" "Some a"] by auto
qed

text \<open>
  The macro leaves the new table's pointer to the last element at the first
  one. When an element is then added to a table into which at least two were selected, iterating
  over the table visits the first selected element and the added one only, although the count is right.
\<close>

theorem HASH_SELECT_then_add:
  assumes inv: "ut_inv u as" and d: "head d = None" "tbl d = None" and al: "\<forall>a\<in>set as. heap d a \<noteq> None"
    and two: "2 \<le> card {a \<in> set as. \<exists>n. heap u a = Some n \<and> cond n}" and a: "a \<notin> set as" "heap d a \<noteq> None"
  shows "\<exists>d' d'' b. HASH_SELECT d u cond = Some d' \<and> HASH_ADD a d' = Some d'' \<and>
    ut_walk (heap d'') (head d'') = Some [b, a] \<and>
    HASH_COUNT d'' = Some (Suc (card {a \<in> set as. \<exists>n. heap u a = Some n \<and> cond n}))"
proof -
  obtain d' bs p where r: "HASH_SELECT d u cond = Some d'" and sel: "selected d' bs p"
    and bs: "set bs = {a \<in> set as. \<exists>n. heap u a = Some n \<and> cond n}" "distinct bs" and dom: "dom (heap d') = dom (heap d)"
    using HASH_SELECT_ok [OF inv d al, of cond] by (elim exE conjE)
  have len: "length bs = card {a \<in> set as. \<exists>n. heap u a = Some n \<and> cond n}"
    using distinct_card [OF bs(2)] bs(1) by simp
  then have "Suc (Suc 0) \<le> length bs" using two by simp
  then obtain b c cs where bc: "bs = b # c # cs" by (auto simp: Suc_le_length_iff)
  obtain n where n: "heap d' a = Some n" using a(2) dom by auto
  have "a \<notin> set bs" using a(1) bs(1) by simp
  then show ?thesis using add_after_select [of d' b c cs p a n] sel n r len unfolding bc by auto
qed

text \<open>Both elements of a table of two are selected, then a third is added to the new table.\<close>

lemma select_ex:
  obtains u where "run_all HASH_ADD [0, 1] ut_ex = Some u" "ut_inv u [0, 1]"
    "{a \<in> set [0, 1]. \<exists>n. heap u a = Some n \<and> True} = {0, 1}"
proof -
  obtain u where u: "run_all HASH_ADD [0, 1] ut_ex = Some u" "ut_inv u [0, 1]" using ut_ex_two by blast
  have "\<exists>n. heap u a = Some n" if "a \<in> set [0, 1]" for a using u(2) that by (auto elim!: ut_inv_elem)
  then have "{a \<in> set [0, 1]. \<exists>n. heap u a = Some n \<and> True} = {0, 1}" by auto
  then show thesis using u that by blast
qed

lemma HASH_SELECT_correct_witness:
  "\<exists>u d bs. run_all HASH_ADD [0, 1] ut_ex = Some u \<and> HASH_SELECT ut_ex u (\<lambda>_. True) = Some d \<and>
    ut_walk (heap d) (head d) = Some bs \<and> set bs = {0, 1} \<and> HASH_COUNT d = Some 2"
proof -
  obtain u where u: "run_all HASH_ADD [0, 1] ut_ex = Some u" "ut_inv u [0, 1]"
    and all: "{a \<in> set [0, 1]. \<exists>n. heap u a = Some n \<and> True} = {0, 1}" by (rule select_ex)
  obtain d bs where r: "HASH_SELECT ut_ex u (\<lambda>_. True) = Some d" "ut_walk (heap d) (head d) = Some bs"
    and bs: "distinct bs" "set bs = {a \<in> set [0, 1]. \<exists>n. heap u a = Some n \<and> True}" and cnt: "HASH_COUNT d = Some (length bs)"
    using HASH_SELECT_correct [OF u(2), of ut_ex "\<lambda>_. True"] by (auto simp: ut_ex_def)
  have "length bs = 2" using distinct_card [OF bs(1)] unfolding bs(2) all by simp
  then show ?thesis using u(1) r bs(2) cnt unfolding all by auto
qed

lemma HASH_SELECT_then_add_witness:
  "\<exists>u d d' b. run_all HASH_ADD [0, 1] ut_ex = Some u \<and> HASH_SELECT ut_ex u (\<lambda>_. True) = Some d \<and>
    HASH_ADD 2 d = Some d' \<and> ut_walk (heap d') (head d') = Some [b, 2] \<and> HASH_COUNT d' = Some 3"
proof -
  obtain u where u: "run_all HASH_ADD [0, 1] ut_ex = Some u" "ut_inv u [0, 1]"
    and all: "{a \<in> set [0, 1]. \<exists>n. heap u a = Some n \<and> True} = {0, 1}" by (rule select_ex)
  have "\<exists>d d' b. HASH_SELECT ut_ex u (\<lambda>_. True) = Some d \<and> HASH_ADD 2 d = Some d' \<and>
      ut_walk (heap d') (head d') = Some [b, 2] \<and> HASH_COUNT d' = Some (Suc (card {0 :: nat, 1}))"
    using HASH_SELECT_then_add [OF u(2), of ut_ex "\<lambda>_. True" 2] unfolding all by (simp add: ut_ex_def)
  then show ?thesis using u(1) by (simp add: numeral_3_eq_3)
qed

end
