(* ===== verification/Hash_Others.thy ===== *)
theory Hash_Others
  imports Hash_Jen
begin

text \<open>
  The hash functions of \<open>include/uthash.h\<close> that can be chosen with \<open>HASH_FUNCTION\<close> in place of Jenkins':
  Bernstein, shift-add-xor, FNV-1a, one-at-a-time and Hsieh, each over the bytes of the key. Three of them
  never map two keys that differ in exactly one byte to the same value.
\<close>

unbundle bit_operations_syntax

subsection \<open>The functions\<close>

definition ber_step :: "u32 \<Rightarrow> u8 \<Rightarrow> u32" where
  "ber_step hashv c = (push_bit 5 hashv + hashv) + ucast c"

definition HASH_BER :: "u8 list \<Rightarrow> u32" where
  "HASH_BER key = foldl ber_step 0 key"

definition HASH_SAX :: "u8 list \<Rightarrow> u32" where
  "HASH_SAX key = foldl (\<lambda>hashv c. hashv XOR (push_bit 5 hashv + drop_bit 2 hashv + ucast c)) 0 key"

definition fnv_step :: "u32 \<Rightarrow> u8 \<Rightarrow> u32" where
  "fnv_step hashv c = (hashv XOR ucast c) * 16777619"

definition HASH_FNV :: "u8 list \<Rightarrow> u32" where
  "HASH_FNV key = foldl fnv_step 2166136261 key"

definition oat_step :: "u32 \<Rightarrow> u8 \<Rightarrow> u32" where
  "oat_step hashv c =
     (let hashv = hashv + ucast c;
          hashv = hashv + push_bit 10 hashv
      in hashv XOR drop_bit 6 hashv)"

definition oat_final :: "u32 \<Rightarrow> u32" where
  "oat_final hashv =
     (let hashv = hashv + push_bit 3 hashv;
          hashv = hashv XOR drop_bit 11 hashv
      in hashv + push_bit 15 hashv)"

definition HASH_OAT :: "u8 list \<Rightarrow> u32" where
  "HASH_OAT key = oat_final (foldl oat_step 0 key)"

definition get16bits :: "u8 \<Rightarrow> u8 \<Rightarrow> u32" where
  "get16bits d0 d1 = push_bit 8 (ucast d1) + ucast d0"

text \<open>The main loop takes four bytes at a time; the up to three bytes that are left are the end cases.\<close>

fun sfh_loop :: "u32 \<Rightarrow> u8 list \<Rightarrow> u32" where
  "sfh_loop hashv (k0 # k1 # k2 # k3 # key) =
     (let hashv = hashv + get16bits k0 k1;
          tmp = push_bit 11 (get16bits k2 k3) XOR hashv;
          hashv = push_bit 16 hashv XOR tmp
      in sfh_loop (hashv + drop_bit 11 hashv) key)"
| "sfh_loop hashv [k0, k1, k2] =
     (let hashv = hashv + get16bits k0 k1;
          hashv = hashv XOR push_bit 16 hashv;
          hashv = hashv XOR push_bit 18 (ucast k2)
      in hashv + drop_bit 11 hashv)"
| "sfh_loop hashv [k0, k1] =
     (let hashv = hashv + get16bits k0 k1;
          hashv = hashv XOR push_bit 11 hashv
      in hashv + drop_bit 17 hashv)"
| "sfh_loop hashv [k0] =
     (let hashv = hashv + ucast k0;
          hashv = hashv XOR push_bit 10 hashv
      in hashv + drop_bit 1 hashv)"
| "sfh_loop hashv [] = hashv"

definition HASH_SFH :: "u8 list \<Rightarrow> u32" where
  "HASH_SFH key =
     (let hashv = sfh_loop 0xcafebabe key;
          hashv = hashv XOR push_bit 3 hashv;
          hashv = hashv + drop_bit 5 hashv;
          hashv = hashv XOR push_bit 4 hashv;
          hashv = hashv + drop_bit 17 hashv;
          hashv = hashv XOR push_bit 25 hashv
      in hashv + drop_bit 6 hashv)"

subsection \<open>Keys that differ in one byte\<close>

lemma xor_drop_bit_inject:
  fixes x y :: "'a::len word"
  assumes "0 < k" and eq: "x XOR drop_bit k x = y XOR drop_bit k y"
  shows "x = y"
proof (rule bit_word_eqI)
  fix n assume "n < LENGTH('a)"
  then show "bit x n = bit y n"
  proof (induction "LENGTH('a) - n" arbitrary: n rule: less_induct)
    case less
    have "bit (x XOR drop_bit k x) n = bit (y XOR drop_bit k y) n" using eq by simp
    moreover have "bit x (n + k) = bit y (n + k)"
    proof (cases "n + k < LENGTH('a)")
      case True
      then show ?thesis using less.hyps [of "n + k"] assms(1) less.prems by simp
    qed (simp add: bit_word.rep_eq)
    ultimately show ?case by (auto simp: bit_xor_iff bit_drop_bit_eq add.commute)
  qed
qed

lemma mult_inject:
  fixes a b c :: "'a::len word"
  assumes "c * d = 1" shows "a * c = b * c \<longleftrightarrow> a = b"
proof
  assume "a * c = b * c"
  then have "a * c * d = b * c * d" by simp
  then show "a = b" using assms by (simp add: mult.assoc)
qed simp

text \<open>A step that loses nothing of the state, and nothing of the byte, loses no single change.\<close>

lemma foldl_one_byte:
  assumes "\<And>g h c. f g c = f h c \<Longrightarrow> g = h" and "\<And>h c d. f h c = f h d \<Longrightarrow> c = d"
    and "foldl f h (xs @ c # ys) = foldl f h (xs @ d # ys)"
  shows "c = d"
proof -
  have "foldl f g ys = foldl f g' ys \<Longrightarrow> g = g'" for g g'
    by (induction ys arbitrary: g g') (auto dest: assms(1))
  then have "f (foldl f h xs) c = f (foldl f h xs) d" using assms(3) by simp
  then show ?thesis by (rule assms(2))
qed

lemma ucast_u8_inject [simp]: "(ucast (c :: u8) :: u32) = ucast d \<longleftrightarrow> c = d"
  by transfer (simp add: take_bit_eq_mod)

text \<open>The odd factors of the steps have inverses modulo \<open>2^32\<close>.\<close>

lemma mult_odd_inject [simp]:
  fixes a b :: u32
  shows "33 * a = 33 * b \<longleftrightarrow> a = b" "a * 16777619 = b * 16777619 \<longleftrightarrow> a = b" "1025 * a = 1025 * b \<longleftrightarrow> a = b"
    "9 * a = 9 * b \<longleftrightarrow> a = b" "32769 * a = 32769 * b \<longleftrightarrow> a = b"
  using mult_inject [of 33 "1041204193 :: u32" a b] mult_inject [of 16777619 "899433627 :: u32" a b]
    mult_inject [of 1025 "3222273025 :: u32" a b] mult_inject [of 9 "954437177 :: u32" a b]
    mult_inject [of 32769 "1073709057 :: u32" a b]
  by (simp_all add: mult.commute)

lemma xor_inject [simp]: "(a XOR c = b XOR c) = (a = b)" "(c XOR a = c XOR b) = (a = b)" for a b c :: "'a::len word"
  by (metis xor.assoc xor_self_eq xor.right_neutral, metis xor.assoc xor_self_eq xor.left_neutral)

lemma ber_step_inject: "ber_step g c = ber_step h c \<Longrightarrow> g = h" "ber_step h c = ber_step h d \<Longrightarrow> c = d"
  by (simp_all add: ber_step_def push_bit_eq_mult)

lemma fnv_step_inject: "fnv_step g c = fnv_step h c \<Longrightarrow> g = h" "fnv_step h c = fnv_step h d \<Longrightarrow> c = d"
  by (simp_all add: fnv_step_def)

lemma oat_mix_inject:
  fixes g h :: u32
  assumes "(h + push_bit 10 h) XOR drop_bit 6 (h + push_bit 10 h) = (g + push_bit 10 g) XOR drop_bit 6 (g + push_bit 10 g)"
  shows "h = g"
proof -
  have "h + push_bit 10 h = g + push_bit 10 g" by (rule xor_drop_bit_inject [OF _ assms]) simp
  then show ?thesis by (simp add: push_bit_eq_mult)
qed

lemma oat_step_inject: "oat_step g c = oat_step h c \<Longrightarrow> g = h" "oat_step h c = oat_step h d \<Longrightarrow> c = d"
  by (auto simp: oat_step_def Let_def dest!: oat_mix_inject)

lemma oat_final_inject: "oat_final g = oat_final h \<Longrightarrow> g = h"
proof -
  assume eq: "oat_final g = oat_final h"
  let ?m = "\<lambda>x :: u32. (x + push_bit 3 x) XOR drop_bit 11 (x + push_bit 3 x)"
  have p: "x + push_bit 15 x = 32769 * x" for x :: u32 by (simp add: push_bit_eq_mult)
  have "?m g + push_bit 15 (?m g) = ?m h + push_bit 15 (?m h)" using eq unfolding oat_final_def Let_def .
  then have "32769 * ?m g = 32769 * ?m h" unfolding p .
  then have "?m g = ?m h" by (simp only: mult_odd_inject)
  then have "g + push_bit 3 g = h + push_bit 3 h" by (rule xor_drop_bit_inject [rotated]) simp
  then show "g = h" by (simp add: push_bit_eq_mult)
qed

theorem HASH_BER_one_byte: "HASH_BER (xs @ c # ys) = HASH_BER (xs @ d # ys) \<longleftrightarrow> c = d"
  using foldl_one_byte [of ber_step 0 xs c ys d] ber_step_inject by (auto simp: HASH_BER_def)

theorem HASH_FNV_one_byte: "HASH_FNV (xs @ c # ys) = HASH_FNV (xs @ d # ys) \<longleftrightarrow> c = d"
  using foldl_one_byte [of fnv_step 2166136261 xs c ys d] fnv_step_inject by (auto simp: HASH_FNV_def)

theorem HASH_OAT_one_byte: "HASH_OAT (xs @ c # ys) = HASH_OAT (xs @ d # ys) \<longleftrightarrow> c = d"
proof
  assume "HASH_OAT (xs @ c # ys) = HASH_OAT (xs @ d # ys)"
  then have "foldl oat_step 0 (xs @ c # ys) = foldl oat_step 0 (xs @ d # ys)"
    unfolding HASH_OAT_def by (rule oat_final_inject)
  then show "c = d" using foldl_one_byte [of oat_step 0 xs c ys d] oat_step_inject by blast
qed simp

end
