(* ===== verification/Spec2Isabelle.thy ===== *)
theory Spec2Isabelle
  imports Command_Line Config Suite_Report Test_Report Late_Calls Restart Error_Log Session_Handle Test_Process Response_Types
    Interleaving Race Uthash_Check Uthash_Width Uthash_Sort Uthash_Bloom Uthash_Oom Uthash_Select Hash_Others
begin

text \<open>
  Verification development of the session offload framework (OpenOffload), the C and C++ code under
  \<open>src/openoffload/cpp/framework/\<close>; file names below are relative to that directory.

  \<^bold>\<open>The program.\<close> A client asks a server to offload sessions (network flows): it adds sessions,
  reads and deletes them, collects the closed ones and lists all of them page by page. The client
  library (\<open>src/opof_session_client.cc\<close>, \<open>src/opof_clientlib.cc\<close>) turns C structs into protobuf
  messages (\<open>src/opof_util.cc\<close>) and calls the server through the generated gRPC stub. The service of
  the server (\<open>src/opof_session_server.cc\<close>) turns the messages back and calls five C functions, which
  an offload device provides. The repository's device is the test server
  (\<open>src/opof_server_test.c\<close>): a hash table of records (\<open>include/uthash.h\<close>, \<open>include/opof_hash.h\<close>) and a
  static cursor for the listing. The client's test programs (\<open>src/opof_run_tests.c\<close>) drive all of this in
  loops; two \<open>main\<close> functions (\<open>src/opof_client_main.c\<close>, \<open>src/opof_server_main.c\<close> with
  \<open>src/opof_server.cc\<close>) read options and files and start them.

  \<^bold>\<open>Conventions.\<close> A C function is a function in the option monad; \<open>None\<close> stands for undefined behaviour
  (an invalid pointer, an access outside an array, a read of an unterminated string), for a loop
  that does not end, and for the end of the process where no exit status is modelled. Integers that the code
  stores or sends are words of their width; counters that only count are natural numbers. Enumerations are
  datatypes with their codes. What is not assigned before it is read (fresh structs, locals, buffers) is an
  argument. Loops whose end is not evident are \<open>partial_function (option)\<close>, so a theorem that gives
  their result also says that they end; no fuel is used. Code outside the repository is a parameter: the
  gRPC stub (\<open>stub\<close> in \<open>Session_Client\<close>), \<open>libconfig\<close>, the values of \<open>rand()\<close>, the files.

  \<^bold>\<open>The theories, and what their lemmas show.\<close>

  \<^item> \<open>Prelude\<close>: memory, pointers, arrays. \<open>C_Strings\<close>, \<open>Inet\<close>: the C library for strings, numbers and
    network addresses as far as it is used, with the round trips of decimal numbers and of IPv4 addresses.
  \<^item> \<open>Opof_Types\<close> (\<open>include/opof.h\<close>): enumerations and structs of the interface.
  \<^item> \<open>Hash_Jen\<close>, \<open>Linked\<close>, \<open>Uthash\<close> (\<open>include/uthash.h\<close>): the hash function, doubly linked lists on the
    heap as the locale \<open>dlist\<close>, and the macros. \<open>Uthash_Inv\<close>, \<open>Uthash_Ops\<close>: the invariant \<open>ut_inv u as\<close>
    (both lists are linked, buckets hold what hashes into them, keys differ) is kept by adding, deleting
    and by the expansion of the buckets, and under it lookup is the search in the list \<open>as\<close>; the locale
    \<open>keyed_index\<close> states this as the contract that the server uses. \<open>Uthash_Check\<close>: what
    \<open>HASH_FSCK\<close> checks. \<open>Uthash_Width\<close>: the expansion with its counters at their width, and the bound below which
    nothing wraps around. \<open>Uthash_Order\<close>: replacing, clearing and adding in order. \<open>Merge_Runs\<close>, \<open>Uthash_Sort\<close>:
    the in-place merge sort of the app order implements a stable sort. \<open>Hash_Others\<close>: the hash functions that
    the build can choose in place of Jenkins', three of which tell apart keys that differ in one byte.
    \<open>Uthash_Bloom\<close>: the Bloom filter, which keeps the contract \<open>keyed_index\<close>. \<open>Uthash_Oom\<close>: adding with recovery
    from failed allocations (\<open>HASH_NONFATAL_OOM\<close>). \<open>Uthash_Select\<close>: \<open>HASH_SELECT\<close>, with the second handles
    of the elements as a heap of their own. (The program itself uses nothing of \<open>Uthash_Check\<close> and
    of the theories after \<open>Uthash_Width\<close>.)
  \<^item> \<open>Rand_Range\<close> (\<open>range\<close> of \<open>src/opof_test_util.c\<close>): the random statistics stay in their range.
  \<^item> \<open>Server_Store\<close> (\<open>src/opof_server_test.c\<close>, \<open>include/opof_hash.h\<close>): the five operations on the heap.
    \<open>Server_Props\<close>: the store refines a plain list of records (\<open>store_rel\<close>), operation by operation.
    \<open>Server_Theorems\<close>: results of every operation on every branch, the reachable states
    (\<open>server_step\<close>, \<open>server_reachable\<close>) with their invariant, capacity, and the faults the code has.
    \<open>Race\<close>: the add operation in its two halves, in two threads.
  \<^item> \<open>Convert\<close> (\<open>src/opof_util.cc\<close>): messages and conversions, with their round trips and bounds.
  \<^item> \<open>Session_Server\<close> (\<open>src/opof_session_server.cc\<close>): the five handlers over an arbitrary device.
    \<open>Session_Backend\<close>: the contract of a device as the locales \<open>session_backend\<close> and \<open>eager_backend\<close>
    (every session counts as closed at once), and what the handlers guarantee for any such device.
    \<open>Server_Backend\<close>: the test server is an interpretation. \<open>Response_Types\<close>: the codes that are sent.
    \<open>Interleaving\<close>: add handlers that run at the same time and take turns after each request.
  \<^item> \<open>Session_Client\<close> (\<open>src/opof_session_client.cc\<close>, \<open>src/opof_clientlib.cc\<close>): the client calls over a stub.
    \<open>Client_Library\<close>: what they guarantee when the stub is connected to the handlers over a device (the
    locale \<open>session_client\<close>). \<open>Session_Handle\<close>: creation, use and deletion of client handles in memory.
  \<^item> \<open>Test_Util\<close>, \<open>Display\<close> (\<open>src/opof_test_util.c\<close>): the requests the tests send and what is printed.
    \<open>Run_Tests\<close> (\<open>src/opof_run_tests.c\<close>): the tests and the full suite. \<open>Test_Client\<close>: their loops end, they
    succeed, and what they leave on the server, for any device of the locale.
  \<^item> \<open>End_To_End\<close>: client library and tests against the test server (the interpretation \<open>lib\<close>).
    \<open>Suite_Report\<close>: the text the full suite prints tells whether its tests passed.
    \<open>Test_Output\<close>: the tests of the suite with the text they print, which changes nothing else (the loops are
    those of \<open>Run_Tests\<close> over the client paired with its text). \<open>Test_Report\<close>: which sessions a verbose test
    names as refused, as closed, and as read.
    \<open>Late_Calls\<close>: calls that exceed their deadline, as an extension of the locale (\<open>late_client\<close>), and what the
    repeated calls of test 10, and the whole test, come to; a late handler may have run, in part or to its end, or
    have found the call cancelled. \<open>Restart\<close>: a server that is killed and started again
    (the locale \<open>restart_client\<close>, with the machine \<open>host\<close> of the test server, which records the sessions a server
    has sent as closed), when test 9 succeeds, and what the new server has then sent.
  \<^item> \<open>Programs\<close> (the two \<open>main\<close> functions, \<open>src/opof_server.cc\<close>, \<open>get_key\<close>), \<open>Program_Props\<close>: files, options
    and a run of the client to the state of the server. \<open>Command_Line\<close>: the options of both programs from the
    words of \<open>argv\<close>, with \<open>getopt_long\<close> as its documentation describes it, and the help
    texts. \<open>Test_Process\<close> (\<open>src/opof_test_util.c\<close>): starting and stopping the
    test server process, over the output of \<open>pidof\<close> and the result of \<open>fork\<close>.
  \<^item> \<open>Config\<close> (\<open>src/opof_config.c\<close>): the configuration file. \<open>Error_Log\<close> (\<open>src/opof_error.c\<close>): messages and
    signals.

  \<^bold>\<open>Bounds.\<close> The theorems about the tests assume ids below \<open>2^31\<close>, because the client keeps ids in an \<open>int\<close>
  (\<open>client_id_truncated\<close>, \<open>delete_all_keeps_large_id\<close>), page sizes from 1 to \<open>BUFFER_MAX\<close>, because the server's
  arrays have that length (\<open>closed_array_overrun\<close>), and calls that end before their
  deadline and reach the server, except in \<open>Late_Calls\<close> and \<open>Restart\<close>. None of the three is a restriction of the model.
  The counters of uthash are natural numbers in \<open>Uthash\<close> and \<open>unsigned\<close> in the code; \<open>HASH_EXPAND_at_width\<close> shows
  that the expansion is the same below \<open>2^31\<close> buckets and elements, and undefined with \<open>2^31\<close> buckets.

  \<^bold>\<open>Not modelled.\<close> Interleavings finer than a call of the device, except the one of \<open>Race\<close> (the test server has no
  locks); failing allocations outside \<open>Uthash_Oom\<close>; \<open>syslog\<close>, what tests 9 and 10 print, other progress messages and the code under the macro
  \<open>DEBUG\<close>; the code under \<open>FORK\<close> and \<open>INTERACTIVE\<close>, which cannot be built (it uses names that are defined
  nowhere); the effect of a signal or a command on other processes (the tests take the effect of
  \<open>kill_test_server\<close> and \<open>start_test_server\<close> as a parameter, for which \<open>Restart\<close> assumes that the server dies and
  comes up after some start commands) and what a forked child does; of uthash the convenience forms for keys of other
  types, the emission of keys, and recovery from failed allocations in \<open>HASH_SELECT\<close> and in adding in order; the
  code that the protobuf compiler generates, and the clients in other languages.
\<close>

subsection \<open>The server's table and the integrity check of uthash\<close>

text \<open>In a build with \<open>HASH_DEBUG\<close> the check never ends the server: it succeeds in every reachable state.\<close>

lemma reachable_fsck: "server_reachable g s \<Longrightarrow> HASH_FSCK (ut s) = Some (Inr ())"
  using server_reachable_inv HASH_FSCK_ok by (fastforce simp: server_inv_def store_rel_def)

end
